(* ===== verification/Prelude.thy ===== *)
theory Prelude
  imports Main "HOL-Library.Word" "HOL-Library.Multiset" "HOL-Library.Monad_Syntax"
begin

text \<open>
  Shared vocabulary of the development: the failures a C++ operation can end in, the
  unsigned 64-bit arithmetic of \<open>size_t\<close> written out on natural numbers, checked reads
  and writes of a \<open>std::vector\<close>, singly linked lists in a heap of next pointers, and
  a contract for transition systems with an invariant.
\<close>

section \<open>Failures\<close>

text \<open>
  \<open>Undefined\<close> is undefined behaviour (a null dereference, an access outside a vector or
  a signed overflow), \<open>Diverges\<close> a loop that outlives its fuel, \<open>Length_Error\<close> the exception of a \<open>std::vector\<close> asked to grow past
  its maximum size, \<open>Assert_Failed\<close> a failed \<open>assert\<close> \<open>Runtime_Error\<close> the exception
  of that name and \<open>Exit_Failure\<close> a process that prints a message and exits.
\<close>

datatype cpp_error = Undefined | Diverges | Length_Error | Assert_Failed | Runtime_Error string | Exit_Failure string

type_synonym 'a res = "cpp_error + 'a"

fun res_bind :: "'a res \<Rightarrow> ('a \<Rightarrow> 'b res) \<Rightarrow> 'b res" where
  "res_bind (Inl e) f = Inl e"
| "res_bind (Inr x) f = f x"

lemma res_bind_Inr_iff [simp]:
  "res_bind m f = Inr y \<longleftrightarrow> (\<exists>x. m = Inr x \<and> f x = Inr y)"
  by (cases m) auto

section \<open>Loops\<close>

text \<open>
  \<open>for_each xs f\<close> is the loop over the values \<open>xs\<close> with body \<open>f\<close>; \<open>while_res fuel b c\<close> is
  \<open>while (b) c\<close> with fuel for the number of tests of \<open>b\<close>.
\<close>

fun for_each :: "'a list \<Rightarrow> ('a \<Rightarrow> 's \<Rightarrow> 's res) \<Rightarrow> 's \<Rightarrow> 's res" where
  "for_each [] f s = Inr s"
| "for_each (x # xs) f s = res_bind (f x s) (for_each xs f)"

fun while_res :: "nat \<Rightarrow> ('s \<Rightarrow> bool) \<Rightarrow> ('s \<Rightarrow> 's res) \<Rightarrow> 's \<Rightarrow> 's res" where
  "while_res 0 b c s = Inl Diverges"
| "while_res (Suc n) b c s = (if b s then res_bind (c s) (while_res n b c) else Inr s)"

definition res_of :: "'a option \<Rightarrow> 'a res" where
  "res_of x = (case x of None \<Rightarrow> Inl Undefined | Some y \<Rightarrow> Inr y)"

lemma res_of_simps [simp]: "res_of (Some y) = Inr y" "res_of None = Inl Undefined"
  by (simp_all add: res_of_def)

lemma for_each_append:
  "for_each (xs @ ys) f s = res_bind (for_each xs f s) (for_each ys f)"
proof (induction xs arbitrary: s)
  case Nil
  then show ?case by simp
next
  case (Cons x xs)
  then show ?case by (cases "f x s") auto
qed

lemma for_each_inv:
  assumes "I i s" and "i \<le> n"
    and "\<And>k s. i \<le> k \<Longrightarrow> k < n \<Longrightarrow> I k s \<Longrightarrow> \<exists>s'. f k s = Inr s' \<and> I (Suc k) s'"
  shows "\<exists>s'. for_each [i..<n] f s = Inr s' \<and> I n s'"
  using assms
proof (induction "n - i" arbitrary: i s)
  case 0
  then show ?case by simp
next
  case (Suc d)
  then have "i < n" by simp
  with Suc.prems obtain t where t: "f i s = Inr t" "I (Suc i) t" by (meson order_refl)
  have "\<exists>s'. for_each [Suc i..<n] f t = Inr s' \<and> I n s'"
    by (rule Suc.hyps(1)) (use Suc.hyps(2) Suc.prems t(2) \<open>i < n\<close> in auto)
  with t(1) \<open>i < n\<close> show ?case by (simp add: upt_conv_Cons)
qed

lemma while_res_rule:
  assumes "I s" and "m s < fuel"
    and "\<And>s. I s \<Longrightarrow> b s \<Longrightarrow> \<exists>s'. c s = Inr s' \<and> I s' \<and> m s' < m s"
  shows "\<exists>s'. while_res fuel b c s = Inr s' \<and> I s' \<and> \<not> b s'"
  using assms(1,2)
proof (induction fuel arbitrary: s)
  case 0
  then show ?case by simp
next
  case (Suc n)
  show ?case
  proof (cases "b s")
    case True
    with assms(3) Suc.prems obtain t where t: "c s = Inr t" "I t" "m t < m s" by blast
    with Suc.IH [of t] Suc.prems(2) True show ?thesis by simp
  qed (use Suc.prems in auto)
qed

text \<open>A loop whose condition its body never falsifies outlives every fuel.\<close>

lemma while_res_diverges:
  assumes "I s" and "\<And>s. I s \<Longrightarrow> b s \<and> (\<exists>s'. c s = Inr s' \<and> I s')"
  shows "while_res fuel b c s = Inl Diverges"
  using assms(1)
proof (induction fuel arbitrary: s)
  case (Suc n)
  with assms(2) obtain t where "b s" "c s = Inr t" "I t" by blast
  with Suc.IH show ?case by simp
qed simp

section \<open>Arithmetic of \<open>size_t\<close>\<close>

named_theorems size_arith "conditional equations that remove the wrap-around of size_t"

definition sz_add :: "nat \<Rightarrow> nat \<Rightarrow> nat" where
  "sz_add a b = (a + b) mod 2 ^ 64"

definition sz_sub :: "nat \<Rightarrow> nat \<Rightarrow> nat" where
  "sz_sub a b = (if b \<le> a then a - b else a + 2 ^ 64 - b)"

definition sz_mul :: "nat \<Rightarrow> nat \<Rightarrow> nat" where
  "sz_mul a b = (a * b) mod 2 ^ 64"

lemma sz_add_exact [size_arith]: "a + b < 2 ^ 64 \<Longrightarrow> sz_add a b = a + b"
  by (simp add: sz_add_def)

lemma sz_sub_exact [size_arith]: "b \<le> a \<Longrightarrow> sz_sub a b = a - b"
  by (simp add: sz_sub_def)

lemma sz_mul_exact [size_arith]: "a * b < 2 ^ 64 \<Longrightarrow> sz_mul a b = a * b"
  by (simp add: sz_mul_def)

lemma sz_add_less: "sz_add a b < 2 ^ 64"
  by (simp add: sz_add_def)

lemma sz_sub_less: "a < 2 ^ 64 \<Longrightarrow> sz_sub a b < 2 ^ 64"
  by (auto simp: sz_sub_def)

lemma sz_add_sub_cancel: "a < 2 ^ 64 \<Longrightarrow> b < 2 ^ 64 \<Longrightarrow> sz_add (sz_sub a b) b = a"
  by (auto simp: sz_add_def sz_sub_def)

lemma sz_sub_add_cancel: "a < 2 ^ 64 \<Longrightarrow> b < 2 ^ 64 \<Longrightarrow> sz_sub (sz_add a b) b = a"
  by (auto simp: sz_add_def sz_sub_def mod_if)

section \<open>Signed 32-bit integers\<close>

definition int32 :: "int \<Rightarrow> bool" where
  "int32 x \<longleftrightarrow> - (2 ^ 31) \<le> x \<and> x < 2 ^ 31"

definition INT_MAX :: int where
  "INT_MAX = 2147483647"

lemma int32_le_INT_MAX: "int32 x \<Longrightarrow> x \<le> INT_MAX"
  by (simp add: int32_def INT_MAX_def)

section \<open>Decimal numerals\<close>

text \<open>\<open>%d\<close> of a number that is not negative, and \<open>%s\<close> followed by the truncation of \<open>snprintf\<close>.\<close>

fun dec :: "nat \<Rightarrow> string" where
  "dec n = (if n < 10 then [char_of (48 + n)] else dec (n div 10) @ [char_of (48 + n mod 10)])"

declare dec.simps [simp del]

definition undec :: "string \<Rightarrow> nat" where
  "undec s = foldl (\<lambda>a c. 10 * a + (of_char c - 48)) 0 s"

definition snprintf :: "nat \<Rightarrow> string \<Rightarrow> string" where
  "snprintf bufsize s = take (bufsize - 1) s"

lemma undec_dec: "undec (dec n) = n"
proof (induction n rule: dec.induct)
  case (1 n)
  show ?case
  proof (cases "n < 10")
    case True
    then show ?thesis by (subst dec.simps) (simp add: undec_def)
  next
    case False
    with 1 have "undec (dec (n div 10)) = n div 10" by simp
    with False show ?thesis by (subst dec.simps) (simp add: undec_def)
  qed
qed

lemma dec_inj: "dec m = dec n \<longleftrightarrow> m = n"
  by (metis undec_dec)

lemma length_dec: "n < 10 ^ Suc k \<Longrightarrow> length (dec n) \<le> Suc k"
proof (induction k arbitrary: n)
  case 0
  then show ?case by (subst dec.simps) simp
next
  case (Suc k)
  then have "n div 10 < 10 ^ Suc k" by (simp add: div_less_iff_less_mult)
  then have "length (dec (n div 10)) \<le> Suc k" by (rule Suc.IH)
  then show ?case by (subst dec.simps) simp
qed

section \<open>Byte order\<close>

text \<open>\<open>htons\<close> and \<open>ntohs\<close> exchange the two bytes on a little-endian machine.\<close>

definition htons :: "16 word \<Rightarrow> 16 word" where
  "htons p = Bit_Operations.or (push_bit 8 p) (drop_bit 8 p)"

lemma htons_htons: "htons (htons p) = p"
  unfolding htons_def by (rule bit_word_eqI) (auto simp: bit_or_iff bit_push_bit_iff bit_drop_bit_eq)

section \<open>Vectors\<close>

text \<open>Reads and writes through an \<open>int\<close> or \<open>size_t\<close> index; outside the vector they fail.\<close>

definition vget :: "'a list \<Rightarrow> int \<Rightarrow> 'a option" where
  "vget xs i = (if 0 \<le> i \<and> i < int (length xs) then Some (xs ! nat i) else None)"

definition vset :: "'a list \<Rightarrow> int \<Rightarrow> 'a \<Rightarrow> 'a list option" where
  "vset xs i x = (if 0 \<le> i \<and> i < int (length xs) then Some (xs[nat i := x]) else None)"

lemma vget_nth [simp]: "i < length xs \<Longrightarrow> vget xs (int i) = Some (xs ! i)"
  by (simp add: vget_def)

lemma vget_Some_iff:
  "vget xs i = Some x \<longleftrightarrow> 0 \<le> i \<and> i < int (length xs) \<and> x = xs ! nat i"
  by (auto simp: vget_def)

lemma vset_Some_iff:
  "vset xs i x = Some ys \<longleftrightarrow> 0 \<le> i \<and> i < int (length xs) \<and> ys = xs[nat i := x]"
  by (auto simp: vset_def)

lemma vset_nth [simp]: "i < length xs \<Longrightarrow> vset xs (int i) x = Some (xs[i := x])"
  by (simp add: vset_def)

text \<open>The same with an index that cannot be negative, failing as undefined behaviour.\<close>

definition vat :: "'a list \<Rightarrow> nat \<Rightarrow> 'a res" where
  "vat xs i = (if i < length xs then Inr (xs ! i) else Inl Undefined)"

definition vput :: "'a list \<Rightarrow> nat \<Rightarrow> 'a \<Rightarrow> 'a list res" where
  "vput xs i x = (if i < length xs then Inr (xs[i := x]) else Inl Undefined)"

lemma vat_ok [simp]: "i < length xs \<Longrightarrow> vat xs i = Inr (xs ! i)"
  by (simp add: vat_def)

lemma vput_ok [simp]: "i < length xs \<Longrightarrow> vput xs i x = Inr (xs[i := x])"
  by (simp add: vput_def)

lemma vat_out: "length xs \<le> i \<Longrightarrow> vat xs i = Inl Undefined"
  by (simp add: vat_def)

text \<open>\<open>std::vector::resize\<close>: cut off, or filled up with the value-initialised element.\<close>

definition vresize :: "'a \<Rightarrow> 'a list \<Rightarrow> nat \<Rightarrow> 'a list" where
  "vresize z xs n = take n xs @ replicate (n - length xs) z"

lemma length_vresize [simp]: "length (vresize z xs n) = n"
  by (simp add: vresize_def)

lemma take_vresize [simp]: "k \<le> n \<Longrightarrow> k \<le> length xs \<Longrightarrow> take k (vresize z xs n) = take k xs"
  by (simp add: vresize_def min_def)

text \<open>\<open>std::copy\<close> of the elements \<open>ys\<close> to position \<open>i\<close>, inside the vector.\<close>

definition overwrite :: "'a list \<Rightarrow> nat \<Rightarrow> 'a list \<Rightarrow> 'a list" where
  "overwrite xs i ys = take i xs @ ys @ drop (i + length ys) xs"

lemma length_overwrite [simp]:
  "i + length ys \<le> length xs \<Longrightarrow> length (overwrite xs i ys) = length xs"
  by (simp add: overwrite_def)

lemma take_overwrite_before [simp]:
  "k \<le> i \<Longrightarrow> i \<le> length xs \<Longrightarrow> take k (overwrite xs i ys) = take k xs"
  by (simp add: overwrite_def min_def)

lemma take_overwrite_end:
  "i \<le> length xs \<Longrightarrow> take (i + length ys) (overwrite xs i ys) = take i xs @ ys"
  by (simp add: overwrite_def)

section \<open>Linked lists in a heap of next pointers\<close>

text \<open>
  An address is a natural number and \<open>0\<close> is \<open>nullptr\<close>. \<open>hpath h p as q\<close> says that the
  next pointers lead from \<open>p\<close> through the cells \<open>as\<close> to \<open>q\<close>.
\<close>

type_synonym addr = nat

primrec hpath :: "(addr \<Rightarrow> addr) \<Rightarrow> addr \<Rightarrow> addr list \<Rightarrow> addr \<Rightarrow> bool" where
  "hpath h p [] q \<longleftrightarrow> p = q"
| "hpath h p (a # as) q \<longleftrightarrow> p = a \<and> a \<noteq> 0 \<and> hpath h (h a) as q"

abbreviation hlist :: "(addr \<Rightarrow> addr) \<Rightarrow> addr \<Rightarrow> addr list \<Rightarrow> bool" where
  "hlist h p as \<equiv> hpath h p as 0"

lemma hpath_append [simp]:
  "hpath h p (as @ bs) q \<longleftrightarrow> (\<exists>m. hpath h p as m \<and> hpath h m bs q)"
  by (induction as arbitrary: p) auto

lemma hpath_upd [simp]: "c \<notin> set as \<Longrightarrow> hpath (h(c := v)) p as q = hpath h p as q"
  by (induction as arbitrary: p) auto

lemma hpath_cong: "(\<And>c. c \<in> set as \<Longrightarrow> g c = h c) \<Longrightarrow> hpath g p as q = hpath h p as q"
  by (induction as arbitrary: p) auto

lemma hlist_null [simp]: "hlist h 0 as \<longleftrightarrow> as = []"
  by (cases as) auto

lemma hlist_nonnull: "p \<noteq> 0 \<Longrightarrow> hlist h p as \<Longrightarrow> \<exists>bs. as = p # bs \<and> hlist h (h p) bs"
  by (cases as) auto

lemma hpath_nonzero: "hpath h p as q \<Longrightarrow> 0 \<notin> set as"
  by (induction as arbitrary: p) auto

lemma hlist_unique: "hlist h p as \<Longrightarrow> hlist h p bs \<Longrightarrow> as = bs"
proof (induction as arbitrary: p bs)
  case Nil
  then show ?case by simp
next
  case (Cons a as)
  then show ?case by (cases bs) auto
qed

lemma hlist_distinct: "hlist h p as \<Longrightarrow> distinct as"
proof (induction as arbitrary: p)
  case Nil
  then show ?case by simp
next
  case (Cons a as)
  then have tl: "hlist h (h a) as" by simp
  have "a \<notin> set as"
  proof
    assume "a \<in> set as"
    then obtain us vs where as: "as = us @ a # vs" by (meson split_list)
    with tl have "hlist h (h a) vs" by auto
    with tl have "as = vs" by (rule hlist_unique)
    with as show False by simp
  qed
  with Cons tl show ?case by simp
qed

section \<open>Transition systems with an invariant\<close>

locale invariant_system =
  fixes init :: "'s \<Rightarrow> bool"
    and step :: "'s \<Rightarrow> 's \<Rightarrow> bool"
    and inv :: "'s \<Rightarrow> bool"
  assumes init_inv: "init s \<Longrightarrow> inv s"
    and step_inv: "inv s \<Longrightarrow> step s t \<Longrightarrow> inv t"
begin

lemma steps_inv: "step\<^sup>*\<^sup>* s t \<Longrightarrow> inv s \<Longrightarrow> inv t"
  by (induction rule: rtranclp_induct) (auto intro: step_inv)

lemma reachable_inv: "init s \<Longrightarrow> step\<^sup>*\<^sup>* s t \<Longrightarrow> inv t"
  by (rule steps_inv) (auto intro: init_inv)

end

text \<open>
  A system that keeps an invariant implements another one along \<open>abs\<close> when each of its steps is a sequence of steps there,
  so each of its runs is a run there.
\<close>

locale simulation = invariant_system +
  fixes abs :: "'a \<Rightarrow> 'b"
    and spec_step :: "'b \<Rightarrow> 'b \<Rightarrow> bool"
  assumes simulates: "inv s \<Longrightarrow> step s t \<Longrightarrow> spec_step\<^sup>*\<^sup>* (abs s) (abs t)"
begin

lemma run_simulated: "step\<^sup>*\<^sup>* s t \<Longrightarrow> inv s \<Longrightarrow> spec_step\<^sup>*\<^sup>* (abs s) (abs t)"
proof (induction rule: rtranclp_induct)
  case (step t u)
  then have "inv t" using steps_inv by blast
  with step show ?case by (meson simulates rtranclp_trans)
qed simp

end

end
