(* ===== verification/Muduo_Buffer.thy ===== *)
theory Muduo_Buffer
  imports Prelude
begin

text \<open>
  \<open>Buffer\<close> of muduo-mgkl (include/Buffer.hpp, src/Buffer.cpp): a byte vector with a
  read and a write index and eight bytes kept free in front. The vector is a list of bytes,
  the indices are \<open>size_t\<close> values with the wrap-around written out. The bytes between
  the indices are the abstract content; appending and retrieving refine appending to and
  dropping from that byte string.
\<close>

section \<open>State\<close>

definition kCheapPrepend :: nat where
  "kCheapPrepend = 8"

definition kInitialSize :: nat where
  "kInitialSize = 1024"

text \<open>\<open>std::vector<char>::max_size()\<close>; \<open>resize\<close> beyond it throws.\<close>

definition vector_max :: nat where
  "vector_max = 2 ^ 63 - 1"

record mbuffer =
  buf_data :: "char list"
  readerIndex :: nat
  writerIndex :: nat

definition NUL :: char where
  "NUL = CHR 0x00"

definition buffer_new :: "nat \<Rightarrow> mbuffer" where
  "buffer_new initialSize =
     \<lparr>buf_data = replicate (kCheapPrepend + initialSize) NUL,
      readerIndex = kCheapPrepend, writerIndex = kCheapPrepend\<rparr>"

section \<open>Operations\<close>

definition readableBytes :: "mbuffer \<Rightarrow> nat" where
  "readableBytes b = sz_sub (writerIndex b) (readerIndex b)"

definition writableBytes :: "mbuffer \<Rightarrow> nat" where
  "writableBytes b = sz_sub (length (buf_data b)) (writerIndex b)"

definition prependableBytes :: "mbuffer \<Rightarrow> nat" where
  "prependableBytes b = readerIndex b"

definition buf_retrieveAll :: "mbuffer \<Rightarrow> mbuffer" where
  "buf_retrieveAll b = b\<lparr>readerIndex := kCheapPrepend, writerIndex := kCheapPrepend\<rparr>"

definition buf_retrieve :: "nat \<Rightarrow> mbuffer \<Rightarrow> mbuffer" where
  "buf_retrieve len b =
     (if len < readableBytes b then b\<lparr>readerIndex := sz_add (readerIndex b) len\<rparr>
      else buf_retrieveAll b)"

text \<open>\<open>std::string(peek(), len)\<close> reads \<open>len\<close> bytes from the read index on.\<close>

definition buf_peek :: "nat \<Rightarrow> mbuffer \<Rightarrow> char list" where
  "buf_peek len b = take len (drop (readerIndex b) (buf_data b))"

definition buf_retrieveAsString :: "nat \<Rightarrow> mbuffer \<Rightarrow> (char list \<times> mbuffer) res" where
  "buf_retrieveAsString len b =
     (if len \<le> readableBytes b then Inr (buf_peek len b, buf_retrieve len b)
      else Inl Assert_Failed)"

definition buf_retrieveAllAsString :: "mbuffer \<Rightarrow> (char list \<times> mbuffer) res" where
  "buf_retrieveAllAsString b = buf_retrieveAsString (readableBytes b) b"

definition buf_makeSpace :: "nat \<Rightarrow> mbuffer \<Rightarrow> mbuffer res" where
  "buf_makeSpace len b =
     (if sz_add (writableBytes b) (prependableBytes b) < sz_add len kCheapPrepend
      then (let n = sz_add (writerIndex b) len
            in if n \<le> vector_max then Inr (b\<lparr>buf_data := vresize NUL (buf_data b) n\<rparr>)
               else Inl Length_Error)
      else (let readable = readableBytes b
            in Inr (b\<lparr>buf_data := overwrite (buf_data b) kCheapPrepend (buf_peek readable b),
                      readerIndex := kCheapPrepend,
                      writerIndex := sz_add kCheapPrepend readable\<rparr>)))"

definition buf_ensureWritableBytes :: "nat \<Rightarrow> mbuffer \<Rightarrow> mbuffer res" where
  "buf_ensureWritableBytes len b =
     (if writableBytes b < len then buf_makeSpace len b else Inr b)"

text \<open>The copy of \<open>append\<close>; one past the end of the vector is undefined behaviour.\<close>

definition buf_write :: "char list \<Rightarrow> mbuffer \<Rightarrow> mbuffer res" where
  "buf_write d b =
     (if writerIndex b + length d \<le> length (buf_data b)
      then Inr (b\<lparr>buf_data := overwrite (buf_data b) (writerIndex b) d,
                  writerIndex := sz_add (writerIndex b) (length d)\<rparr>)
      else Inl Undefined)"

definition buf_append :: "char list \<Rightarrow> mbuffer \<Rightarrow> mbuffer res" where
  "buf_append d b = res_bind (buf_ensureWritableBytes (length d) b) (buf_write d)"

text \<open>
  The kernel's answers are arguments: \<open>readv\<close> gives the bytes received or an error number,
  \<open>write\<close> the number of bytes accepted or an error number. \<open>readv\<close> fills the writable
  part of the vector first and the 64 KiB stack buffer \<open>extrabuf\<close> second; the second buffer
  is only offered when the first is smaller than it.
\<close>

datatype read_result = Read_Error int | Read_Bytes "char list"

datatype write_result = Write_Error int | Wrote nat

definition extrabuf_size :: nat where
  "extrabuf_size = 65536"

definition readv_capacity :: "mbuffer \<Rightarrow> nat" where
  "readv_capacity b =
     (if writableBytes b < extrabuf_size then writableBytes b + extrabuf_size
      else writableBytes b)"

definition buf_readFd :: "read_result \<Rightarrow> mbuffer \<Rightarrow> (int \<times> int option \<times> mbuffer) res" where
  "buf_readFd r b =
     (case r of
        Read_Error e \<Rightarrow> Inr (-1, Some e, b)
      | Read_Bytes d \<Rightarrow>
          (let n = length d; writable = writableBytes b
           in if readv_capacity b < n then Inl Undefined
              else if n \<le> writable
              then Inr (int n, None,
                        b\<lparr>buf_data := overwrite (buf_data b) (writerIndex b) d,
                          writerIndex := sz_add (writerIndex b) n\<rparr>)
              else res_bind
                     (buf_append (drop writable d)
                        (b\<lparr>buf_data :=
                             overwrite (buf_data b) (writerIndex b) (take writable d),
                           writerIndex := length (buf_data b)\<rparr>))
                     (\<lambda>b'. Inr (int n, None, b'))))"

text \<open>\<open>writeFd\<close> offers all readable bytes and leaves the indices to the caller.\<close>

definition buf_writeFd :: "write_result \<Rightarrow> mbuffer \<Rightarrow> int \<times> int option" where
  "buf_writeFd w b =
     (case w of Write_Error e \<Rightarrow> (-1, Some e) | Wrote n \<Rightarrow> (int n, None))"

section \<open>Invariant and abstraction\<close>

definition buf_content :: "mbuffer \<Rightarrow> char list" where
  "buf_content b = buf_peek (readableBytes b) b"

definition buf_inv :: "mbuffer \<Rightarrow> bool" where
  "buf_inv b \<longleftrightarrow> kCheapPrepend \<le> readerIndex b \<and> readerIndex b \<le> writerIndex b
     \<and> writerIndex b \<le> length (buf_data b) \<and> length (buf_data b) \<le> vector_max"

named_theorems buf_unfold "definitions of the buffer operations"

lemmas [buf_unfold] =
  buf_inv_def buf_content_def buf_peek_def readableBytes_def writableBytes_def
  prependableBytes_def kCheapPrepend_def vector_max_def

lemma readableBytes_inv: "buf_inv b \<Longrightarrow> readableBytes b = writerIndex b - readerIndex b"
  by (simp add: buf_unfold size_arith)

lemma writableBytes_inv: "buf_inv b \<Longrightarrow> writableBytes b = length (buf_data b) - writerIndex b"
  by (simp add: buf_unfold size_arith)

lemma buf_content_inv:
  "buf_inv b \<Longrightarrow> buf_content b = drop (readerIndex b) (take (writerIndex b) (buf_data b))"
  by (simp add: buf_content_def buf_peek_def readableBytes_inv drop_take)

lemma length_buf_content: "buf_inv b \<Longrightarrow> length (buf_content b) = readableBytes b"
  by (auto simp: buf_content_inv readableBytes_inv buf_inv_def)

lemma buf_new_inv: "n \<le> 2 ^ 62 \<Longrightarrow> buf_inv (buffer_new n)"
  by (simp add: buf_unfold buffer_new_def)

lemma buf_new_content: "buf_content (buffer_new n) = []"
  by (simp add: buf_unfold buffer_new_def size_arith)

lemma buf_retrieve_inv: "buf_inv b \<Longrightarrow> buf_inv (buf_retrieve n b)"
  by (auto simp: buf_unfold buf_retrieve_def buf_retrieveAll_def sz_add_def sz_sub_def)

lemma buf_retrieve_content:
  assumes "buf_inv b"
  shows "buf_content (buf_retrieve n b) = drop n (buf_content b)"
proof (cases "n < readableBytes b")
  case True
  with assms have "readerIndex b + n \<le> writerIndex b"
    by (simp add: readableBytes_inv)
  with True assms show ?thesis
    using buf_retrieve_inv [OF assms, of n]
    by (simp add: buf_content_inv buf_retrieve_def sz_add_exact buf_inv_def vector_max_def add.commute)
next
  case False
  with assms have "drop n (buf_content b) = []"
    by (simp add: length_buf_content)
  moreover from False have "buf_content (buf_retrieve n b) = []"
    by (simp add: buf_retrieve_def buf_retrieveAll_def buf_content_def readableBytes_def
        buf_peek_def size_arith)
  ultimately show ?thesis by simp
qed

lemma buf_retrieveAsString_ok:
  assumes "buf_inv b" and "n \<le> length (buf_content b)"
  shows "buf_retrieveAsString n b = Inr (take n (buf_content b), buf_retrieve n b)"
  using assms by (simp add: buf_retrieveAsString_def length_buf_content buf_content_def buf_peek_def)

lemma buf_retrieveAllAsString_ok:
  "buf_inv b \<Longrightarrow> buf_retrieveAllAsString b = Inr (buf_content b, buf_retrieve (readableBytes b) b)"
  by (simp add: buf_retrieveAllAsString_def buf_retrieveAsString_def buf_content_def)

section \<open>Making space and appending\<close>

lemma buf_makeSpace_ok:
  assumes inv: "buf_inv b" and small: "writerIndex b + n \<le> vector_max"
    and need: "writableBytes b < n"
  obtains b' where "buf_makeSpace n b = Inr b'" "buf_inv b'" "n \<le> writableBytes b'"
    "buf_content b' = buf_content b" "writerIndex b' \<le> writerIndex b"
proof (cases "sz_add (writableBytes b) (prependableBytes b) < sz_add n kCheapPrepend")
  case True
  let ?b = "b\<lparr>buf_data := vresize NUL (buf_data b) (writerIndex b + n)\<rparr>"
  from inv small have sz: "sz_add (writerIndex b) n = writerIndex b + n"
    by (intro sz_add_exact) (simp add: vector_max_def)
  from inv need have grow: "length (buf_data b) < writerIndex b + n"
    by (simp add: writableBytes_inv)
  from inv small grow have inv': "buf_inv ?b"
    by (simp add: buf_inv_def)
  show ?thesis
  proof (rule that [of ?b])
    show "buf_makeSpace n b = Inr ?b"
      using True small by (simp add: buf_makeSpace_def sz)
    show "n \<le> writableBytes ?b"
      using inv' by (simp add: writableBytes_inv)
    show "buf_content ?b = buf_content b"
      using inv inv' by (auto simp: buf_content_inv buf_inv_def)
  qed (use inv' in simp_all)
next
  case False
  let ?r = "readableBytes b"
  let ?b = "b\<lparr>buf_data := overwrite (buf_data b) kCheapPrepend (buf_peek ?r b),
              readerIndex := kCheapPrepend, writerIndex := kCheapPrepend + ?r\<rparr>"
  have r: "?r = writerIndex b - readerIndex b"
    using inv by (rule readableBytes_inv)
  have len: "length (buf_peek ?r b) = ?r"
    using length_buf_content [OF inv] by (simp add: buf_content_def)
  have fits: "kCheapPrepend + ?r \<le> length (buf_data b)"
    using inv r by (auto simp: buf_inv_def)
  have sz: "sz_add kCheapPrepend ?r = kCheapPrepend + ?r"
    using inv fits by (intro sz_add_exact) (auto simp: buf_inv_def vector_max_def)
  have inv': "buf_inv ?b"
    using inv fits len by (auto simp: buf_inv_def)
  have room: "n + kCheapPrepend \<le> writableBytes b + prependableBytes b"
  proof -
    have "writableBytes b + prependableBytes b \<le> length (buf_data b)"
      using inv by (auto simp: writableBytes_inv prependableBytes_def buf_inv_def)
    with inv small False show ?thesis
      by (simp add: sz_add_exact buf_inv_def vector_max_def kCheapPrepend_def)
  qed
  show ?thesis
  proof (rule that [of ?b])
    show "buf_makeSpace n b = Inr ?b"
      using False by (simp add: buf_makeSpace_def sz Let_def)
    have "writableBytes ?b = length (buf_data b) - (kCheapPrepend + ?r)"
      using inv' fits len by (simp add: writableBytes_inv)
    with room show "n \<le> writableBytes ?b"
      using inv r by (auto simp: writableBytes_inv prependableBytes_def buf_inv_def)
    show "buf_content ?b = buf_content b"
      using inv' fits len take_overwrite_end [of kCheapPrepend "buf_data b" "buf_peek ?r b"]
      by (simp add: buf_content_inv) (simp add: buf_content_def)
    show "writerIndex ?b \<le> writerIndex b"
      using inv r by (auto simp: buf_inv_def)
  qed (rule inv')
qed

text \<open>
  The sliding copy of \<open>makeSpace\<close> never starts inside the range it reads from, so the
  forward \<open>std::copy\<close> is defined: it only runs when the read index is past the prefix.
\<close>

lemma buf_slide_moves_down:
  assumes "buf_inv b" "writableBytes b < n" "n \<le> vector_max"
    and "\<not> sz_add (writableBytes b) (prependableBytes b) < sz_add n kCheapPrepend"
  shows "kCheapPrepend < readerIndex b"
proof -
  have "writableBytes b + prependableBytes b \<le> length (buf_data b)"
    using assms(1) by (auto simp: writableBytes_inv prependableBytes_def buf_inv_def)
  with assms show ?thesis
    by (simp add: sz_add_exact buf_inv_def vector_max_def kCheapPrepend_def prependableBytes_def)
qed

lemma buf_write_ok:
  assumes inv: "buf_inv b" and room: "length d \<le> writableBytes b"
  obtains b' where "buf_write d b = Inr b'" "buf_inv b'" "buf_content b' = buf_content b @ d"
    "writerIndex b' = writerIndex b + length d"
proof -
  let ?b = "b\<lparr>buf_data := overwrite (buf_data b) (writerIndex b) d,
              writerIndex := writerIndex b + length d\<rparr>"
  have fits: "writerIndex b + length d \<le> length (buf_data b)"
    using inv room by (simp add: writableBytes_inv) (auto simp: buf_inv_def)
  have "buf_write d b = Inr ?b"
    using fits inv by (simp add: buf_write_def sz_add_exact buf_inv_def vector_max_def)
  moreover have inv': "buf_inv ?b"
    using inv fits by (simp add: buf_inv_def)
  moreover have "buf_content ?b = buf_content b @ d"
    using inv inv' take_overwrite_end [of "writerIndex b" "buf_data b" d]
    by (simp add: buf_content_inv buf_inv_def)
  ultimately show ?thesis by (rule that) simp
qed

lemma buf_append_ok:
  assumes inv: "buf_inv b" and small: "writerIndex b + length d \<le> vector_max"
  obtains b' where "buf_append d b = Inr b'" "buf_inv b'" "buf_content b' = buf_content b @ d"
    "writerIndex b' \<le> writerIndex b + length d"
proof (cases "writableBytes b < length d")
  case True
  obtain b1 where b1: "buf_makeSpace (length d) b = Inr b1" "buf_inv b1"
    "length d \<le> writableBytes b1" "buf_content b1 = buf_content b" "writerIndex b1 \<le> writerIndex b"
    using buf_makeSpace_ok [OF inv small True] by blast
  obtain b2 where "buf_write d b1 = Inr b2" "buf_inv b2" "buf_content b2 = buf_content b1 @ d"
    "writerIndex b2 = writerIndex b1 + length d"
    using buf_write_ok [OF b1(2,3)] by blast
  with b1 True that show ?thesis
    by (simp add: buf_append_def buf_ensureWritableBytes_def)
next
  case False
  then obtain b2 where "buf_write d b = Inr b2" "buf_inv b2" "buf_content b2 = buf_content b @ d"
    "writerIndex b2 = writerIndex b + length d"
    using buf_write_ok [OF inv, of d] by auto
  with False that show ?thesis
    by (simp add: buf_append_def buf_ensureWritableBytes_def)
qed

lemma buf_retrieve_writer: "buf_inv b \<Longrightarrow> writerIndex (buf_retrieve n b) \<le> writerIndex b"
  by (auto simp: buf_retrieve_def buf_retrieveAll_def buf_inv_def)

section \<open>The contract of a byte queue\<close>

text \<open>
  What the connections rely on: a representation with a content, an operation that appends
  and one that drops from the front, and a bound on what still fits.
\<close>

datatype queue_op = Put "char list" | Get nat

fun run_ops :: "(char list \<Rightarrow> 'b \<Rightarrow> 'b res) \<Rightarrow> (nat \<Rightarrow> 'b \<Rightarrow> 'b) \<Rightarrow> queue_op list \<Rightarrow> 'b \<Rightarrow> 'b res" where
  "run_ops put get [] b = Inr b"
| "run_ops put get (Put d # os) b = res_bind (put d b) (run_ops put get os)"
| "run_ops put get (Get n # os) b = run_ops put get os (get n b)"

fun spec_ops :: "queue_op list \<Rightarrow> char list \<Rightarrow> char list" where
  "spec_ops [] c = c"
| "spec_ops (Put d # os) c = spec_ops os (c @ d)"
| "spec_ops (Get n # os) c = spec_ops os (drop n c)"

fun put_total :: "queue_op list \<Rightarrow> nat" where
  "put_total [] = 0"
| "put_total (Put d # os) = length d + put_total os"
| "put_total (Get n # os) = put_total os"

locale byte_queue =
  fixes content :: "'b \<Rightarrow> char list"
    and inv :: "'b \<Rightarrow> bool"
    and used :: "'b \<Rightarrow> nat"
    and limit :: nat
    and put :: "char list \<Rightarrow> 'b \<Rightarrow> 'b res"
    and get :: "nat \<Rightarrow> 'b \<Rightarrow> 'b"
  assumes put_ok: "inv b \<Longrightarrow> used b + length d \<le> limit \<Longrightarrow>
      \<exists>b'. put d b = Inr b' \<and> inv b' \<and> content b' = content b @ d \<and> used b' \<le> used b + length d"
    and get_inv: "inv b \<Longrightarrow> inv (get n b)"
    and get_content: "inv b \<Longrightarrow> content (get n b) = drop n (content b)"
    and get_used: "inv b \<Longrightarrow> used (get n b) \<le> used b"
begin

lemma run_ops_refines:
  "inv b \<Longrightarrow> used b + put_total os \<le> limit \<Longrightarrow>
   \<exists>b'. run_ops put get os b = Inr b' \<and> inv b' \<and> content b' = spec_ops os (content b)"
proof (induction os arbitrary: b)
  case Nil
  then show ?case by simp
next
  case (Cons x os)
  show ?case
  proof (cases x)
    case (Put d)
    with Cons.prems obtain b' where b': "put d b = Inr b'" "inv b'" "content b' = content b @ d"
      "used b' \<le> used b + length d"
      using put_ok [of b d] by auto
    with Cons.prems Put have "used b' + put_total os \<le> limit" by simp
    with Cons.IH [OF b'(2)] b' Put show ?thesis by simp
  next
    case (Get n)
    with Cons.prems get_used [of b n] have "used (get n b) + put_total os \<le> limit" by simp
    with Cons.IH [OF get_inv [OF Cons.prems(1)]] Cons.prems(1) Get show ?thesis
      by (simp add: get_content)
  qed
qed

end

interpretation mbuf: byte_queue buf_content buf_inv writerIndex vector_max buf_append buf_retrieve
proof unfold_locales
  fix b :: mbuffer and d :: "char list" and n :: nat
  assume inv: "buf_inv b"
  show "buf_inv (buf_retrieve n b)" using inv by (rule buf_retrieve_inv)
  show "buf_content (buf_retrieve n b) = drop n (buf_content b)"
    using inv by (rule buf_retrieve_content)
  show "writerIndex (buf_retrieve n b) \<le> writerIndex b" using inv by (rule buf_retrieve_writer)
  assume "writerIndex b + length d \<le> vector_max"
  then show "\<exists>b'. buf_append d b = Inr b' \<and> buf_inv b' \<and> buf_content b' = buf_content b @ d
      \<and> writerIndex b' \<le> writerIndex b + length d"
    using inv by (metis buf_append_ok)
qed

section \<open>Properties\<close>

lemma buf_readFd_error: "buf_readFd (Read_Error e) b = Inr (-1, Some e, b)"
  by (simp add: buf_readFd_def)

text \<open>C3: For every sequence of appends and retrieves that starts with a new buffer and whose
  appended bytes fit into a vector, \<open>Buffer\<close> succeeds, keeps its index invariant, and its readable
  bytes are what the same sequence makes of a plain byte string: nothing lost, repeated or
  reordered by sliding, growing or wrapping.\<close>
theorem buffer_refines_byte_string:
  assumes "n + put_total os \<le> 2 ^ 62"
  shows "\<exists>b. run_ops buf_append buf_retrieve os (buffer_new n) = Inr b \<and> buf_inv b
           \<and> buf_content b = spec_ops os []"
proof -
  have "buf_inv (buffer_new n)" using assms by (intro buf_new_inv) simp
  moreover have "writerIndex (buffer_new n) + put_total os \<le> vector_max"
    using assms by (simp add: buffer_new_def kCheapPrepend_def vector_max_def)
  ultimately show ?thesis
    using mbuf.run_ops_refines [of "buffer_new n" os] by (simp add: buf_new_content)
qed

theorem buffer_refines_byte_string_witness:
  "\<exists>b. run_ops buf_append buf_retrieve [Put ''abc'', Get 2, Put ''de''] (buffer_new 4) = Inr b
     \<and> buf_content b = ''cde''"
  using buffer_refines_byte_string [of 4 "[Put ''abc'', Get 2, Put ''de'']"] by auto

lemma buf_readFd_deliver:
  assumes inv: "buf_inv b" and cap: "length d \<le> readv_capacity b"
    and small: "length (buf_data b) + extrabuf_size \<le> vector_max"
  shows "\<exists>b'. buf_readFd (Read_Bytes d) b = Inr (int (length d), None, b') \<and> buf_inv b'
           \<and> buf_content b' = buf_content b @ d"
proof (cases "length d \<le> writableBytes b")
  case True
  then obtain b' where "buf_write d b = Inr b'" "buf_inv b'" "buf_content b' = buf_content b @ d"
    using buf_write_ok [OF inv, of d] by blast
  with True cap show ?thesis
    by (auto simp: buf_readFd_def buf_write_def Let_def split: if_splits)
next
  case False
  let ?w = "writableBytes b"
  obtain b1 where b1: "buf_write (take ?w d) b = Inr b1" "buf_inv b1"
    "buf_content b1 = buf_content b @ take ?w d" "writerIndex b1 = writerIndex b + length (take ?w d)"
    using buf_write_ok [OF inv, of "take ?w d"] by auto
  have full: "writerIndex b + ?w = length (buf_data b)"
    using inv by (auto simp: writableBytes_inv buf_inv_def)
  with False b1 inv have b1_eq: "b1 = b\<lparr>buf_data := overwrite (buf_data b) (writerIndex b) (take ?w d),
      writerIndex := length (buf_data b)\<rparr>"
    by (auto simp: buf_write_def min_def split: if_splits)
  have "writerIndex b1 + length (drop ?w d) \<le> vector_max"
    using False full cap small b1(4) by (auto simp: readv_capacity_def min_def split: if_splits)
  then obtain b2 where b2: "buf_append (drop ?w d) b1 = Inr b2" "buf_inv b2"
    "buf_content b2 = buf_content b1 @ drop ?w d"
    using mbuf.put_ok [OF b1(2)] by blast
  with False cap b1 show ?thesis
    by (simp add: buf_readFd_def Let_def flip: b1_eq)
qed

text \<open>\<open>readFd\<close> appends exactly the bytes the kernel delivered, whether they fit into the
  vector or spill into the stack buffer, and returns their number.\<close>

lemma buf_readFd_appends:
  assumes "buf_inv b" and "length d \<le> readv_capacity b"
    and "length (buf_data b) + extrabuf_size \<le> vector_max"
  shows "\<exists>b'. buf_readFd (Read_Bytes d) b = Inr (int (length d), None, b') \<and> buf_inv b'
           \<and> buf_content b' = buf_content b @ d"
  using assms by (rule buf_readFd_deliver)

lemma buf_readFd_appends_witness:
  "\<exists>b'. buf_readFd (Read_Bytes ''hello'') (buffer_new 2) = Inr (5, None, b') \<and> buf_content b' = ''hello''"
  using buf_readFd_appends [of "buffer_new 2" "''hello''"] buf_new_inv [of 2] buf_new_content [of 2]
  by (auto simp: readv_capacity_def writableBytes_def buffer_new_def kCheapPrepend_def
      extrabuf_size_def size_arith vector_max_def)

text \<open>A read grows the vector at most by the bytes that did not fit.\<close>

lemma buf_append_length:
  assumes "buf_inv b" and "buf_append d b = Inr b'"
  shows "length (buf_data b') \<le> max (length (buf_data b)) (writerIndex b + length d)"
proof -
  obtain b1 where b1: "buf_ensureWritableBytes (length d) b = Inr b1" "buf_write d b1 = Inr b'"
    using assms(2) by (auto simp: buf_append_def)
  have le: "length (overwrite xs i ys) \<le> max (length xs) (i + length ys)" for xs ys :: "char list" and i
    by (auto simp: overwrite_def)
  have "length (buf_data b') = length (buf_data b1)"
    using b1(2) le by (auto simp: buf_write_def overwrite_def split: if_splits)
  moreover have "length (buf_data b1) \<le> max (length (buf_data b)) (writerIndex b + length d)"
    using b1(1) assms(1) by (auto simp: buf_ensureWritableBytes_def buf_makeSpace_def Let_def overwrite_def vresize_def
        buf_peek_def readableBytes_inv buf_inv_def sz_add_def split: if_splits)
  ultimately show ?thesis by simp
qed

lemma buf_readFd_length:
  assumes "buf_inv b" and "buf_readFd (Read_Bytes d) b = Inr (n, e, b')"
  shows "length (buf_data b') \<le> length (buf_data b) + (length d - writableBytes b)"
proof (cases "length d \<le> writableBytes b")
  case True
  then show ?thesis
    using assms by (auto simp: buf_readFd_def Let_def overwrite_def writableBytes_inv buf_inv_def split: if_splits)
next
  case False
  let ?w = "writableBytes b"
  let ?b = "b\<lparr>buf_data := overwrite (buf_data b) (writerIndex b) (take ?w d), writerIndex := length (buf_data b)\<rparr>"
  have len: "length (buf_data ?b) = length (buf_data b)"
    using assms(1) False by (auto simp: overwrite_def writableBytes_inv buf_inv_def)
  with assms(1) have "buf_inv ?b" by (auto simp: buf_inv_def)
  moreover have "buf_append (drop ?w d) ?b = Inr b'"
    using assms(2) False by (auto simp: buf_readFd_def Let_def split: if_splits)
  ultimately show ?thesis using buf_append_length [of ?b "drop ?w d" b'] len by simp
qed

end
