(* ===== verification/Muduo_Poller.thy ===== *)
theory Muduo_Poller
  imports Prelude "HOL-Library.Sublist"
begin

unbundle bit_operations_syntax

text \<open>
  \<open>Channel\<close>, \<open>Poller\<close> and \<open>EPollPoller\<close> of muduo-mgkl (Channel.hpp/cpp, Poller.hpp/cpp,
  EPollPoller.hpp/cpp, DefaultPoller.cpp). A reactor is the part of the memory that one event
  loop owns: the channel objects, the poller's map from descriptors to channels, the size of
  its event vector, and the \<open>epoll_ctl\<close> calls it has made so far. The kernel is not
  modelled; \<open>interest\<close> replays the calls the way epoll documents them and is only used in
  statements.
\<close>

section \<open>Event masks\<close>

type_synonym mask = "32 word"

definition EPOLLIN :: mask where "EPOLLIN = 1"
definition EPOLLPRI :: mask where "EPOLLPRI = 2"
definition EPOLLOUT :: mask where "EPOLLOUT = 4"
definition EPOLLERR :: mask where "EPOLLERR = 8"
definition EPOLLHUP :: mask where "EPOLLHUP = 16"

definition kNoneEvent :: mask where "kNoneEvent = 0"
definition kReadEvent :: mask where "kReadEvent = EPOLLIN OR EPOLLPRI"
definition kWriteEvent :: mask where "kWriteEvent = EPOLLOUT"

lemmas mask_defs = EPOLLIN_def EPOLLPRI_def EPOLLOUT_def EPOLLERR_def EPOLLHUP_def
  kNoneEvent_def kReadEvent_def kWriteEvent_def

definition kNew :: int where "kNew = -1"
definition kAdded :: int where "kAdded = 1"
definition kDeleted :: int where "kDeleted = 2"

lemmas index_defs = kNew_def kAdded_def kDeleted_def

section \<open>Channels\<close>

type_synonym chan_id = nat

record channel =
  ch_fd :: int
  ch_events :: mask
  ch_revents :: mask
  ch_index :: int
  ch_tied :: bool
  has_readCallback :: bool
  has_writeCallback :: bool
  has_closeCallback :: bool
  has_errorCallback :: bool

definition Channel_new :: "int \<Rightarrow> channel" where
  "Channel_new fd = \<lparr>ch_fd = fd, ch_events = 0, ch_revents = 0, ch_index = -1, ch_tied = False,
     has_readCallback = False, has_writeCallback = False,
     has_closeCallback = False, has_errorCallback = False\<rparr>"

definition tie :: "channel \<Rightarrow> channel" where
  "tie ch = ch\<lparr>ch_tied := True\<rparr>"

lemma tie_sel [simp]:
  "ch_fd (tie ch) = ch_fd ch" "ch_events (tie ch) = ch_events ch" "ch_revents (tie ch) = ch_revents ch"
  "ch_index (tie ch) = ch_index ch" "ch_tied (tie ch)"
  by (simp_all add: tie_def)

definition isNoneEvent :: "channel \<Rightarrow> bool" where
  "isNoneEvent ch \<longleftrightarrow> ch_events ch = kNoneEvent"

definition isWriting :: "channel \<Rightarrow> bool" where
  "isWriting ch \<longleftrightarrow> ch_events ch AND kWriteEvent \<noteq> 0"

definition isReading :: "channel \<Rightarrow> bool" where
  "isReading ch \<longleftrightarrow> ch_events ch AND kReadEvent \<noteq> 0"

text \<open>The callbacks an event makes the channel call, in the order of the calls.\<close>

datatype callback = Close_Callback | Error_Callback | Read_Callback | Write_Callback

definition handleEventWithGuard :: "channel \<Rightarrow> callback list" where
  "handleEventWithGuard ch =
     (if ch_revents ch AND EPOLLHUP \<noteq> 0 \<and> \<not> ch_revents ch AND EPOLLIN \<noteq> 0
      then (if has_closeCallback ch then [Close_Callback] else []) else [])
   @ (if ch_revents ch AND EPOLLERR \<noteq> 0
      then (if has_errorCallback ch then [Error_Callback] else []) else [])
   @ (if ch_revents ch AND (EPOLLIN OR EPOLLPRI) \<noteq> 0
      then (if has_readCallback ch then [Read_Callback] else []) else [])
   @ (if ch_revents ch AND EPOLLOUT \<noteq> 0
      then (if has_writeCallback ch then [Write_Callback] else []) else [])"

text \<open>\<open>alive\<close> says whether \<open>tie_.lock()\<close> still finds the owner of the channel.\<close>

definition handleEvent :: "bool \<Rightarrow> channel \<Rightarrow> callback list" where
  "handleEvent alive ch =
     (if ch_tied ch then (if alive then handleEventWithGuard ch else [])
      else handleEventWithGuard ch)"

section \<open>The reactor\<close>

datatype ctl_op = EPOLL_CTL_ADD | EPOLL_CTL_MOD | EPOLL_CTL_DEL

record ctl_call =
  ctl_op :: ctl_op
  ctl_fd :: int
  ctl_events :: mask
  ctl_ptr :: chan_id

record reactor =
  r_chan :: "chan_id \<Rightarrow> channel"
  r_channels :: "int \<rightharpoonup> chan_id"
  r_evsize :: nat
  r_ctl :: "ctl_call list"

definition kInitEventListSize :: nat where
  "kInitEventListSize = 16"

definition reactor_new :: "(chan_id \<Rightarrow> int) \<Rightarrow> reactor" where
  "reactor_new fds = \<lparr>r_chan = (\<lambda>c. Channel_new (fds c)), r_channels = Map.empty,
     r_evsize = kInitEventListSize, r_ctl = []\<rparr>"

abbreviation upd_chan :: "chan_id \<Rightarrow> (channel \<Rightarrow> channel) \<Rightarrow> 'a reactor_scheme \<Rightarrow> 'a reactor_scheme" where
  "upd_chan c f r \<equiv> r\<lparr>r_chan := (r_chan r)(c := f (r_chan r c))\<rparr>"

definition poller_update :: "ctl_op \<Rightarrow> chan_id \<Rightarrow> 'a reactor_scheme \<Rightarrow> 'a reactor_scheme" where
  "poller_update op c r =
     r\<lparr>r_ctl := r_ctl r @ [\<lparr>ctl_op = op, ctl_fd = ch_fd (r_chan r c),
                             ctl_events = ch_events (r_chan r c), ctl_ptr = c\<rparr>]\<rparr>"

definition poller_updateChannel :: "chan_id \<Rightarrow> 'a reactor_scheme \<Rightarrow> 'a reactor_scheme" where
  "poller_updateChannel c r =
     (let index = ch_index (r_chan r c); fd = ch_fd (r_chan r c)
      in if index = kNew \<or> index = kDeleted
         then (let r1 = (if index = kNew then r\<lparr>r_channels := (r_channels r)(fd \<mapsto> c)\<rparr> else r)
               in poller_update EPOLL_CTL_ADD c (upd_chan c (ch_index_update (\<lambda>_. kAdded)) r1))
         else if isNoneEvent (r_chan r c)
         then upd_chan c (ch_index_update (\<lambda>_. kDeleted)) (poller_update EPOLL_CTL_DEL c r)
         else poller_update EPOLL_CTL_MOD c r)"

definition poller_removeChannel :: "chan_id \<Rightarrow> 'a reactor_scheme \<Rightarrow> 'a reactor_scheme" where
  "poller_removeChannel c r =
     (let fd = ch_fd (r_chan r c);
          r1 = r\<lparr>r_channels := (r_channels r)(fd := None)\<rparr>;
          r2 = (if ch_index (r_chan r c) = kAdded then poller_update EPOLL_CTL_DEL c r1 else r1)
      in upd_chan c (ch_index_update (\<lambda>_. kNew)) r2)"

definition poller_hasChannel :: "chan_id \<Rightarrow> 'a reactor_scheme \<Rightarrow> bool" where
  "poller_hasChannel c r \<longleftrightarrow> r_channels r (ch_fd (r_chan r c)) = Some c"

text \<open>The answer of \<open>epoll_wait\<close>: the ready channels with their events, or an error number.\<close>

datatype wait_result = Wait_Error int | Ready "(chan_id \<times> mask) list"

fun fillActiveChannels ::
  "(chan_id \<times> mask) list \<Rightarrow> chan_id list \<times> 'a reactor_scheme \<Rightarrow> chan_id list \<times> 'a reactor_scheme" where
  "fillActiveChannels [] s = s"
| "fillActiveChannels ((c, ev) # es) (active, r) =
     fillActiveChannels es (active @ [c], upd_chan c (ch_revents_update (\<lambda>_. ev)) r)"

definition poller_poll ::
  "wait_result \<Rightarrow> chan_id list \<Rightarrow> 'a reactor_scheme \<Rightarrow> chan_id list \<times> 'a reactor_scheme" where
  "poller_poll w active r =
     (case w of
        Wait_Error e \<Rightarrow> (active, r)
      | Ready es \<Rightarrow>
          if 0 < length es
          then (let (active', r') = fillActiveChannels es (active, r)
                in (active', if length es = r_evsize r' then r'\<lparr>r_evsize := r_evsize r' * 2\<rparr> else r'))
          else (active, r))"

text \<open>\<open>newDefaultPoller\<close>: no poller when the variable \<open>MODUO_USE_POLL\<close> is set.\<close>

definition newDefaultPoller :: "bool \<Rightarrow> (chan_id \<Rightarrow> int) \<Rightarrow> reactor option" where
  "newDefaultPoller use_poll fds = (if use_poll then None else Some (reactor_new fds))"

section \<open>Channel operations that reach the poller\<close>

definition channel_update :: "chan_id \<Rightarrow> 'a reactor_scheme \<Rightarrow> 'a reactor_scheme" where
  "channel_update c r = poller_updateChannel c r"

definition channel_remove :: "chan_id \<Rightarrow> 'a reactor_scheme \<Rightarrow> 'a reactor_scheme" where
  "channel_remove c r = poller_removeChannel c r"

definition enableReading :: "chan_id \<Rightarrow> 'a reactor_scheme \<Rightarrow> 'a reactor_scheme" where
  "enableReading c r = channel_update c (upd_chan c (ch_events_update (\<lambda>e. e OR kReadEvent)) r)"

definition disableReading :: "chan_id \<Rightarrow> 'a reactor_scheme \<Rightarrow> 'a reactor_scheme" where
  "disableReading c r = channel_update c (upd_chan c (ch_events_update (\<lambda>e. e AND NOT kReadEvent)) r)"

definition enableWriting :: "chan_id \<Rightarrow> 'a reactor_scheme \<Rightarrow> 'a reactor_scheme" where
  "enableWriting c r = channel_update c (upd_chan c (ch_events_update (\<lambda>e. e OR kWriteEvent)) r)"

definition disableWriting :: "chan_id \<Rightarrow> 'a reactor_scheme \<Rightarrow> 'a reactor_scheme" where
  "disableWriting c r = channel_update c (upd_chan c (ch_events_update (\<lambda>e. e AND NOT kWriteEvent)) r)"

definition disableAll :: "chan_id \<Rightarrow> 'a reactor_scheme \<Rightarrow> 'a reactor_scheme" where
  "disableAll c r = channel_update c (upd_chan c (ch_events_update (\<lambda>_. kNoneEvent)) r)"

datatype chan_op =
  Enable_Reading chan_id | Disable_Reading chan_id | Enable_Writing chan_id
| Disable_Writing chan_id | Disable_All chan_id | Remove chan_id

fun op_chan :: "chan_op \<Rightarrow> chan_id" where
  "op_chan (Enable_Reading c) = c"
| "op_chan (Disable_Reading c) = c"
| "op_chan (Enable_Writing c) = c"
| "op_chan (Disable_Writing c) = c"
| "op_chan (Disable_All c) = c"
| "op_chan (Remove c) = c"

fun chan_step :: "chan_op \<Rightarrow> 'a reactor_scheme \<Rightarrow> 'a reactor_scheme" where
  "chan_step (Enable_Reading c) r = enableReading c r"
| "chan_step (Disable_Reading c) r = disableReading c r"
| "chan_step (Enable_Writing c) r = enableWriting c r"
| "chan_step (Disable_Writing c) r = disableWriting c r"
| "chan_step (Disable_All c) r = disableAll c r"
| "chan_step (Remove c) r = channel_remove c r"

section \<open>What epoll documents\<close>

text \<open>
  \<open>EPOLL_CTL_ADD\<close> of a registered descriptor fails with \<open>EEXIST\<close>, \<open>EPOLL_CTL_MOD\<close> and
  \<open>EPOLL_CTL_DEL\<close> of an unregistered one fail with \<open>ENOENT\<close>; a failed call changes nothing.
\<close>

type_synonym interest_set = "int \<rightharpoonup> mask \<times> chan_id"

definition ctl_legal :: "interest_set \<Rightarrow> ctl_call \<Rightarrow> bool" where
  "ctl_legal m x \<longleftrightarrow> (case ctl_op x of EPOLL_CTL_ADD \<Rightarrow> m (ctl_fd x) = None | _ \<Rightarrow> m (ctl_fd x) \<noteq> None)"

definition ctl_apply :: "ctl_call \<Rightarrow> interest_set \<Rightarrow> interest_set" where
  "ctl_apply x m =
     (if ctl_legal m x
      then (case ctl_op x of EPOLL_CTL_DEL \<Rightarrow> m(ctl_fd x := None)
            | _ \<Rightarrow> m(ctl_fd x \<mapsto> (ctl_events x, ctl_ptr x)))
      else m)"

definition interest :: "ctl_call list \<Rightarrow> interest_set" where
  "interest log = fold ctl_apply log Map.empty"

fun log_legal :: "interest_set \<Rightarrow> ctl_call list \<Rightarrow> bool" where
  "log_legal m [] = True"
| "log_legal m (x # xs) = (ctl_legal m x \<and> log_legal (ctl_apply x m) xs)"

lemma interest_append: "interest (log @ xs) = fold ctl_apply xs (interest log)"
  by (simp add: interest_def)

lemma interest_snoc [simp]: "interest (log @ [x]) = ctl_apply x (interest log)"
  by (simp add: interest_def)

lemma log_legal_snoc [simp]:
  "log_legal m (log @ [x]) \<longleftrightarrow> log_legal m log \<and> ctl_legal (fold ctl_apply log m) x"
  by (induction log arbitrary: m) auto

section \<open>The agreement between poller and kernel\<close>

text \<open>
  \<open>S\<close> is the set of live channels of the loop, with one descriptor each. A channel is
  registered in the kernel, with its own events, exactly while its index is \<open>kAdded\<close>, and it
  is in the poller's map exactly while its index is not \<open>kNew\<close>.
\<close>

definition chan_agrees :: "interest_set \<Rightarrow> (int \<rightharpoonup> chan_id) \<Rightarrow> chan_id \<Rightarrow> channel \<Rightarrow> bool" where
  "chan_agrees m channels c ch \<longleftrightarrow>
     ch_index ch \<in> {kNew, kAdded, kDeleted} \<and>
     m (ch_fd ch) = (if ch_index ch = kAdded then Some (ch_events ch, c) else None) \<and>
     channels (ch_fd ch) = (if ch_index ch = kNew then None else Some c)"

definition poller_inv :: "chan_id set \<Rightarrow> 'a reactor_scheme \<Rightarrow> bool" where
  "poller_inv S r \<longleftrightarrow>
     inj_on (\<lambda>c. ch_fd (r_chan r c)) S \<and> log_legal Map.empty (r_ctl r) \<and>
     (\<forall>c\<in>S. chan_agrees (interest (r_ctl r)) (r_channels r) c (r_chan r c))"

lemma poller_inv_new: "inj_on fds S \<Longrightarrow> poller_inv S (reactor_new fds)"
  by (auto simp: poller_inv_def chan_agrees_def reactor_new_def Channel_new_def interest_def index_defs)

text \<open>An operation on one channel touches nothing that belongs to another descriptor.\<close>

lemma poller_inv_local:
  assumes inv: "poller_inv S r" and c: "c \<in> S"
    and chan: "\<And>d. d \<noteq> c \<Longrightarrow> r_chan r' d = r_chan r d"
    and fd: "ch_fd (r_chan r' c) = ch_fd (r_chan r c)"
    and frame: "\<And>fd. fd \<noteq> ch_fd (r_chan r c) \<Longrightarrow>
        interest (r_ctl r') fd = interest (r_ctl r) fd \<and> r_channels r' fd = r_channels r fd"
    and own: "chan_agrees (interest (r_ctl r')) (r_channels r') c (r_chan r' c)"
    and legal: "log_legal Map.empty (r_ctl r')"
  shows "poller_inv S r'"
proof -
  have inj: "inj_on (\<lambda>c. ch_fd (r_chan r c)) S" using inv by (simp add: poller_inv_def)
  have same: "(\<lambda>d. ch_fd (r_chan r' d)) = (\<lambda>d. ch_fd (r_chan r d))"
  proof
    show "ch_fd (r_chan r' d) = ch_fd (r_chan r d)" for d
      using fd chan by (cases "d = c") auto
  qed
  have "chan_agrees (interest (r_ctl r')) (r_channels r') d (r_chan r' d)" if d: "d \<in> S" for d
  proof (cases "d = c")
    case True
    with own show ?thesis by simp
  next
    case False
    with inj c d have "ch_fd (r_chan r d) \<noteq> ch_fd (r_chan r c)" by (auto simp: inj_on_def)
    moreover have "chan_agrees (interest (r_ctl r)) (r_channels r) d (r_chan r d)"
      using inv d by (simp add: poller_inv_def)
    ultimately show ?thesis using False frame by (simp add: chan_agrees_def chan)
  qed
  with inj legal show ?thesis by (simp add: poller_inv_def same)
qed

lemma poller_inv_at:
  assumes "poller_inv S r" "c \<in> S"
  shows "chan_agrees (interest (r_ctl r)) (r_channels r) c (r_chan r c)" "log_legal Map.empty (r_ctl r)"
  using assms by (auto simp: poller_inv_def)

text \<open>
  Every caller of \<open>updateChannel\<close> has just changed the events of the channel, so the
  preservation lemma starts from the state before that change.
\<close>

lemma poller_updateChannel_inv:
  assumes inv: "poller_inv S r" and c: "c \<in> S"
  shows "poller_inv S (poller_updateChannel c (upd_chan c (ch_events_update f) r))"
proof -
  let ?r = "poller_updateChannel c (upd_chan c (ch_events_update f) r)"
  note at = poller_inv_at [OF inv c]
  note eval = poller_updateChannel_def poller_update_def Let_def index_defs isNoneEvent_def
    ctl_apply_def ctl_legal_def chan_agrees_def
  from at(1) consider (new) "ch_index (r_chan r c) = kNew" | (added) "ch_index (r_chan r c) = kAdded"
    | (deleted) "ch_index (r_chan r c) = kDeleted"
    by (auto simp: chan_agrees_def)
  then show ?thesis
  proof cases
    case new
    show ?thesis
      by (rule poller_inv_local [OF inv c]) (use at new in \<open>auto simp: eval interest_def [symmetric]\<close>)
  next
    case added
    show ?thesis
      by (rule poller_inv_local [OF inv c]) (use at added in \<open>auto simp: eval interest_def [symmetric]\<close>)
  next
    case deleted
    show ?thesis
      by (rule poller_inv_local [OF inv c]) (use at deleted in \<open>auto simp: eval interest_def [symmetric]\<close>)
  qed
qed

lemma poller_removeChannel_inv:
  assumes inv: "poller_inv S r" and c: "c \<in> S"
  shows "poller_inv S (poller_removeChannel c r)"
  by (rule poller_inv_local [OF inv c])
    (use poller_inv_at [OF inv c] in
      \<open>auto simp: poller_removeChannel_def poller_update_def Let_def index_defs
        ctl_apply_def ctl_legal_def chan_agrees_def interest_def [symmetric]\<close>)

lemma chan_step_inv: "poller_inv S r \<Longrightarrow> op_chan x \<in> S \<Longrightarrow> poller_inv S (chan_step x r)"
  by (cases x) (auto simp: enableReading_def disableReading_def enableWriting_def disableWriting_def
      disableAll_def channel_update_def channel_remove_def
      intro: poller_updateChannel_inv poller_removeChannel_inv)


lemma chan_steps_inv:
  "poller_inv S r \<Longrightarrow> op_chan ` set ops \<subseteq> S \<Longrightarrow> poller_inv S (fold chan_step ops r)"
  by (induction ops arbitrary: r) (auto intro: chan_step_inv)

section \<open>Masks\<close>

lemma mask_set_and: "(a OR b) AND b = (b :: mask)"
  by (auto simp: bit_eq_iff bit_simps)

lemma mask_clear_and: "(a AND NOT b) AND b = (0 :: mask)"
  by (auto simp: bit_eq_iff bit_simps)

lemma mask_set_other: "b AND c = 0 \<Longrightarrow> (a OR b) AND c = a AND (c :: mask)"
  by (auto simp: bit_eq_iff bit_simps)

lemma mask_clear_other: "b AND c = 0 \<Longrightarrow> (a AND NOT b) AND c = a AND (c :: mask)"
  by (auto simp: bit_eq_iff bit_simps)

lemma isWriting_enabled [simp]: "(e OR kWriteEvent) AND kWriteEvent \<noteq> 0"
  by (simp add: mask_set_and) (simp add: mask_defs)

lemma isWriting_disabled [simp]: "(e AND NOT kWriteEvent) AND kWriteEvent = 0"
  by (rule mask_clear_and)

lemma isReading_enabled [simp]: "(e OR kReadEvent) AND kReadEvent \<noteq> 0"
  by (simp add: mask_set_and) (simp add: mask_defs)

lemma reading_keeps_writing [simp]: "(e OR kReadEvent) AND kWriteEvent = e AND kWriteEvent"
  by (rule mask_set_other) (simp add: mask_defs)

lemma kWriteEvent_nonzero [simp]: "kWriteEvent \<noteq> 0"
  by (simp add: mask_defs)

lemma isWriting_none [simp]: "kNoneEvent AND kWriteEvent = 0"
  by (simp add: mask_defs)

section \<open>Properties\<close>

text \<open>C9: Whatever the owners of a loop's channels (one descriptor each) do with them, in any
  order, the poller never makes an \<open>epoll_ctl\<close> call that epoll answers with \<open>EEXIST\<close> or
  \<open>ENOENT\<close>; the kernel watches a channel, with the events it asks for, exactly while its index is
  \<open>kAdded\<close>; and \<open>hasChannel\<close> holds exactly while the index is not \<open>kNew\<close>.\<close>
theorem poller_agrees_with_kernel:
  assumes "inj_on fds S" and "op_chan ` set ops \<subseteq> S" and "c \<in> S"
  defines "r \<equiv> fold chan_step ops (reactor_new fds)"
  shows "log_legal Map.empty (r_ctl r)
    \<and> interest (r_ctl r) (ch_fd (r_chan r c)) =
        (if ch_index (r_chan r c) = kAdded then Some (ch_events (r_chan r c), c) else None)
    \<and> (poller_hasChannel c r \<longleftrightarrow> ch_index (r_chan r c) \<noteq> kNew)"
  using poller_inv_at [OF chan_steps_inv [OF poller_inv_new [OF assms(1)] assms(2)] assms(3)]
  by (auto simp: r_def chan_agrees_def poller_hasChannel_def)

theorem poller_agrees_with_kernel_witness:
  "interest (r_ctl (fold chan_step [Enable_Reading 0, Enable_Writing 1, Disable_All 0]
      (reactor_new (\<lambda>c. int c + 5)))) 5 = None"
  using poller_agrees_with_kernel [of "\<lambda>c. int c + 5" "{0, 1}"
      "[Enable_Reading 0, Enable_Writing 1, Disable_All 0]" 0]
  by (simp add: reactor_new_def Channel_new_def enableReading_def enableWriting_def disableAll_def
      channel_update_def poller_updateChannel_def poller_update_def isNoneEvent_def index_defs
      mask_defs inj_on_def Let_def)

text \<open>\<open>disableAll\<close> on a channel the poller has already dropped registers it again with an
  empty event set: the second call finds the index \<open>kDeleted\<close> and issues \<open>EPOLL_CTL_ADD\<close>, after
  which epoll can report errors and hang-ups for a channel that asked for nothing.\<close>

lemma disableAll_twice_registers_again:
  assumes "poller_inv S r" and "c \<in> S" and "ch_index (r_chan r c) = kAdded"
  shows "interest (r_ctl (disableAll c r)) (ch_fd (r_chan r c)) = None
    \<and> interest (r_ctl (disableAll c (disableAll c r))) (ch_fd (r_chan r c)) = Some (kNoneEvent, c)"
  using poller_inv_at [OF assms(1,2)] assms(3)
  by (auto simp: disableAll_def channel_update_def poller_updateChannel_def poller_update_def
      isNoneEvent_def index_defs Let_def ctl_apply_def ctl_legal_def chan_agrees_def interest_append)

lemma disableAll_twice_registers_again_witness:
  "interest (r_ctl (disableAll 0 (disableAll 0 (enableReading 0 (reactor_new (\<lambda>c. 7)))))) 7
     = Some (kNoneEvent, 0)"
proof -
  have "poller_inv {0} (enableReading 0 (reactor_new (\<lambda>c. 7)))"
    using chan_step_inv [OF poller_inv_new [of "\<lambda>c. 7" "{0}"], of "Enable_Reading 0"] by simp
  moreover have "ch_index (r_chan (enableReading 0 (reactor_new (\<lambda>c. 7))) 0) = kAdded"
    "ch_fd (r_chan (enableReading 0 (reactor_new (\<lambda>c. 7))) 0) = 7"
    by (simp_all add: enableReading_def channel_update_def poller_updateChannel_def
        poller_update_def reactor_new_def Channel_new_def index_defs Let_def)
  ultimately show ?thesis
    using disableAll_twice_registers_again [of "{0}" "enableReading 0 (reactor_new (\<lambda>c. 7))" 0]
    by simp
qed

section \<open>Dispatch\<close>

lemma handleEvent_untied: "\<not> ch_tied ch \<Longrightarrow> handleEvent alive ch = handleEventWithGuard ch"
  by (simp add: handleEvent_def)

lemma handleEvent_expired: "ch_tied ch \<Longrightarrow> handleEvent False ch = []"
  by (simp add: handleEvent_def)

text \<open>Dispatch calls each callback at most once, in the order close, error, read, write, and
  calls the close callback only when the peer has hung up with nothing left to read.\<close>

lemma handleEvent_dispatch:
  "subseq (handleEvent alive ch) [Close_Callback, Error_Callback, Read_Callback, Write_Callback]
   \<and> (Close_Callback \<in> set (handleEvent alive ch) \<longleftrightarrow>
        (ch_tied ch \<longrightarrow> alive) \<and> has_closeCallback ch \<and>
        ch_revents ch AND EPOLLHUP \<noteq> 0 \<and> ch_revents ch AND EPOLLIN = 0)"
  by (auto simp: handleEvent_def handleEventWithGuard_def)

lemma handleEvent_dispatch_witness:
  "subseq (handleEvent True ((Channel_new 3)\<lparr>ch_revents := 16, has_closeCallback := True\<rparr>))
     [Close_Callback, Error_Callback, Read_Callback, Write_Callback]
   \<and> Close_Callback \<in> set (handleEvent True ((Channel_new 3)\<lparr>ch_revents := 16, has_closeCallback := True\<rparr>))"
  using handleEvent_dispatch [of True "(Channel_new 3)\<lparr>ch_revents := 16, has_closeCallback := True\<rparr>"]
  by (simp add: Channel_new_def mask_defs)

lemma fillActive_spec:
  "fst (fillActiveChannels es (active, r)) = active @ map fst es"
  "r_ctl (snd (fillActiveChannels es (active, r))) = r_ctl r"
  "r_channels (snd (fillActiveChannels es (active, r))) = r_channels r"
  "r_evsize (snd (fillActiveChannels es (active, r))) = r_evsize r"
  by (induction es arbitrary: active r) auto

end
