(* ===== verification/Muduo_EventLoop.thy ===== *)
theory Muduo_EventLoop
  imports Muduo_Poller
begin

text \<open>
  \<open>EventLoop\<close> of muduo-mgkl (EventLoop.hpp/cpp, CurrentThread.hpp/cpp), in two views. The
  first follows the code operation by operation on the loop's state, an extension of the
  reactor, with the meaning of a functor and of a channel callback as arguments. The second is
  the interleaving of the loop thread with threads that call \<open>queueInLoop\<close> and \<open>quit\<close>, one
  step per shared access, for the questions a single thread cannot ask.
\<close>

section \<open>State and operations\<close>

definition kPollTimeMs :: nat where
  "kPollTimeMs = 10 * 10 ^ 4"

record 'f event_loop = reactor +
  l_looping :: bool
  l_quit :: bool
  l_threadId :: int
  l_wakeup :: chan_id
  l_eventfd :: nat
  l_calling :: bool
  l_pending :: "'f list"

definition isInLoopThread :: "int \<Rightarrow> ('f, 'a) event_loop_scheme \<Rightarrow> bool" where
  "isInLoopThread tid l \<longleftrightarrow> l_threadId l = tid"

text \<open>Writing to the eventfd adds to its counter; reading takes the counter back to zero.\<close>

definition wakeup :: "('f, 'a) event_loop_scheme \<Rightarrow> ('f, 'a) event_loop_scheme" where
  "wakeup l = l\<lparr>l_eventfd := Suc (l_eventfd l)\<rparr>"

definition loop_handleRead :: "('f, 'a) event_loop_scheme \<Rightarrow> ('f, 'a) event_loop_scheme" where
  "loop_handleRead l = l\<lparr>l_eventfd := 0\<rparr>"

definition queueInLoop :: "int \<Rightarrow> 'f \<Rightarrow> ('f, 'a) event_loop_scheme \<Rightarrow> ('f, 'a) event_loop_scheme" where
  "queueInLoop tid cb l =
     (let l1 = l\<lparr>l_pending := l_pending l @ [cb]\<rparr>
      in if \<not> isInLoopThread tid l1 \<or> l_calling l1 then wakeup l1 else l1)"

definition runInLoop ::
  "('f \<Rightarrow> ('f, 'a) event_loop_scheme \<Rightarrow> ('f, 'a) event_loop_scheme) \<Rightarrow> int \<Rightarrow> 'f \<Rightarrow>
   ('f, 'a) event_loop_scheme \<Rightarrow> ('f, 'a) event_loop_scheme" where
  "runInLoop call tid cb l = (if isInLoopThread tid l then call cb l else queueInLoop tid cb l)"

definition loop_quit :: "int \<Rightarrow> ('f, 'a) event_loop_scheme \<Rightarrow> ('f, 'a) event_loop_scheme" where
  "loop_quit tid l =
     (let l1 = l\<lparr>l_quit := True\<rparr> in if \<not> isInLoopThread tid l1 then wakeup l1 else l1)"

definition doPendingFunctors ::
  "('f \<Rightarrow> ('f, 'a) event_loop_scheme \<Rightarrow> ('f, 'a) event_loop_scheme) \<Rightarrow>
   ('f, 'a) event_loop_scheme \<Rightarrow> ('f, 'a) event_loop_scheme" where
  "doPendingFunctors call l =
     (let l1 = l\<lparr>l_calling := True\<rparr>; functors = l_pending l1; l2 = l1\<lparr>l_pending := []\<rparr>
      in (fold call functors l2)\<lparr>l_calling := False\<rparr>)"

text \<open>
  One turn of \<open>loop()\<close>: poll, hand the events of each active channel to it, run the
  pending functors. \<open>handle c k\<close> is the callback \<open>k\<close> of channel \<open>c\<close>, \<open>alive c\<close> the
  answer of its \<open>tie_.lock()\<close>.
\<close>

definition loop_turn ::
  "('f \<Rightarrow> ('f, 'a) event_loop_scheme \<Rightarrow> ('f, 'a) event_loop_scheme) \<Rightarrow>
   (chan_id \<Rightarrow> callback \<Rightarrow> ('f, 'a) event_loop_scheme \<Rightarrow> ('f, 'a) event_loop_scheme) \<Rightarrow>
   (chan_id \<Rightarrow> bool) \<Rightarrow> wait_result \<Rightarrow> ('f, 'a) event_loop_scheme \<Rightarrow> ('f, 'a) event_loop_scheme" where
  "loop_turn call handle alive w l =
     (let (active, l1) = poller_poll w [] l;
          l2 = fold (\<lambda>c l. fold (handle c) (handleEvent (alive c) (r_chan l c)) l) active l1
      in doPendingFunctors call l2)"

fun loop_while ::
  "('f \<Rightarrow> ('f, 'a) event_loop_scheme \<Rightarrow> ('f, 'a) event_loop_scheme) \<Rightarrow>
   (chan_id \<Rightarrow> callback \<Rightarrow> ('f, 'a) event_loop_scheme \<Rightarrow> ('f, 'a) event_loop_scheme) \<Rightarrow>
   (chan_id \<Rightarrow> bool) \<Rightarrow> wait_result list \<Rightarrow> ('f, 'a) event_loop_scheme \<Rightarrow>
   ('f, 'a) event_loop_scheme option" where
  "loop_while call handle alive ws l =
     (if l_quit l then Some (l\<lparr>l_looping := False\<rparr>)
      else case ws of [] \<Rightarrow> None
           | w # ws' \<Rightarrow> loop_while call handle alive ws' (loop_turn call handle alive w l))"

text \<open>
  \<open>loop()\<close> over the answers \<open>ws\<close> of \<open>epoll_wait\<close>; \<open>None\<close> when it still waits for an answer
  after the last of them.
\<close>

definition loop_run ::
  "('f \<Rightarrow> ('f, 'a) event_loop_scheme \<Rightarrow> ('f, 'a) event_loop_scheme) \<Rightarrow>
   (chan_id \<Rightarrow> callback \<Rightarrow> ('f, 'a) event_loop_scheme \<Rightarrow> ('f, 'a) event_loop_scheme) \<Rightarrow>
   (chan_id \<Rightarrow> bool) \<Rightarrow> wait_result list \<Rightarrow> ('f, 'a) event_loop_scheme \<Rightarrow>
   ('f, 'a) event_loop_scheme option" where
  "loop_run call handle alive ws l =
     loop_while call handle alive ws (l\<lparr>l_looping := True, l_quit := False\<rparr>)"

declare loop_while.simps [simp del]

text \<open>The constructor registers the wake-up channel for reading, the destructor drops it.\<close>

definition EventLoop_new :: "int \<Rightarrow> chan_id \<Rightarrow> (chan_id \<Rightarrow> int) \<Rightarrow> 'f event_loop" where
  "EventLoop_new tid w fds =
     enableReading w
       (upd_chan w (has_readCallback_update (\<lambda>_. True))
         \<lparr>r_chan = (\<lambda>c. Channel_new (fds c)), r_channels = Map.empty,
          r_evsize = kInitEventListSize, r_ctl = [],
          l_looping = False, l_quit = False, l_threadId = tid, l_wakeup = w, l_eventfd = 0,
          l_calling = False, l_pending = []\<rparr>)"

definition EventLoop_destroy :: "('f, 'a) event_loop_scheme \<Rightarrow> ('f, 'a) event_loop_scheme" where
  "EventLoop_destroy l = channel_remove (l_wakeup l) (disableAll (l_wakeup l) l)"

section \<open>The pending functors in one thread\<close>

text \<open>
  A functor whose only effect on the queue is to queue the functors \<open>spawn f\<close> from the loop
  thread, as the callbacks of a connection do.
\<close>

definition spawning ::
  "('f \<Rightarrow> 'f list) \<Rightarrow> int \<Rightarrow> 'f \<Rightarrow> ('f, 'a) event_loop_scheme \<Rightarrow> ('f, 'a) event_loop_scheme" where
  "spawning spawn tid f l = fold (queueInLoop tid) (spawn f) l"

lemma queueInLoop_fields [simp]:
  "l_threadId (queueInLoop tid f l) = l_threadId l"
  "l_calling (queueInLoop tid f l) = l_calling l"
  "l_pending (queueInLoop tid f l) = l_pending l @ [f]"
  by (auto simp: queueInLoop_def wakeup_def Let_def)

lemma queueInLoop_eventfd:
  "l_eventfd (queueInLoop tid f l) =
     (if l_threadId l \<noteq> tid \<or> l_calling l then Suc (l_eventfd l) else l_eventfd l)"
  by (auto simp: queueInLoop_def wakeup_def isInLoopThread_def Let_def)

lemma fold_queueInLoop:
  "l_pending (fold (queueInLoop tid) fs l) = l_pending l @ fs"
  "l_calling (fold (queueInLoop tid) fs l) = l_calling l"
  "l_threadId (fold (queueInLoop tid) fs l) = l_threadId l"
  "l_calling l \<Longrightarrow> l_eventfd (fold (queueInLoop tid) fs l) = l_eventfd l + length fs"
  by (induction fs arbitrary: l) (auto simp: queueInLoop_eventfd)

lemma fold_spawning:
  "l_pending (fold (spawning spawn tid) fs l) = l_pending l @ concat (map spawn fs)"
  "l_calling (fold (spawning spawn tid) fs l) = l_calling l"
  "l_calling l \<Longrightarrow>
     l_eventfd (fold (spawning spawn tid) fs l) = l_eventfd l + length (concat (map spawn fs))"
  by (induction fs arbitrary: l) (auto simp: spawning_def fold_queueInLoop)

text \<open>One call of \<open>doPendingFunctors\<close> runs exactly the functors that were queued before it,
  in order; what they queue meanwhile is left, in order, for the next turn, and the eventfd has been
  written once for each of them, so the next poll returns at once.\<close>

lemma doPendingFunctors_runs_batch:
  "l_pending (doPendingFunctors (spawning spawn tid) l) = concat (map spawn (l_pending l))
   \<and> l_eventfd (doPendingFunctors (spawning spawn tid) l) =
       l_eventfd l + length (concat (map spawn (l_pending l)))
   \<and> \<not> l_calling (doPendingFunctors (spawning spawn tid) l)"
  by (simp add: doPendingFunctors_def Let_def fold_spawning)

lemma doPendingFunctors_order:
  "doPendingFunctors call l =
     (fold call (l_pending l) (l\<lparr>l_calling := True, l_pending := []\<rparr>))\<lparr>l_calling := False\<rparr>"
  by (simp add: doPendingFunctors_def Let_def)

text \<open>
  Queued from the loop's own thread outside \<open>doPendingFunctors\<close>, a functor does not wake the
  loop: before \<open>loop()\<close> has begun it waits for the first event or for the poll timeout, which
  is 100 seconds.
\<close>

lemma queueInLoop_own_thread_silent:
  "l_threadId l = tid \<Longrightarrow> \<not> l_calling l \<Longrightarrow> l_eventfd (queueInLoop tid f l) = l_eventfd l"
  by (simp add: queueInLoop_eventfd)

lemma kPollTimeMs_seconds: "kPollTimeMs = 100 * 1000"
  by (simp add: kPollTimeMs_def)

section \<open>Interleaving with other threads\<close>

text \<open>
  The program counter of the loop thread: before \<open>loop()\<close>, at the test of \<open>quit_\<close>, inside
  \<open>epoll_wait\<close>, handing out events, at the two statements that open \<open>doPendingFunctors\<close>,
  running a batch, returned. Another thread is idle or between the two halves of
  \<open>queueInLoop\<close> or of \<open>quit\<close>: the shared write and the wake-up. The loop's own thread also queues and quits before
  \<open>loop()\<close>, without a wake-up. \<open>s_silent\<close> records how many of the queued functors came that way, \<open>s_batches\<close> how often
  \<open>doPendingFunctors\<close> has taken the queue.
\<close>

datatype 'f loop_pc = At_Start | At_Test | In_Poll | Handling | At_Calling | At_Swap
  | Running "'f list" | Returned

datatype thread_pc = Idle | Pushed | Quit_Set

record 'f shared =
  s_pc :: "'f loop_pc"
  s_quit :: bool
  s_calling :: bool
  s_pending :: "'f list"
  s_eventfd :: nat
  s_threads :: "nat \<Rightarrow> thread_pc"
  s_quits :: nat
  s_silent :: nat
  s_batches :: nat

inductive loop_step :: "'f shared \<Rightarrow> 'f shared \<Rightarrow> bool" where
  start_queues: "s_pc s = At_Start \<Longrightarrow>
    loop_step s (s\<lparr>s_pending := s_pending s @ [f], s_silent := Suc (s_silent s)\<rparr>)"
| start_quits: "s_pc s = At_Start \<Longrightarrow> loop_step s (s\<lparr>s_quit := True, s_quits := Suc (s_quits s)\<rparr>)"
| enter: "s_pc s = At_Start \<Longrightarrow> loop_step s (s\<lparr>s_pc := At_Test, s_quit := False\<rparr>)"
| leave: "s_pc s = At_Test \<Longrightarrow> s_quit s \<Longrightarrow> loop_step s (s\<lparr>s_pc := Returned\<rparr>)"
| go_poll: "s_pc s = At_Test \<Longrightarrow> \<not> s_quit s \<Longrightarrow> loop_step s (s\<lparr>s_pc := In_Poll\<rparr>)"
| woken: "s_pc s = In_Poll \<Longrightarrow> 0 < s_eventfd s \<Longrightarrow>
    loop_step s (s\<lparr>s_pc := Handling, s_eventfd := 0\<rparr>)"
| other_event: "s_pc s = In_Poll \<Longrightarrow> loop_step s (s\<lparr>s_pc := Handling\<rparr>)"
| handler_queues: "s_pc s = Handling \<Longrightarrow> loop_step s (s\<lparr>s_pending := s_pending s @ [f]\<rparr>)"
| handler_quits: "s_pc s = Handling \<Longrightarrow> loop_step s (s\<lparr>s_quit := True, s_quits := Suc (s_quits s)\<rparr>)"
| handled: "s_pc s = Handling \<Longrightarrow> loop_step s (s\<lparr>s_pc := At_Calling\<rparr>)"
| calling: "s_pc s = At_Calling \<Longrightarrow> loop_step s (s\<lparr>s_pc := At_Swap, s_calling := True\<rparr>)"
| swap: "s_pc s = At_Swap \<Longrightarrow> loop_step s (s\<lparr>s_pc := Running (s_pending s), s_pending := [],
    s_silent := 0, s_batches := Suc (s_batches s)\<rparr>)"
| run_queues: "s_pc s = Running (f # fs) \<Longrightarrow>
    loop_step s (s\<lparr>s_pending := s_pending s @ [g], s_eventfd := Suc (s_eventfd s)\<rparr>)"
| run_quits: "s_pc s = Running (f # fs) \<Longrightarrow>
    loop_step s (s\<lparr>s_quit := True, s_quits := Suc (s_quits s)\<rparr>)"
| run_next: "s_pc s = Running (f # fs) \<Longrightarrow> loop_step s (s\<lparr>s_pc := Running fs\<rparr>)"
| run_done: "s_pc s = Running [] \<Longrightarrow> loop_step s (s\<lparr>s_pc := At_Test, s_calling := False\<rparr>)"
| push: "s_threads s i = Idle \<Longrightarrow>
    loop_step s (s\<lparr>s_pending := s_pending s @ [f], s_threads := (s_threads s)(i := Pushed)\<rparr>)"
| push_wakes: "s_threads s i = Pushed \<Longrightarrow>
    loop_step s (s\<lparr>s_eventfd := Suc (s_eventfd s), s_threads := (s_threads s)(i := Idle)\<rparr>)"
| set_quit: "s_threads s i = Idle \<Longrightarrow>
    loop_step s (s\<lparr>s_quit := True, s_threads := (s_threads s)(i := Quit_Set)\<rparr>)"
| quit_wakes: "s_threads s i = Quit_Set \<Longrightarrow>
    loop_step s (s\<lparr>s_eventfd := Suc (s_eventfd s), s_threads := (s_threads s)(i := Idle),
                   s_quits := Suc (s_quits s)\<rparr>)"

definition shared_init :: "'f shared" where
  "shared_init = \<lparr>s_pc = At_Start, s_quit = False, s_calling = False, s_pending = [],
     s_eventfd = 0, s_threads = (\<lambda>_. Idle), s_quits = 0, s_silent = 0, s_batches = 0\<rparr>"

definition waking :: "thread_pc \<Rightarrow> 'f shared \<Rightarrow> bool" where
  "waking t s \<longleftrightarrow> 0 < s_eventfd s \<or> (\<exists>i. s_threads s i = t)"

text \<open>
  Between the batch's swap and the next reading of the eventfd, a queued functor that is not silent has a
  wake-up behind it, delivered or about to be; \<open>quit_\<close> has one once the test has been passed.
\<close>

definition wake_inv :: "'f shared \<Rightarrow> bool" where
  "wake_inv s \<longleftrightarrow>
     (s_pc s \<in> {At_Start, At_Test, In_Poll} \<union> range Running \<longrightarrow>
       s_silent s < length (s_pending s) \<longrightarrow> waking Pushed s) \<and>
     (s_pc s = In_Poll \<longrightarrow> s_quit s \<longrightarrow> waking Quit_Set s) \<and>
     s_silent s \<le> length (s_pending s) \<and> (s_pc s = At_Start \<longrightarrow> s_batches s = 0) \<and> (0 < s_batches s \<longrightarrow> s_silent s = 0)"

lemma waking_mono:
  assumes "waking t s" and "s_eventfd s \<le> s_eventfd s'"
    and "\<And>i. s_threads s i = t \<Longrightarrow> s_threads s' i = t \<or> 0 < s_eventfd s'"
  shows "waking t s'"
  using assms by (fastforce simp: waking_def)

lemma wake_inv_step:
  assumes inv: "wake_inv s" and step: "loop_step s t"
  shows "wake_inv t"
  using step
proof cases
  case (push i f)
  have "waking Pushed t" using push by (auto simp: waking_def)
  moreover have "waking Quit_Set s \<Longrightarrow> waking Quit_Set t"
    using push by (elim waking_mono) auto
  ultimately show ?thesis using inv push by (auto simp: wake_inv_def)
next
  case (push_wakes i)
  then have "waking u t" for u by (simp add: waking_def)
  then show ?thesis using inv push_wakes by (simp add: wake_inv_def)
next
  case (set_quit i)
  have "waking Quit_Set t" using set_quit by (auto simp: waking_def)
  moreover have "waking Pushed s \<Longrightarrow> waking Pushed t"
    using set_quit by (elim waking_mono) auto
  ultimately show ?thesis using inv set_quit by (auto simp: wake_inv_def)
next
  case (quit_wakes i)
  then have "waking u t" for u by (simp add: waking_def)
  then show ?thesis using inv quit_wakes by (simp add: wake_inv_def)
qed (use inv in \<open>auto simp: wake_inv_def waking_def\<close>)

interpretation wakeups: invariant_system "\<lambda>s. s = shared_init" loop_step wake_inv
proof unfold_locales
  show "wake_inv s" if "s = shared_init" for s :: "'f shared"
    using that by (simp add: wake_inv_def shared_init_def waking_def)
  show "wake_inv t" if "wake_inv s" "loop_step s t" for s t :: "'f shared"
    using that by (rule wake_inv_step)
qed

text \<open>What can happen: a functor that the loop's own thread queued before \<open>loop()\<close> sleeps through the first \<open>epoll_wait\<close>.\<close>

lemma early_functor_sleeps:
  fixes f :: 'f
  shows "\<exists>s. loop_step\<^sup>*\<^sup>* shared_init s \<and> s_pc s = In_Poll \<and> s_pending s = [f] \<and> s_silent s = 1 \<and> s_batches s = 0 \<and>
    s_eventfd s = 0 \<and> (\<forall>i. s_threads s i = Idle)"
proof -
  let ?z = "shared_init :: 'f shared"
  let ?a = "?z\<lparr>s_pending := s_pending ?z @ [f], s_silent := Suc (s_silent ?z)\<rparr>"
  let ?b = "?a\<lparr>s_pc := At_Test, s_quit := False\<rparr>" and ?c = "?a\<lparr>s_pc := At_Test, s_quit := False\<rparr>\<lparr>s_pc := In_Poll\<rparr>"
  have "loop_step ?z ?a" by (rule start_queues) (simp add: shared_init_def)
  moreover have "loop_step ?a ?b" by (rule enter) (simp add: shared_init_def)
  moreover have "loop_step ?b ?c" by (rule go_poll) simp_all
  ultimately have "loop_step\<^sup>*\<^sup>* shared_init ?c" by (meson rtranclp.rtrancl_into_rtrancl r_into_rtranclp)
  then show ?thesis by (intro exI [of _ ?c]) (simp add: shared_init_def)
qed

text \<open>C6: No wake-up is lost, but for the functors that the loop's own thread queues before \<open>loop()\<close>. Whenever the loop
  thread is inside \<open>epoll_wait\<close> while a functor queued in another way is pending or \<open>quit_\<close> is set, the eventfd is
  readable or the thread that queued (or quit) is about to write it. No functor of the exceptional kind is pending once
  \<open>doPendingFunctors\<close> has taken the queue for the first time; until then it can sleep through the first \<open>epoll_wait\<close>
  with nothing to wake the loop.\<close>
theorem no_lost_wakeup:
  assumes "loop_step\<^sup>*\<^sup>* shared_init s" and "s_pc s = In_Poll"
  shows "(s_silent s < length (s_pending s) \<or> s_quit s \<longrightarrow> 0 < s_eventfd s \<or> (\<exists>i. s_threads s i \<noteq> Idle)) \<and>
    (0 < s_batches s \<longrightarrow> s_silent s = 0) \<and>
    (\<forall>f. \<exists>u. loop_step\<^sup>*\<^sup>* shared_init u \<and> s_pc u = In_Poll \<and> s_pending u = [f] \<and> s_silent u = 1 \<and> s_batches u = 0 \<and>
      s_eventfd u = 0 \<and> (\<forall>i. s_threads u i = Idle))"
proof -
  have inv: "wake_inv s" using wakeups.reachable_inv [OF refl assms(1)] .
  then have "s_silent s < length (s_pending s) \<or> s_quit s \<longrightarrow> 0 < s_eventfd s \<or> (\<exists>i. s_threads s i \<noteq> Idle)"
    using assms(2) by (force simp: wake_inv_def waking_def)
  moreover have "0 < s_batches s \<longrightarrow> s_silent s = 0" using inv unfolding wake_inv_def by (elim conjE)
  ultimately show ?thesis using early_functor_sleeps by (intro conjI allI)
qed

lemma run_step: "loop_step\<^sup>*\<^sup>* s t \<Longrightarrow> loop_step t u \<Longrightarrow> loop_step\<^sup>*\<^sup>* s u"
  by (rule rtranclp.rtrancl_into_rtrancl)

text \<open>The loop's own thread queues 5 before \<open>loop()\<close>; thread 3 queues 7 while the loop waits.\<close>

theorem no_lost_wakeup_witness:
  "\<exists>s :: nat shared. loop_step\<^sup>*\<^sup>* shared_init s \<and> s_pending s = [5, 7] \<and> s_silent s = 1 \<and> s_pc s = In_Poll
     \<and> (0 < s_eventfd s \<or> (\<exists>i. s_threads s i \<noteq> Idle))"
proof -
  define z :: "nat shared" where
    "z = shared_init\<lparr>s_pending := s_pending (shared_init :: nat shared) @ [5], s_silent := Suc (s_silent (shared_init :: nat shared))\<rparr>"
  define a where "a = z\<lparr>s_pc := At_Test, s_quit := False\<rparr>"
  define b where "b = a\<lparr>s_pc := In_Poll\<rparr>"
  define c where "c = b\<lparr>s_pending := s_pending b @ [7], s_threads := (s_threads b)(3 := Pushed)\<rparr>"
  note defs = z_def a_def b_def c_def shared_init_def
  have "loop_step shared_init z" unfolding z_def by (rule start_queues) (simp add: defs)
  moreover have "loop_step z a" unfolding a_def by (rule enter) (simp add: defs)
  moreover have "loop_step a b" unfolding b_def by (rule go_poll) (simp_all add: defs)
  moreover have "loop_step b c" unfolding c_def by (rule push) (simp add: defs)
  ultimately have run: "loop_step\<^sup>*\<^sup>* shared_init c" by (meson run_step rtranclp.rtrancl_refl)
  have c: "s_pending c = [5, 7]" "s_silent c = 1" "s_pc c = In_Poll" by (simp_all add: defs)
  have "s_silent c < length (s_pending c)" by (simp add: c(1,2))
  with no_lost_wakeup [OF run c(3)] have "0 < s_eventfd c \<or> (\<exists>i. s_threads c i \<noteq> Idle)" by blast
  with run c show ?thesis by blast
qed

text \<open>A quit can be lost: \<open>loop()\<close> clears \<open>quit_\<close> on entry, so a \<open>quit()\<close> of another thread
  that completes before that (as the destructor of \<open>EventLoopThread\<close> may call it right after
  \<open>startLoop\<close> has returned) leaves the loop blocked in \<open>epoll_wait\<close> with \<open>quit_\<close> unset and nothing
  left to wake it.\<close>

lemma quit_before_loop_is_lost:
  "\<exists>s :: 'f shared. loop_step\<^sup>*\<^sup>* shared_init s \<and> s_quits s = 1 \<and> s_pc s = In_Poll
     \<and> \<not> s_quit s \<and> s_eventfd s = 0 \<and> (\<forall>i. s_threads s i = Idle)"
proof -
  define a :: "'f shared" where
    "a = shared_init\<lparr>s_quit := True, s_threads := (s_threads (shared_init :: 'f shared))(0 := Quit_Set)\<rparr>"
  define b where "b = a\<lparr>s_eventfd := Suc (s_eventfd a), s_threads := (s_threads a)(0 := Idle),
               s_quits := Suc (s_quits a)\<rparr>"
  define c where "c = b\<lparr>s_pc := At_Test, s_quit := False\<rparr>"
  define d where "d = c\<lparr>s_pc := In_Poll\<rparr>"
  define e where "e = d\<lparr>s_pc := Handling, s_eventfd := 0\<rparr>"
  define f where "f = e\<lparr>s_pc := At_Calling\<rparr>"
  define g where "g = f\<lparr>s_pc := At_Swap, s_calling := True\<rparr>"
  define h where "h = g\<lparr>s_pc := Running (s_pending g), s_pending := [], s_silent := 0, s_batches := Suc (s_batches g)\<rparr>"
  define i where "i = h\<lparr>s_pc := At_Test, s_calling := False\<rparr>"
  define j where "j = i\<lparr>s_pc := In_Poll\<rparr>"
  note defs = a_def b_def c_def d_def e_def f_def g_def h_def i_def j_def shared_init_def
  note go = run_step
  have run: "loop_step\<^sup>*\<^sup>* shared_init a"
    unfolding a_def by (rule go [OF rtranclp.rtrancl_refl], rule set_quit) (simp add: defs)
  have run: "loop_step\<^sup>*\<^sup>* shared_init b"
    unfolding b_def by (rule go [OF run], rule quit_wakes) (simp add: defs)
  have run: "loop_step\<^sup>*\<^sup>* shared_init c"
    unfolding c_def by (rule go [OF run], rule enter) (simp add: defs)
  have run: "loop_step\<^sup>*\<^sup>* shared_init d"
    unfolding d_def by (rule go [OF run], rule go_poll) (simp_all add: defs)
  have run: "loop_step\<^sup>*\<^sup>* shared_init e"
    unfolding e_def by (rule go [OF run], rule woken) (simp_all add: defs)
  have run: "loop_step\<^sup>*\<^sup>* shared_init f"
    unfolding f_def by (rule go [OF run], rule handled) (simp add: defs)
  have run: "loop_step\<^sup>*\<^sup>* shared_init g"
    unfolding g_def by (rule go [OF run], rule calling) (simp add: defs)
  have run: "loop_step\<^sup>*\<^sup>* shared_init h"
    unfolding h_def by (rule go [OF run], rule swap) (simp add: defs)
  have run: "loop_step\<^sup>*\<^sup>* shared_init i"
    unfolding i_def by (rule go [OF run], rule run_done) (simp add: defs)
  have run: "loop_step\<^sup>*\<^sup>* shared_init j"
    unfolding j_def by (rule go [OF run], rule go_poll) (simp_all add: defs)
  then show ?thesis by (intro exI [of _ j]) (simp add: defs)
qed

section \<open>Construction and destruction\<close>

lemma EventLoop_new_registered:
  "interest (r_ctl (EventLoop_new tid w fds)) (fds w) = Some (kReadEvent, w)"
  by (simp add: EventLoop_new_def enableReading_def channel_update_def poller_updateChannel_def
      poller_update_def Channel_new_def index_defs Let_def interest_def ctl_apply_def ctl_legal_def
      mask_defs)

lemma EventLoop_destroy_drops_wakeup:
  assumes "poller_inv S l" "l_wakeup l \<in> S"
  shows "poller_inv S (EventLoop_destroy l)"
    and "ch_index (r_chan (EventLoop_destroy l) (l_wakeup l)) = kNew"
proof -
  show "poller_inv S (EventLoop_destroy l)"
    unfolding EventLoop_destroy_def channel_remove_def disableAll_def channel_update_def
    by (intro poller_removeChannel_inv poller_updateChannel_inv assms)
  show "ch_index (r_chan (EventLoop_destroy l) (l_wakeup l)) = kNew"
    by (simp add: EventLoop_destroy_def channel_remove_def poller_removeChannel_def Let_def)
qed

lemma loop_while_quit: "l_quit l \<Longrightarrow> loop_while call handle alive ws l = Some (l\<lparr>l_looping := False\<rparr>)"
  by (simp add: loop_while.simps)

lemma loop_while_returns_quit:
  "loop_while call handle alive ws l = Some l' \<Longrightarrow> l_quit l' \<and> \<not> l_looping l'"
proof (induction ws arbitrary: l)
  case Nil
  then show ?case by (subst (asm) loop_while.simps) (auto split: if_splits)
next
  case (Cons w ws)
  then show ?case by (subst (asm) loop_while.simps) (auto split: if_splits)
qed

end
