(* ===== verification/Muduo_TcpConnection.thy ===== *)
theory Muduo_TcpConnection
  imports Muduo_Buffer Muduo_EventLoop
begin

text \<open>
  \<open>TcpConnection\<close> of muduo-mgkl (TcpConnection.hpp/cpp). A handler maps a connection and
  the event loop it belongs to to their next values; it runs in the loop's thread unless a
  thread is named. The answers of \<open>write\<close>, \<open>readv\<close> and \<open>sendfile\<close> are arguments. The
  functors a connection binds are the constructors of \<open>conn_functor\<close>; the user's callbacks are
  one argument, \<open>user\<close>, that is given the callback's kind. \<open>c_sent\<close> and \<open>c_shut\<close> record
  what the kernel has been handed: the bytes it accepted and whether the write side is closed.
\<close>

section \<open>State\<close>

datatype conn_state = kConnecting | kConnected | kDisconnecting | kDisconnected

type_synonym conn_id = nat

datatype conn_functor =
  Write_Complete conn_id
| High_Water_Mark conn_id nat
| Send_In_Loop conn_id "char list"
| Shutdown_In_Loop conn_id
| Send_File_In_Loop conn_id int nat nat
| Connect_Established conn_id
| Connect_Destroyed conn_id
| Remove_Connection_In_Loop conn_id
| Acceptor_Listen

datatype user_event = On_Connection | On_Close | On_Write_Complete | On_High_Water_Mark nat

record conn =
  c_id :: conn_id
  c_name :: string
  c_state :: conn_state
  c_reading :: bool
  c_channel :: chan_id
  c_highWaterMark :: nat
  c_in :: mbuffer
  c_out :: mbuffer
  c_has_writeComplete :: bool
  c_has_highWaterMark :: bool
  c_sent :: "char list"
  c_shut :: bool

type_synonym io = "conn \<times> conn_functor event_loop"

definition EAGAIN :: int where "EAGAIN = 11"
definition EWOULDBLOCK :: int where "EWOULDBLOCK = EAGAIN"
definition EPIPE :: int where "EPIPE = 32"
definition ECONNRESET :: int where "ECONNRESET = 104"

lemmas errno_defs = EAGAIN_def EWOULDBLOCK_def EPIPE_def ECONNRESET_def

text \<open>The constructor sets the four callbacks of the channel it creates for the socket.\<close>

definition TcpConnection_new :: "conn_id \<Rightarrow> string \<Rightarrow> chan_id \<Rightarrow> int \<Rightarrow> conn_functor event_loop \<Rightarrow> io" where
  "TcpConnection_new i name ch sockfd l =
     (\<lparr>c_id = i, c_name = name, c_state = kConnecting, c_reading = True, c_channel = ch,
       c_highWaterMark = 64 * 1024 * 1024, c_in = buffer_new kInitialSize,
       c_out = buffer_new kInitialSize, c_has_writeComplete = False, c_has_highWaterMark = False,
       c_sent = [], c_shut = False\<rparr>,
      l\<lparr>r_chan := (r_chan l)(ch := (Channel_new sockfd)\<lparr>has_readCallback := True,
           has_writeCallback := True, has_closeCallback := True, has_errorCallback := True\<rparr>)\<rparr>)"

text \<open>The setters, with whether the callback given is not empty.\<close>

definition setWriteCompleteCallback :: "bool \<Rightarrow> conn \<Rightarrow> conn" where
  "setWriteCompleteCallback cb c = c\<lparr>c_has_writeComplete := cb\<rparr>"

definition setHighWaterMarkCallback :: "bool \<Rightarrow> nat \<Rightarrow> conn \<Rightarrow> conn" where
  "setHighWaterMarkCallback cb highWaterMark c = c\<lparr>c_has_highWaterMark := cb, c_highWaterMark := highWaterMark\<rparr>"

abbreviation conn_writing :: "io \<Rightarrow> bool" where
  "conn_writing s \<equiv> isWriting (r_chan (snd s) (c_channel (fst s)))"

abbreviation on_loop :: "(conn_functor event_loop \<Rightarrow> conn_functor event_loop) \<Rightarrow> io \<Rightarrow> io" where
  "on_loop f s \<equiv> (fst s, f (snd s))"

abbreviation on_conn :: "(conn \<Rightarrow> conn) \<Rightarrow> io \<Rightarrow> io" where
  "on_conn f s \<equiv> (f (fst s), snd s)"

definition queue_own :: "conn_functor \<Rightarrow> io \<Rightarrow> io" where
  "queue_own f s = on_loop (queueInLoop (l_threadId (snd s)) f) s"

section \<open>Sending\<close>

definition sendInLoop_write :: "write_result \<Rightarrow> char list \<Rightarrow> io \<Rightarrow> (nat \<times> nat \<times> bool \<times> io) res" where
  "sendInLoop_write w data s =
     (let len = length data
      in if \<not> conn_writing s \<and> readableBytes (c_out (fst s)) = 0
         then (case w of
                 Wrote n \<Rightarrow>
                   if len < n then Inl Undefined
                   else (let remaining = sz_sub len n;
                             s1 = on_conn (c_sent_update (\<lambda>x. x @ take n data)) s;
                             s2 = (if remaining = 0 \<and> c_has_writeComplete (fst s1)
                                   then queue_own (Write_Complete (c_id (fst s1))) s1 else s1)
                         in Inr (n, remaining, False, s2))
               | Write_Error e \<Rightarrow>
                   Inr (0, len, e \<noteq> EWOULDBLOCK \<and> (e = EPIPE \<or> e = ECONNRESET), s))
         else Inr (0, len, False, s))"

definition sendInLoop_buffer :: "char list \<Rightarrow> nat \<times> nat \<times> bool \<times> io \<Rightarrow> io res" where
  "sendInLoop_buffer data x =
     (let (nwrote, remaining, faultError, s) = x
      in if \<not> faultError \<and> 0 < remaining
         then (let oldLen = readableBytes (c_out (fst s));
                   s1 = (if c_highWaterMark (fst s) \<le> sz_add oldLen remaining
                            \<and> oldLen < c_highWaterMark (fst s) \<and> c_has_highWaterMark (fst s)
                         then queue_own (High_Water_Mark (c_id (fst s)) (sz_add oldLen remaining)) s
                         else s)
               in res_bind (buf_append (drop nwrote data) (c_out (fst s1)))
                    (\<lambda>b. let s2 = on_conn (c_out_update (\<lambda>_. b)) s1
                         in Inr (if \<not> conn_writing s2
                                 then on_loop (enableWriting (c_channel (fst s2))) s2 else s2)))
         else Inr s)"

definition sendInLoop :: "write_result \<Rightarrow> char list \<Rightarrow> io \<Rightarrow> io res" where
  "sendInLoop w data s = res_bind (sendInLoop_write w data s) (sendInLoop_buffer data)"

definition conn_send :: "int \<Rightarrow> write_result \<Rightarrow> char list \<Rightarrow> io \<Rightarrow> io res" where
  "conn_send tid w data s =
     (if c_state (fst s) = kConnected
      then if isInLoopThread tid (snd s) then sendInLoop w data s
           else Inr (on_loop (queueInLoop tid (Send_In_Loop (c_id (fst s)) data)) s)
      else Inr s)"

section \<open>Shutting down, closing\<close>

definition shutdownInLoop :: "io \<Rightarrow> io" where
  "shutdownInLoop s = (if \<not> conn_writing s then on_conn (c_shut_update (\<lambda>_. True)) s else s)"

definition conn_shutdown :: "int \<Rightarrow> io \<Rightarrow> io" where
  "conn_shutdown tid s =
     (if c_state (fst s) = kConnected
      then (let s1 = on_conn (c_state_update (\<lambda>_. kDisconnecting)) s
            in if isInLoopThread tid (snd s1) then shutdownInLoop s1
               else on_loop (queueInLoop tid (Shutdown_In_Loop (c_id (fst s1)))) s1)
      else s)"

definition connectEstablished :: "(user_event \<Rightarrow> io \<Rightarrow> io) \<Rightarrow> io \<Rightarrow> io" where
  "connectEstablished user s =
     (let ch = c_channel (fst s);
          s1 = on_conn (c_state_update (\<lambda>_. kConnected)) s;
          s2 = on_loop (upd_chan ch tie) s1;
          s3 = on_loop (enableReading ch) s2
      in user On_Connection s3)"

definition connectDestroted :: "(user_event \<Rightarrow> io \<Rightarrow> io) \<Rightarrow> io \<Rightarrow> io" where
  "connectDestroted user s =
     (if c_state (fst s) = kConnected
      then (let s1 = on_conn (c_state_update (\<lambda>_. kDisconnected)) s;
                s2 = on_loop (disableAll (c_channel (fst s1))) s1
            in user On_Connection s2)
      else s)"

section \<open>Channel callbacks\<close>

definition handleClose :: "(user_event \<Rightarrow> io \<Rightarrow> io) \<Rightarrow> io \<Rightarrow> io" where
  "handleClose user s =
     (let s1 = on_conn (c_state_update (\<lambda>_. kDisconnected)) s;
          s2 = on_loop (disableAll (c_channel (fst s1))) s1
      in user On_Close (user On_Connection s2))"

text \<open>\<open>handleError\<close> fetches the socket's error and logs it; nothing of the state changes.\<close>

definition handleError :: "io \<Rightarrow> io" where
  "handleError s = s"

definition handleRead ::
  "(user_event \<Rightarrow> io \<Rightarrow> io) \<Rightarrow> (io \<Rightarrow> io res) \<Rightarrow> read_result \<Rightarrow> io \<Rightarrow> io res" where
  "handleRead user message r s =
     res_bind (buf_readFd r (c_in (fst s)))
       (\<lambda>(n, e, b). let s1 = on_conn (c_in_update (\<lambda>_. b)) s
                     in if 0 < n then message s1
                        else if n = 0 then Inr (handleClose user s1)
                        else Inr (handleError s1))"

definition handleWrite :: "write_result \<Rightarrow> io \<Rightarrow> io" where
  "handleWrite w s =
     (if conn_writing s
      then (let (n, e) = buf_writeFd w (c_out (fst s))
            in if 0 < n
               then (let s1 = on_conn (\<lambda>c. c\<lparr>c_sent := c_sent c @ take (nat n) (buf_content (c_out c)),
                                              c_out := buf_retrieve (nat n) (c_out c)\<rparr>) s
                     in if readableBytes (c_out (fst s1)) = 0
                        then (let s2 = on_loop (disableWriting (c_channel (fst s1))) s1;
                                  s3 = (if c_has_writeComplete (fst s2)
                                        then queue_own (Write_Complete (c_id (fst s2))) s2 else s2)
                              in if c_state (fst s3) = kDisconnecting then shutdownInLoop s3 else s3)
                        else s1)
               else s)
      else s)"

text \<open>
  The answer of \<open>sendfile\<close> is the number of bytes sent, by which the offset has advanced, or
  an error number.
\<close>

definition sendFileInLoop :: "write_result \<Rightarrow> int \<Rightarrow> nat \<Rightarrow> nat \<Rightarrow> io \<Rightarrow> io" where
  "sendFileInLoop w fileDescriptor offset cnt s =
     (if c_state (fst s) = kDisconnecting then s
      else (let (remaining, offset', faultError, s1) =
              (if \<not> conn_writing s \<and> readableBytes (c_out (fst s)) = 0
               then (case w of
                       Wrote n \<Rightarrow>
                         (let remaining = sz_sub cnt n
                          in (remaining, offset + n, False,
                              if remaining = 0 \<and> c_has_writeComplete (fst s)
                              then queue_own (Write_Complete (c_id (fst s))) s else s))
                     | Write_Error e \<Rightarrow> (cnt, offset, e = EPIPE \<or> e = ECONNRESET, s))
               else (cnt, offset, False, s))
            in if \<not> faultError \<and> 0 < remaining
               then queue_own (Send_File_In_Loop (c_id (fst s1)) fileDescriptor offset' remaining) s1
               else s1))"

definition conn_sendFile :: "int \<Rightarrow> write_result \<Rightarrow> int \<Rightarrow> nat \<Rightarrow> nat \<Rightarrow> io \<Rightarrow> io" where
  "conn_sendFile tid w fileDescriptor offset cnt s =
     (if c_state (fst s) = kConnected
      then if isInLoopThread tid (snd s) then sendFileInLoop w fileDescriptor offset cnt s
           else on_loop (queueInLoop tid (Send_File_In_Loop (c_id (fst s)) fileDescriptor offset cnt)) s
      else s)"

section \<open>Invariant\<close>

text \<open>
  Output is watched for exactly while bytes are buffered, and the write side is only closed
  when none are.
\<close>

definition conn_inv :: "io \<Rightarrow> bool" where
  "conn_inv s \<longleftrightarrow> buf_inv (c_in (fst s)) \<and> buf_inv (c_out (fst s)) \<and>
     (conn_writing s \<longleftrightarrow> buf_content (c_out (fst s)) \<noteq> []) \<and>
     (c_shut (fst s) \<longrightarrow> buf_content (c_out (fst s)) = [] \<and> c_state (fst s) \<noteq> kConnected)"

lemma readable_zero: "buf_inv b \<Longrightarrow> readableBytes b = 0 \<longleftrightarrow> buf_content b = []"
  by (metis length_buf_content length_0_conv)

lemma channel_events [simp]:
  "ch_events (r_chan (poller_updateChannel c l) d) = ch_events (r_chan l d)"
  "ch_tied (r_chan (poller_updateChannel c l) d) = ch_tied (r_chan l d)"
  "ch_fd (r_chan (poller_updateChannel c l) d) = ch_fd (r_chan l d)"
  by (auto simp: poller_updateChannel_def poller_update_def Let_def)

lemma loop_frame [simp]:
  "l_threadId (poller_updateChannel c l) = l_threadId (l :: 'f event_loop)"
  "l_pending (poller_updateChannel c l) = l_pending l"
  "l_calling (poller_updateChannel c l) = l_calling l"
  by (auto simp: poller_updateChannel_def poller_update_def Let_def)

lemma queueInLoop_reactor [simp]:
  "r_chan (queueInLoop tid f l) = r_chan l"
  "r_channels (queueInLoop tid f l) = r_channels l"
  "r_ctl (queueInLoop tid f l) = r_ctl l"
  by (auto simp: queueInLoop_def wakeup_def Let_def)

lemma queue_own_simps [simp]:
  "fst (queue_own f s) = fst s"
  "r_chan (snd (queue_own f s)) = r_chan (snd s)"
  "l_pending (snd (queue_own f s)) = l_pending (snd s) @ [f]"
  "l_threadId (snd (queue_own f s)) = l_threadId (snd s)"
  by (simp_all add: queue_own_def)

lemma writing_switches [simp]:
  "isWriting (r_chan (enableWriting c l) c)"
  "\<not> isWriting (r_chan (disableWriting c l) c)"
  "\<not> isWriting (r_chan (disableAll c l) c)"
  "isWriting (r_chan (enableReading c l) c) = isWriting (r_chan l c)"
  by (simp_all add: enableWriting_def disableWriting_def disableAll_def enableReading_def
      channel_update_def isWriting_def)

lemma conn_inv_new: "conn_inv (TcpConnection_new i name ch fd l)"
  by (simp add: conn_inv_def TcpConnection_new_def buf_new_inv buf_new_content kInitialSize_def
      isWriting_def Channel_new_def)


section \<open>Every handler keeps the invariant\<close>

text \<open>The answers \<open>write\<close> may give for \<open>len\<close> bytes, and those that do not end the connection.\<close>

fun write_answer :: "nat \<Rightarrow> write_result \<Rightarrow> bool" where
  "write_answer len (Wrote n) = (n \<le> len)"
| "write_answer len (Write_Error e) = (e \<noteq> EPIPE \<and> e \<noteq> ECONNRESET)"

lemma sendInLoop_write_ok:
  assumes inv: "conn_inv s" and ans: "write_answer (length d) w"
  obtains n s1 where "sendInLoop_write w d s = Inr (n, length d - n, False, s1)" "n \<le> length d"
    "c_sent (fst s1) = c_sent (fst s) @ take n d" "n = 0 \<or> buf_content (c_out (fst s)) = []"
    "fst s1 = (fst s)\<lparr>c_sent := c_sent (fst s1)\<rparr>" "r_chan (snd s1) = r_chan (snd s)"
    "l_threadId (snd s1) = l_threadId (snd s)"
proof (cases "\<not> conn_writing s \<and> readableBytes (c_out (fst s)) = 0")
  case True
  with inv have empty: "buf_content (c_out (fst s)) = []" by (simp add: conn_inv_def)
  show ?thesis
  proof (cases w)
    case (Wrote n)
    define s0 where "s0 = on_conn (c_sent_update (\<lambda>x. x @ take n d)) s"
    define s1 where "s1 = (if length d - n = 0 \<and> c_has_writeComplete (fst s0)
      then queue_own (Write_Complete (c_id (fst s0))) s0 else s0)"
    show ?thesis
      by (rule that [of n s1])
        (use Wrote True ans empty in \<open>auto simp: sendInLoop_write_def Let_def size_arith s1_def s0_def\<close>)
  next
    case (Write_Error e)
    with True ans show ?thesis
      by (intro that [of 0 s]) (auto simp: sendInLoop_write_def Let_def)
  qed
next
  case False
  then show ?thesis by (intro that [of 0 s]) (auto simp: sendInLoop_write_def Let_def)
qed

lemma sendInLoop_ok:
  assumes inv: "conn_inv s" and ans: "write_answer (length d) w" and open_: "\<not> c_shut (fst s)"
    and fits: "writerIndex (c_out (fst s)) + length d \<le> vector_max"
  obtains s' where "sendInLoop w d s = Inr s'" "conn_inv s'" "c_shut (fst s') = c_shut (fst s)"
    "c_state (fst s') = c_state (fst s)" "l_threadId (snd s') = l_threadId (snd s)"
    "c_sent (fst s') @ buf_content (c_out (fst s')) =
       c_sent (fst s) @ buf_content (c_out (fst s)) @ d"
    "writerIndex (c_out (fst s')) \<le> writerIndex (c_out (fst s)) + length d"
proof -
  obtain n s1 where s1: "sendInLoop_write w d s = Inr (n, length d - n, False, s1)" "n \<le> length d"
    "c_sent (fst s1) = c_sent (fst s) @ take n d" "n = 0 \<or> buf_content (c_out (fst s)) = []"
    "fst s1 = (fst s)\<lparr>c_sent := c_sent (fst s1)\<rparr>" "r_chan (snd s1) = r_chan (snd s)"
    "l_threadId (snd s1) = l_threadId (snd s)"
    using sendInLoop_write_ok [OF inv ans] by blast
  have same: "c_out (fst s1) = c_out (fst s)" "c_in (fst s1) = c_in (fst s)"
    "c_shut (fst s1) = c_shut (fst s)" "c_state (fst s1) = c_state (fst s)"
    "c_channel (fst s1) = c_channel (fst s)"
    by (subst s1(5), simp)+
  show ?thesis
  proof (cases "n = length d")
    case True
    have "sendInLoop w d s = Inr s1"
      by (simp add: sendInLoop_def s1(1) sendInLoop_buffer_def True)
    with True s1 same inv show ?thesis
      by (intro that [of s1]) (auto simp: conn_inv_def)
  next
    case False
    with s1(2) have rest: "0 < length d - n" by simp
    have "writerIndex (c_out (fst s)) + length (drop n d) \<le> vector_max" using fits by simp
    moreover have "buf_inv (c_out (fst s))" using inv by (simp add: conn_inv_def)
    ultimately obtain b where b: "buf_append (drop n d) (c_out (fst s)) = Inr b" "buf_inv b"
      "buf_content b = buf_content (c_out (fst s)) @ drop n d"
      "writerIndex b \<le> writerIndex (c_out (fst s)) + length (drop n d)"
      using mbuf.put_ok [of "c_out (fst s)" "drop n d"] by blast
    define s2 where "s2 = (if c_highWaterMark (fst s1) \<le> sz_add (readableBytes (c_out (fst s1))) (length d - n)
        \<and> readableBytes (c_out (fst s1)) < c_highWaterMark (fst s1) \<and> c_has_highWaterMark (fst s1)
      then queue_own (High_Water_Mark (c_id (fst s1)) (sz_add (readableBytes (c_out (fst s1))) (length d - n))) s1
      else s1)"
    have s2: "fst s2 = fst s1" "r_chan (snd s2) = r_chan (snd s1)" "l_threadId (snd s2) = l_threadId (snd s1)"
      by (auto simp: s2_def)
    define s3 where "s3 = on_conn (c_out_update (\<lambda>_. b)) s2"
    define s4 where "s4 = (if \<not> conn_writing s3 then on_loop (enableWriting (c_channel (fst s3))) s3 else s3)"
    have "sendInLoop w d s = Inr s4"
      using rest b(1) by (simp add: sendInLoop_def s1(1) sendInLoop_buffer_def Let_def s4_def s3_def
          s2_def same)
    moreover have "conn_writing s4" "fst s4 = (fst s1)\<lparr>c_out := b\<rparr>"
      by (auto simp: s4_def s3_def s2)
    moreover have "l_threadId (snd s4) = l_threadId (snd s)"
      by (simp add: s4_def s3_def s2 s1(7) enableWriting_def channel_update_def)
    moreover have "drop n d \<noteq> []" using rest by simp
    ultimately show ?thesis
      using b s1 same inv open_ by (intro that [of s4]) (auto simp: conn_inv_def)
  qed
qed

lemma shutdownInLoop_simps [simp]:
  "c_out (fst (shutdownInLoop s)) = c_out (fst s)" "c_in (fst (shutdownInLoop s)) = c_in (fst s)"
  "c_state (fst (shutdownInLoop s)) = c_state (fst s)" "snd (shutdownInLoop s) = snd s"
  "c_sent (fst (shutdownInLoop s)) = c_sent (fst s)"
  "c_channel (fst (shutdownInLoop s)) = c_channel (fst s)"
  by (simp_all add: shutdownInLoop_def)

lemma shutdownInLoop_inv:
  "conn_inv s \<Longrightarrow> c_state (fst s) \<noteq> kConnected \<Longrightarrow> conn_inv (shutdownInLoop s)"
  by (simp add: conn_inv_def) (auto simp: shutdownInLoop_def)

lemma handleWrite_inv:
  assumes inv: "conn_inv s"
  shows "conn_inv (handleWrite w s)"
    and "c_sent (fst (handleWrite w s)) @ buf_content (c_out (fst (handleWrite w s))) =
      c_sent (fst s) @ buf_content (c_out (fst s))"
    and "c_state (fst (handleWrite w s)) = c_state (fst s)"
    and "writerIndex (c_out (fst (handleWrite w s))) \<le> writerIndex (c_out (fst s))"
    and "l_threadId (snd (handleWrite w s)) = l_threadId (snd s)"
proof -
  have out: "buf_inv (c_out (fst s))" using inv by (simp add: conn_inv_def)
  show "conn_inv (handleWrite w s)"
  proof (cases "c_state (fst s) = kDisconnecting")
    case True
    then show ?thesis
      using inv out
      by (auto simp: handleWrite_def Let_def buf_writeFd_def conn_inv_def shutdownInLoop_def
          readable_zero buf_retrieve_inv split: write_result.splits)
  next
    case False
    then show ?thesis
      using inv out
      by (auto simp: handleWrite_def Let_def buf_writeFd_def conn_inv_def
          readable_zero buf_retrieve_inv split: write_result.splits)
  qed
  show "c_sent (fst (handleWrite w s)) @ buf_content (c_out (fst (handleWrite w s))) =
      c_sent (fst s) @ buf_content (c_out (fst s))"
    using out by (auto simp: handleWrite_def Let_def buf_writeFd_def buf_retrieve_content
        split: write_result.splits)
  show "c_state (fst (handleWrite w s)) = c_state (fst s)"
    by (auto simp: handleWrite_def Let_def split: prod.splits)
  show "writerIndex (c_out (fst (handleWrite w s))) \<le> writerIndex (c_out (fst s))"
    using out by (auto simp: handleWrite_def Let_def buf_retrieve_writer split: prod.splits)
  show "l_threadId (snd (handleWrite w s)) = l_threadId (snd s)"
    by (auto simp: handleWrite_def Let_def disableWriting_def channel_update_def split: prod.splits)
qed

lemma conn_shutdown_inv:
  assumes "conn_inv s" "isInLoopThread tid (snd s)"
  shows "conn_inv (conn_shutdown tid s)"
    and "c_state (fst (conn_shutdown tid s)) \<noteq> kConnected"
  using assms by (auto simp: conn_shutdown_def Let_def isInLoopThread_def conn_inv_def shutdownInLoop_def)

section \<open>The byte stream of a connection\<close>

datatype conn_op = Op_Send "char list" write_result | Op_Writable write_result | Op_Shutdown

fun conn_run :: "conn_op list \<Rightarrow> io \<Rightarrow> io res" where
  "conn_run [] s = Inr s"
| "conn_run (Op_Send d w # os) s = res_bind (conn_send (l_threadId (snd s)) w d s) (conn_run os)"
| "conn_run (Op_Writable w # os) s = conn_run os (handleWrite w s)"
| "conn_run (Op_Shutdown # os) s = conn_run os (conn_shutdown (l_threadId (snd s)) s)"

fun accepted :: "conn_op list \<Rightarrow> char list" where
  "accepted [] = []"
| "accepted (Op_Send d w # os) = d @ accepted os"
| "accepted (Op_Writable w # os) = accepted os"
| "accepted (Op_Shutdown # os) = []"

fun op_answer_ok :: "conn_op \<Rightarrow> bool" where
  "op_answer_ok (Op_Send d w) = write_answer (length d) w"
| "op_answer_ok _ = True"

fun send_total :: "conn_op list \<Rightarrow> nat" where
  "send_total [] = 0"
| "send_total (Op_Send d w # os) = length d + send_total os"
| "send_total (_ # os) = send_total os"

definition conn_stream :: "io \<Rightarrow> char list" where
  "conn_stream s = c_sent (fst s) @ buf_content (c_out (fst s))"

lemma conn_run_stream:
  assumes "conn_inv s" and "\<forall>x\<in>set os. op_answer_ok x"
    and "writerIndex (c_out (fst s)) + send_total os \<le> vector_max"
  shows "\<exists>s'. conn_run os s = Inr s' \<and> conn_inv s' \<and>
    conn_stream s' = conn_stream s @ (if c_state (fst s) = kConnected then accepted os else [])"
  using assms
proof (induction os arbitrary: s)
  case Nil
  then show ?case by simp
next
  case (Cons x os)
  show ?case
  proof (cases x)
    case (Op_Send d w)
    show ?thesis
    proof (cases "c_state (fst s) = kConnected")
      case True
      with Cons.prems(1) have "\<not> c_shut (fst s)" by (auto simp: conn_inv_def)
      then obtain s1 where s1: "sendInLoop w d s = Inr s1" "conn_inv s1"
        "c_state (fst s1) = c_state (fst s)"
        "conn_stream s1 = conn_stream s @ d"
        "writerIndex (c_out (fst s1)) \<le> writerIndex (c_out (fst s)) + length d"
        using sendInLoop_ok [of s d w thesis] Cons.prems Op_Send by (simp add: conn_stream_def)
      with Cons.prems Op_Send have "writerIndex (c_out (fst s1)) + send_total os \<le> vector_max" by simp
      with Cons.IH [OF s1(2)] Cons.prems(2) s1 Op_Send True show ?thesis
        by (auto simp: conn_send_def isInLoopThread_def)
    next
      case False
      have "writerIndex (c_out (fst s)) + send_total os \<le> vector_max"
        using Cons.prems(3) Op_Send by simp
      with Cons.IH [of s] Cons.prems(1,2) Op_Send False show ?thesis by (simp add: conn_send_def)
    qed
  next
    case (Op_Writable w)
    have "writerIndex (c_out (fst (handleWrite w s))) + send_total os \<le> vector_max"
      using handleWrite_inv(4) [OF Cons.prems(1), of w] Cons.prems(3) Op_Writable by simp
    with Cons.IH [OF handleWrite_inv(1) [OF Cons.prems(1), of w]] Cons.prems(2) Op_Writable
      handleWrite_inv(2,3) [OF Cons.prems(1), of w]
    show ?thesis by (auto simp flip: conn_stream_def split: if_splits)
  next
    case Op_Shutdown
    let ?s = "conn_shutdown (l_threadId (snd s)) s"
    have tid: "isInLoopThread (l_threadId (snd s)) (snd s)" by (simp add: isInLoopThread_def)
    have same: "c_out (fst ?s) = c_out (fst s)" "conn_stream ?s = conn_stream s"
      by (auto simp: conn_shutdown_def conn_stream_def Let_def)
    from Cons.IH [of ?s] conn_shutdown_inv [OF Cons.prems(1) tid] Cons.prems(2,3) Op_Shutdown same
    show ?thesis by simp
  qed
qed


section \<open>Properties\<close>

lemma conn_established:
  assumes "conn_inv s" and "\<not> c_shut (fst s)"
  shows "conn_inv (connectEstablished (\<lambda>_. id) s)"
    and "c_state (fst (connectEstablished (\<lambda>_. id) s)) = kConnected"
  using assms by (simp_all add: connectEstablished_def Let_def conn_inv_def isWriting_def
      enableReading_def channel_update_def)

definition fresh_conn :: io where
  "fresh_conn = connectEstablished (\<lambda>_. id)
     (TcpConnection_new 0 ''c'' 1 5 (EventLoop_new 42 0 (\<lambda>_. 3)))"

lemma fresh_conn_eq:
  "fst fresh_conn = (fst (TcpConnection_new 0 ''c'' 1 5 (EventLoop_new 42 0 (\<lambda>_. 3))))\<lparr>c_state := kConnected\<rparr>"
  by (simp add: fresh_conn_def connectEstablished_def Let_def)

lemma fresh_conn_ok: "conn_inv fresh_conn" "c_state (fst fresh_conn) = kConnected"
  "c_sent (fst fresh_conn) = []" "buf_content (c_out (fst fresh_conn)) = []"
  "writerIndex (c_out (fst fresh_conn)) = 8" "\<not> c_has_writeComplete (fst fresh_conn)"
proof -
  show "conn_inv fresh_conn"
    unfolding fresh_conn_def
    by (intro conn_established conn_inv_new) (simp add: TcpConnection_new_def)
  show "buf_content (c_out (fst fresh_conn)) = []"
    unfolding fresh_conn_eq by (simp add: TcpConnection_new_def buf_new_content)
qed (simp_all add: fresh_conn_eq TcpConnection_new_def buffer_new_def kCheapPrepend_def)

text \<open>C1: The output of a connection is a stream: for every sequence of sends, writable events and
  a shutdown from the loop's thread, with any answers of \<open>write\<close> that do not break the connection,
  the bytes the kernel has accepted followed by the bytes still buffered are exactly the bytes sent
  before the shutdown, in order; output is watched for exactly while bytes are buffered.\<close>
theorem connection_output_is_a_stream:
  assumes "conn_inv s" and "c_state (fst s) = kConnected" and "\<forall>x\<in>set os. op_answer_ok x"
    and "writerIndex (c_out (fst s)) + send_total os \<le> vector_max"
  shows "\<exists>s'. conn_run os s = Inr s'
    \<and> c_sent (fst s') @ buf_content (c_out (fst s'))
        = c_sent (fst s) @ buf_content (c_out (fst s)) @ accepted os
    \<and> (conn_writing s' \<longleftrightarrow> buf_content (c_out (fst s')) \<noteq> [])"
  using conn_run_stream [OF assms(1,3,4)] assms(2) by (auto simp: conn_inv_def conn_stream_def)

theorem connection_output_is_a_stream_witness:
  "\<exists>s'. conn_run [Op_Send ''abc'' (Wrote 1), Op_Send ''de'' (Write_Error EAGAIN),
                   Op_Writable (Wrote 2), Op_Shutdown, Op_Send ''x'' (Wrote 1)] fresh_conn = Inr s'
     \<and> c_sent (fst s') @ buf_content (c_out (fst s')) = ''abcde''"
  using connection_output_is_a_stream [OF fresh_conn_ok(1,2), of
      "[Op_Send ''abc'' (Wrote 1), Op_Send ''de'' (Write_Error EAGAIN),
        Op_Writable (Wrote 2), Op_Shutdown, Op_Send ''x'' (Wrote 1)]"] fresh_conn_ok
  by (auto simp: errno_defs vector_max_def)



text \<open>C21: Draining: once no more is sent, every writable event in which the kernel accepts at least
  one byte shortens the output buffer, so as many events as there are buffered bytes empty it and
  stop the watching for output.\<close>
theorem writable_events_drain:
  assumes "conn_inv s" and "length (buf_content (c_out (fst s))) \<le> length ns" and "\<forall>n\<in>set ns. 0 < n"
  shows "buf_content (c_out (fst (fold (\<lambda>n. handleWrite (Wrote n)) ns s))) = []
    \<and> \<not> conn_writing (fold (\<lambda>n. handleWrite (Wrote n)) ns s)"
  using assms
proof (induction ns arbitrary: s)
  case Nil
  then show ?case by (simp add: conn_inv_def)
next
  case (Cons n ns)
  let ?s = "handleWrite (Wrote n) s"
  have "length (buf_content (c_out (fst ?s))) \<le> length ns"
  proof (cases "conn_writing s")
    case True
    then have "buf_content (c_out (fst ?s)) = drop n (buf_content (c_out (fst s)))"
      using Cons.prems by (auto simp: handleWrite_def buf_writeFd_def Let_def conn_inv_def
          buf_retrieve_content)
    with Cons.prems show ?thesis by auto
  next
    case False
    with Cons.prems have "buf_content (c_out (fst s)) = []" by (auto simp: conn_inv_def)
    with False show ?thesis by (simp add: handleWrite_def)
  qed
  with Cons.IH [OF handleWrite_inv(1) [OF Cons.prems(1)]] Cons.prems show ?case by simp
qed

theorem writable_events_drain_witness:
  "buf_content (c_out (fst (fold (\<lambda>n. handleWrite (Wrote n)) [1, 2] fresh_conn))) = []"
  using writable_events_drain [OF fresh_conn_ok(1), of "[1, 2]"] fresh_conn_ok by simp

section \<open>Closing and the poller\<close>

lemma disableAll_keeps_channel:
  assumes "poller_inv S l" and "c \<in> S"
  shows "poller_hasChannel c (disableAll c l)"
  using poller_inv_at [OF assms] by (auto simp: poller_hasChannel_def disableAll_def channel_update_def
      poller_updateChannel_def poller_update_def Let_def chan_agrees_def index_defs)

text \<open>The close path never takes the channel out of the poller: after \<open>handleClose\<close> and the
  \<open>connectDestroted\<close> that follows it the state is \<open>kDisconnected\<close>, so \<open>connectDestroted\<close> does
  nothing, and the poller's map still holds the pointer to the channel that is destroyed with the
  connection.\<close>

lemma closed_connection_stays_in_poller:
  assumes "poller_inv S (snd s)" and "c_channel (fst s) \<in> S"
  shows "poller_hasChannel (c_channel (fst s))
      (snd (connectDestroted (\<lambda>_. id) (handleClose (\<lambda>_. id) s)))"
  using disableAll_keeps_channel [OF assms]
  by (simp add: handleClose_def connectDestroted_def Let_def)

lemma closed_connection_stays_in_poller_witness:
  "poller_hasChannel 1 (snd (connectDestroted (\<lambda>_. id) (handleClose (\<lambda>_. id)
     (TcpConnection_new 0 ''c'' 1 5 (reactor.extend (reactor_new (\<lambda>_. 5))
        (event_loop.fields False False 42 0 0 False []))))))"
proof -
  let ?l = "reactor.extend (reactor_new (\<lambda>_. 5)) (event_loop.fields False False 42 0 0 False [])
    :: conn_functor event_loop"
  let ?s = "TcpConnection_new 0 ''c'' 1 5 ?l"
  have "poller_inv {1} (snd ?s)"
    by (simp add: poller_inv_def chan_agrees_def TcpConnection_new_def reactor_new_def
        reactor.extend_def Channel_new_def index_defs interest_def)
  then show ?thesis
    using closed_connection_stays_in_poller [of "{1}" ?s] by (simp add: TcpConnection_new_def)
qed

section \<open>Reading\<close>

lemma handleRead_message:
  assumes "conn_inv s" and "d \<noteq> []" and "length d \<le> readv_capacity (c_in (fst s))"
    and "length (buf_data (c_in (fst s))) + extrabuf_size \<le> vector_max"
  obtains b where "handleRead user message (Read_Bytes d) s = message (on_conn (c_in_update (\<lambda>_. b)) s)"
    "buf_content b = buf_content (c_in (fst s)) @ d" "buf_inv b"
    "length (buf_data b) \<le> length (buf_data (c_in (fst s))) + (length d - writableBytes (c_in (fst s)))"
proof -
  have inv: "buf_inv (c_in (fst s))" using assms(1) by (simp add: conn_inv_def)
  then obtain b where b: "buf_readFd (Read_Bytes d) (c_in (fst s)) = Inr (int (length d), None, b)" "buf_inv b"
    "buf_content b = buf_content (c_in (fst s)) @ d"
    using buf_readFd_deliver [OF _ assms(3,4)] by blast
  moreover have "handleRead user message (Read_Bytes d) s = message (on_conn (c_in_update (\<lambda>_. b)) s)"
    using b(1) assms(2) by (simp add: handleRead_def Let_def)
  ultimately show ?thesis using that buf_readFd_length [OF inv b(1)] by blast
qed

lemma handleRead_eof:
  assumes "buf_inv (c_in (fst s))"
  shows "handleRead user message (Read_Bytes []) s = Inr (handleClose user s)"
proof -
  have "buf_readFd (Read_Bytes []) (c_in (fst s)) = Inr (0, None, c_in (fst s))"
    using assms by (simp add: buf_readFd_def overwrite_def sz_add_exact buf_inv_def vector_max_def)
  moreover have "on_conn (c_in_update (\<lambda>_. c_in (fst s))) s = s" by (cases s) simp
  ultimately show ?thesis by (simp add: handleRead_def Let_def)
qed

lemma handleRead_error: "handleRead user message (Read_Error e) s = Inr s"
proof -
  have "on_conn (c_in_update (\<lambda>_. c_in (fst s))) s = s" by (cases s) simp
  then show ?thesis by (simp add: handleRead_def buf_readFd_def handleError_def Let_def)
qed

end
