(* ===== verification/Muduo_Server.thy ===== *)
theory Muduo_Server
  imports Muduo_TcpConnection
begin

text \<open>
  \<open>Thread\<close>, \<open>EventLoopThreadPool\<close>, \<open>Acceptor\<close> and \<open>TcpServer\<close> of muduo-mgkl
  (Thread.hpp/cpp, EventLoopThreadPool.hpp/cpp, Acceptor.hpp/cpp, TcpServer.hpp/cpp). The world
  holds the server's fields, the event loops and the connection objects; a functor that is
  dispatched to a loop runs at once in that loop's thread and is queued otherwise.
\<close>

section \<open>Thread\<close>

text \<open>
  \<open>t_handle\<close> says whether the \<open>std::thread\<close> object still owns a running thread; destroying it
  in that state would terminate the program.
\<close>

record thread =
  t_started :: bool
  t_joined :: bool
  t_handle :: bool
  t_tid :: int
  t_name :: string

definition Thread_new :: "string \<Rightarrow> thread" where
  "Thread_new name = \<lparr>t_started = False, t_joined = False, t_handle = False, t_tid = 0, t_name = name\<rparr>"

definition Thread_start :: "int \<Rightarrow> thread \<Rightarrow> thread" where
  "Thread_start tid t = t\<lparr>t_started := True, t_handle := True, t_tid := tid\<rparr>"

definition Thread_join :: "thread \<Rightarrow> thread" where
  "Thread_join t = t\<lparr>t_joined := True, t_handle := False\<rparr>"

definition Thread_destroy :: "thread \<Rightarrow> thread" where
  "Thread_destroy t = (if t_started t \<and> \<not> t_joined t then t\<lparr>t_handle := False\<rparr> else t)"

definition setDefaultName :: "nat \<Rightarrow> thread \<Rightarrow> nat \<times> thread" where
  "setDefaultName numCreated t =
     (let num = Suc numCreated
      in (num, if t_name t = [] then t\<lparr>t_name := snprintf 32 (''Thread'' @ dec num)\<rparr> else t))"

datatype thread_op = T_Start int | T_Join

fun thread_step :: "thread_op \<Rightarrow> thread \<Rightarrow> thread" where
  "thread_step (T_Start tid) t = Thread_start tid t"
| "thread_step T_Join t = Thread_join t"

lemma Thread_destroy_safe:
  "\<not> t_handle (Thread_destroy (Thread_start tid (Thread_new n)))"
  "\<not> t_handle (Thread_destroy (Thread_join (Thread_start tid (Thread_new n))))"
  "\<not> t_handle (Thread_destroy (Thread_new n))"
  by (simp_all add: Thread_destroy_def Thread_start_def Thread_join_def Thread_new_def)

section \<open>EventLoopThreadPool\<close>

type_synonym loop_id = nat

record pool =
  p_baseLoop :: loop_id
  p_name :: string
  p_started :: bool
  p_numThreads :: int
  p_next :: nat
  p_threads :: "string list"
  p_loops :: "loop_id list"

definition pool_new :: "loop_id \<Rightarrow> string \<Rightarrow> pool" where
  "pool_new base name = \<lparr>p_baseLoop = base, p_name = name, p_started = False, p_numThreads = 0,
     p_next = 0, p_threads = [], p_loops = []\<rparr>"

definition pool_setThreadNum :: "int \<Rightarrow> pool \<Rightarrow> pool" where
  "pool_setThreadNum n p = p\<lparr>p_numThreads := n\<rparr>"

text \<open>
  \<open>startLoop\<close> of the \<open>i\<close>th thread returns the loop \<open>loop_of i\<close> that lives on its stack, after the
  thread has called \<open>cb\<close> on it. The second result lists the loops \<open>cb\<close> was called with.
\<close>

definition pool_start :: "(nat \<Rightarrow> loop_id) \<Rightarrow> bool \<Rightarrow> pool \<Rightarrow> pool \<times> loop_id list" where
  "pool_start loop_of has_cb p =
     (let n = nat (p_numThreads p);
          p1 = p\<lparr>p_started := True,
                 p_threads := p_threads p @
                   map (\<lambda>i. snprintf (length (p_name p) + 32) (p_name p @ dec i)) [0..<n],
                 p_loops := p_loops p @ map loop_of [0..<n]\<rparr>
      in (p1, if has_cb then (if p_numThreads p = 0 then [p_baseLoop p] else map loop_of [0..<n])
              else []))"

definition getNextLoop :: "pool \<Rightarrow> loop_id \<times> pool" where
  "getNextLoop p =
     (if p_loops p \<noteq> []
      then (let loop = p_loops p ! p_next p; nxt = Suc (p_next p)
            in (loop, p\<lparr>p_next := (if length (p_loops p) \<le> nxt then 0 else nxt)\<rparr>))
      else (p_baseLoop p, p))"

definition getAllLoops :: "pool \<Rightarrow> loop_id list" where
  "getAllLoops p = (if p_loops p = [] then [p_baseLoop p] else p_loops p)"

fun next_loops :: "nat \<Rightarrow> pool \<Rightarrow> loop_id list" where
  "next_loops 0 p = []"
| "next_loops (Suc k) p = (let (l, p') = getNextLoop p in l # next_loops k p')"

lemma next_loops_round_robin:
  assumes "p_next p < length (p_loops p)"
  shows "next_loops k p = map (\<lambda>i. p_loops p ! ((p_next p + i) mod length (p_loops p))) [0..<k]"
  using assms
proof (induction k arbitrary: p)
  case 0
  then show ?case by simp
next
  case (Suc k)
  let ?n = "length (p_loops p)"
  let ?p = "snd (getNextLoop p)"
  have p: "p_loops ?p = p_loops p" "p_next ?p = Suc (p_next p) mod ?n" "fst (getNextLoop p) = p_loops p ! p_next p"
    using Suc.prems by (auto simp: getNextLoop_def Let_def mod_if dest: le_antisym)
  have "p_next ?p < length (p_loops ?p)"
    using p Suc.prems by (metis mod_less_divisor less_nat_zero_code gr_zeroI)
  then have "next_loops k ?p = map (\<lambda>i. p_loops p ! ((Suc (p_next p) mod ?n + i) mod ?n)) [0..<k]"
    using Suc.IH [of ?p] by (simp only: p)
  also have "\<dots> = map (\<lambda>i. p_loops p ! ((p_next p + Suc i) mod ?n)) [0..<k]"
    by (simp add: mod_add_left_eq)
  finally show ?case
    using p Suc.prems
    by (simp add: case_prod_unfold Let_def upt_conv_Cons map_Suc_upt [symmetric] del: upt_Suc)
qed

text \<open>Round robin: after the pool has started \<open>n\<close> loops, the \<open>k\<close>th call of \<open>getNextLoop\<close> returns
  the loop of thread \<open>k mod n\<close>, so \<open>n\<close> calls in a row use every loop exactly once.\<close>

lemma pool_round_robin:
  assumes "0 < n"
  shows "next_loops k (fst (pool_start loop_of cb (pool_setThreadNum (int n) (pool_new base name))))
    = map (\<lambda>i. loop_of (i mod n)) [0..<k]"
  using assms
  by (subst next_loops_round_robin) (auto simp: pool_start_def pool_setThreadNum_def pool_new_def Let_def)

lemma pool_round_robin_witness:
  "next_loops 5 (fst (pool_start (\<lambda>i. i + 10) True (pool_setThreadNum 3 (pool_new 0 ''p''))))
     = [10, 11, 12, 10, 11]"
  using pool_round_robin [of 3 5 "\<lambda>i. i + 10" True 0 "''p''"] by (simp add: upt_rec)

lemma pool_without_threads:
  "getNextLoop (fst (pool_start loop_of cb (pool_new base name))) =
     (base, fst (pool_start loop_of cb (pool_new base name)))"
  by (simp add: getNextLoop_def pool_start_def pool_new_def Let_def)

section \<open>The world of a server\<close>

record world =
  w_base :: loop_id
  w_ipPort :: string
  w_name :: string
  w_pool :: pool
  w_threadInit :: bool
  w_has_writeComplete :: bool
  w_nextConnId :: int
  w_started :: int
  w_connections :: "string \<rightharpoonup> conn_id"
  w_listenning :: bool
  w_acceptChannel :: chan_id
  w_loop :: "loop_id \<Rightarrow> conn_functor event_loop"
  w_conn :: "conn_id \<Rightarrow> conn"
  w_owner :: "conn_id \<Rightarrow> loop_id"
  w_objects :: nat
  w_closed_fds :: "int list"

abbreviation upd_loop ::
  "loop_id \<Rightarrow> (conn_functor event_loop \<Rightarrow> conn_functor event_loop) \<Rightarrow> world \<Rightarrow> world" where
  "upd_loop i f w \<equiv> w\<lparr>w_loop := (w_loop w)(i := f (w_loop w i))\<rparr>"

definition conn_io :: "conn_id \<Rightarrow> world \<Rightarrow> io" where
  "conn_io c w = (w_conn w c, w_loop w (w_owner w c))"

definition put_io :: "conn_id \<Rightarrow> io \<Rightarrow> world \<Rightarrow> world" where
  "put_io c s w = w\<lparr>w_conn := (w_conn w)(c := fst s),
                    w_loop := (w_loop w)(w_owner w c := snd s)\<rparr>"

text \<open>
  The socket the constructor of \<open>Acceptor\<close> opens: its options are set to \<open>true\<close> whatever
  \<open>reuseport\<close> says.
\<close>

definition acceptor_options :: "bool \<Rightarrow> bool \<times> bool" where
  "acceptor_options reuseport = (let reuseAddr = True; reusePort = True in (reuseAddr, reusePort))"

text \<open>
  \<open>TcpServer\<close>'s constructor: the acceptor's channel \<open>ch\<close> for the listening descriptor is created
  in the base loop, with a read callback and nothing enabled.
\<close>

definition TcpServer_new ::
  "loop_id \<Rightarrow> string \<Rightarrow> string \<Rightarrow> chan_id \<Rightarrow> int \<Rightarrow> (loop_id \<Rightarrow> conn_functor event_loop) \<Rightarrow>
   (conn_id \<Rightarrow> conn) \<Rightarrow> world" where
  "TcpServer_new base ipPort name ch fd loops conns =
     \<lparr>w_base = base, w_ipPort = ipPort, w_name = name, w_pool = pool_new base name,
      w_threadInit = False, w_has_writeComplete = False, w_nextConnId = 1, w_started = 0, w_connections = Map.empty,
      w_listenning = False, w_acceptChannel = ch,
      w_loop = loops(base := (loops base)
        \<lparr>r_chan := (r_chan (loops base))(ch := (Channel_new fd)\<lparr>has_readCallback := True\<rparr>)\<rparr>),
      w_conn = conns, w_owner = (\<lambda>_. base), w_objects = 0, w_closed_fds = []\<rparr>"

definition server_setWriteCompleteCallback :: "bool \<Rightarrow> world \<Rightarrow> world" where
  "server_setWriteCompleteCallback cb w = w\<lparr>w_has_writeComplete := cb\<rparr>"

definition server_setThreadNum :: "int \<Rightarrow> world \<Rightarrow> world" where
  "server_setThreadNum n w = w\<lparr>w_pool := pool_setThreadNum n (w_pool w)\<rparr>"

definition acceptor_listen :: "world \<Rightarrow> world" where
  "acceptor_listen w = upd_loop (w_base w) (enableReading (w_acceptChannel w)) (w\<lparr>w_listenning := True\<rparr>)"

definition acceptor_destroy :: "world \<Rightarrow> world" where
  "acceptor_destroy w =
     upd_loop (w_base w) (\<lambda>l. channel_remove (w_acceptChannel w) (disableAll (w_acceptChannel w) l)) w"

definition removeConnectionInLoop :: "int \<Rightarrow> conn_id \<Rightarrow> world \<Rightarrow> world" where
  "removeConnectionInLoop tid c w =
     (let w1 = w\<lparr>w_connections := (w_connections w)(c_name (w_conn w c) := None)\<rparr>
      in upd_loop (w_owner w1 c) (queueInLoop tid (Connect_Destroyed c)) w1)"

text \<open>
  What the functors of a server do when they run; \<open>user\<close> are the user's callbacks. The two functors that write to a
  socket are run by \<open>run_io_functor\<close>, with the answer of \<open>write\<close> or \<open>sendfile\<close>.
\<close>

fun run_functor :: "(user_event \<Rightarrow> io \<Rightarrow> io) \<Rightarrow> int \<Rightarrow> conn_functor \<Rightarrow> world \<Rightarrow> world" where
  "run_functor user tid (Connect_Established c) w = put_io c (connectEstablished user (conn_io c w)) w"
| "run_functor user tid (Connect_Destroyed c) w = put_io c (connectDestroted user (conn_io c w)) w"
| "run_functor user tid (Shutdown_In_Loop c) w = put_io c (shutdownInLoop (conn_io c w)) w"
| "run_functor user tid (Remove_Connection_In_Loop c) w = removeConnectionInLoop tid c w"
| "run_functor user tid Acceptor_Listen w = acceptor_listen w"
| "run_functor user tid (Write_Complete c) w = put_io c (user On_Write_Complete (conn_io c w)) w"
| "run_functor user tid (High_Water_Mark c n) w = put_io c (user (On_High_Water_Mark n) (conn_io c w)) w"
| "run_functor user tid (Send_In_Loop c d) w = w"
| "run_functor user tid (Send_File_In_Loop c fd offset cnt) w = w"

fun run_io_functor ::
  "(user_event \<Rightarrow> io \<Rightarrow> io) \<Rightarrow> int \<Rightarrow> write_result \<Rightarrow> conn_functor \<Rightarrow> world \<Rightarrow> world res" where
  "run_io_functor user tid a (Send_In_Loop c d) w =
     res_bind (sendInLoop a d (conn_io c w)) (\<lambda>s. Inr (put_io c s w))"
| "run_io_functor user tid a (Send_File_In_Loop c fd offset cnt) w =
     Inr (put_io c (sendFileInLoop a fd offset cnt (conn_io c w)) w)"
| "run_io_functor user tid a f w = Inr (run_functor user tid f w)"

definition dispatch :: "(user_event \<Rightarrow> io \<Rightarrow> io) \<Rightarrow> int \<Rightarrow> loop_id \<Rightarrow> conn_functor \<Rightarrow> world \<Rightarrow> world" where
  "dispatch user tid i f w =
     (if isInLoopThread tid (w_loop w i) then run_functor user tid f w
      else upd_loop i (queueInLoop tid f) w)"

definition server_start ::
  "(user_event \<Rightarrow> io \<Rightarrow> io) \<Rightarrow> (nat \<Rightarrow> loop_id) \<Rightarrow> int \<Rightarrow> world \<Rightarrow> world" where
  "server_start user loop_of tid w =
     (let w1 = w\<lparr>w_started := w_started w + 1\<rparr>
      in if w_started w = 0
         then (let (p, inits) = pool_start loop_of (w_threadInit w1) (w_pool w1)
               in dispatch user tid (w_base w1) Acceptor_Listen (w1\<lparr>w_pool := p\<rparr>))
         else w1)"

text \<open>
  \<open>newConnection\<close> names the connection after a counter of type \<open>int\<close>; incrementing it past
  \<open>INT_MAX\<close> is undefined.
\<close>

definition conn_name_of :: "string \<Rightarrow> string \<Rightarrow> nat \<Rightarrow> string" where
  "conn_name_of name ipPort n = name @ snprintf 64 (''-'' @ ipPort @ ''#'' @ dec n)"

definition newConnection ::
  "(user_event \<Rightarrow> io \<Rightarrow> io) \<Rightarrow> int \<Rightarrow> int \<Rightarrow> chan_id \<Rightarrow> world \<Rightarrow> world res" where
  "newConnection user tid sockfd ch w =
     (if w_nextConnId w = INT_MAX then Inl Undefined
      else (let (ioLoop, p) = getNextLoop (w_pool w);
                connName = conn_name_of (w_name w) (w_ipPort w) (nat (w_nextConnId w));
                c = w_objects w;
                (conn, l) = TcpConnection_new c connName ch sockfd (w_loop w ioLoop);
                w1 = w\<lparr>w_pool := p, w_nextConnId := w_nextConnId w + 1, w_objects := Suc c,
                       w_owner := (w_owner w)(c := ioLoop), w_conn := (w_conn w)(c := setWriteCompleteCallback (w_has_writeComplete w) conn),
                       w_loop := (w_loop w)(ioLoop := l),
                       w_connections := (w_connections w)(connName \<mapsto> c)\<rparr>
            in Inr (dispatch user tid ioLoop (Connect_Established c) w1)))"

text \<open>The answer of \<open>accept4\<close> is a descriptor or an error number.\<close>

definition acceptor_handleRead ::
  "(user_event \<Rightarrow> io \<Rightarrow> io) \<Rightarrow> bool \<Rightarrow> int \<Rightarrow> int \<Rightarrow> chan_id \<Rightarrow> world \<Rightarrow> world res" where
  "acceptor_handleRead user has_cb tid connfd ch w =
     (if 0 \<le> connfd
      then if has_cb then newConnection user tid connfd ch w
           else Inr (w\<lparr>w_closed_fds := w_closed_fds w @ [connfd]\<rparr>)
      else Inr w)"

definition removeConnection :: "(user_event \<Rightarrow> io \<Rightarrow> io) \<Rightarrow> int \<Rightarrow> conn_id \<Rightarrow> world \<Rightarrow> world" where
  "removeConnection user tid c w = dispatch user tid (w_base w) (Remove_Connection_In_Loop c) w"

text \<open>
  A connection's \<open>handleClose\<close> in a server: its last statement is the close callback, which
  \<open>newConnection\<close> has bound to \<open>removeConnection\<close>.
\<close>

definition server_handleClose :: "(user_event \<Rightarrow> io \<Rightarrow> io) \<Rightarrow> int \<Rightarrow> conn_id \<Rightarrow> world \<Rightarrow> world" where
  "server_handleClose user tid c w =
     removeConnection user tid c
       (put_io c (handleClose (\<lambda>e. if e = On_Close then id else user e) (conn_io c w)) w)"

definition server_destroy :: "(user_event \<Rightarrow> io \<Rightarrow> io) \<Rightarrow> int \<Rightarrow> string list \<Rightarrow> world \<Rightarrow> world" where
  "server_destroy user tid names w =
     fold (\<lambda>n w. case w_connections w n of
              Some c \<Rightarrow> dispatch user tid (w_owner w c) (Connect_Destroyed c) w
            | None \<Rightarrow> w) names w"


section \<open>Connection names\<close>

lemma conn_name_inj:
  assumes "length ip \<le> 40" and "j < 2 ^ 31" and "k < 2 ^ 31"
  shows "conn_name_of a ip j = conn_name_of a ip k \<longleftrightarrow> j = k"
proof -
  have short: "length (''-'' @ ip @ ''#'' @ dec n) \<le> 63" if "n < 2 ^ 31" for n
    using assms(1) length_dec [of n 9] that by simp
  show ?thesis
    using short [OF assms(2)] short [OF assms(3)]
    by (simp add: conn_name_of_def snprintf_def dec_inj)
qed

definition names_inv :: "world \<Rightarrow> bool" where
  "names_inv w \<longleftrightarrow>
     (\<forall>n c. w_connections w n = Some c \<longrightarrow> c < w_objects w \<and> c_name (w_conn w c) = n) \<and>
     (\<forall>c < w_objects w. \<exists>k. int k < w_nextConnId w \<and>
        c_name (w_conn w c) = conn_name_of (w_name w) (w_ipPort w) k) \<and>
     1 \<le> w_nextConnId w \<and> w_nextConnId w \<le> INT_MAX"

lemma names_inv_new: "names_inv (TcpServer_new base ip name ch fd loops conns)"
  by (simp add: names_inv_def TcpServer_new_def INT_MAX_def)

text \<open>User callbacks do not rename connections.\<close>

definition keeps_name :: "(user_event \<Rightarrow> io \<Rightarrow> io) \<Rightarrow> bool" where
  "keeps_name user \<longleftrightarrow> (\<forall>e s. c_name (fst (user e s)) = c_name (fst s))"

lemma keeps_nameD: "keeps_name user \<Longrightarrow> c_name (fst (user e s)) = c_name (fst s)"
  by (cases s) (simp add: keeps_name_def)

lemma names_inv_drop:
  assumes "names_inv w"
  shows "names_inv (w\<lparr>w_connections := (w_connections w)(n := None)\<rparr>)"
proof -
  have "c < w_objects w \<and> c_name (w_conn w c) = m" if "((w_connections w)(n := None)) m = Some c" for m c
    using assms that by (cases "m = n") (simp_all add: names_inv_def)
  with assms show ?thesis by (simp add: names_inv_def)
qed

lemma put_io_names:
  "c_name (fst s) = c_name (w_conn w c) \<Longrightarrow> names_inv (put_io c s w) = names_inv w"
proof -
  assume "c_name (fst s) = c_name (w_conn w c)"
  then have "c_name (w_conn (put_io c s w) d) = c_name (w_conn w d)" for d
    by (simp add: put_io_def)
  moreover have "w_connections (put_io c s w) = w_connections w" "w_objects (put_io c s w) = w_objects w"
    "w_nextConnId (put_io c s w) = w_nextConnId w" "w_name (put_io c s w) = w_name w"
    "w_ipPort (put_io c s w) = w_ipPort w"
    by (simp_all add: put_io_def)
  ultimately show ?thesis by (simp add: names_inv_def)
qed

lemma upd_loop_names [simp]: "names_inv (upd_loop i f w) = names_inv w"
  by (simp add: names_inv_def)

lemma handler_names:
  assumes user: "keeps_name user"
  shows "c_name (fst (connectEstablished user s)) = c_name (fst s)"
    "c_name (fst (connectDestroted user s)) = c_name (fst s)"
    "c_name (fst (handleClose user s)) = c_name (fst s)"
    "c_name (fst (shutdownInLoop s)) = c_name (fst s)"
  by (simp_all add: connectEstablished_def connectDestroted_def handleClose_def shutdownInLoop_def
      Let_def keeps_nameD [OF user])

lemma conn_io_name [simp]: "c_name (fst (conn_io c w)) = c_name (w_conn w c)"
  by (simp add: conn_io_def)

lemma run_functor_names:
  assumes "keeps_name user" and "names_inv w"
  shows "names_inv (run_functor user tid f w)"
proof (cases f)
  case (Remove_Connection_In_Loop c)
  then show ?thesis
    using names_inv_drop [OF assms(2), of "c_name (w_conn w c)"]
    by (simp only: run_functor.simps removeConnectionInLoop_def Let_def upd_loop_names)
next
  case Acceptor_Listen
  have "names_inv (w\<lparr>w_listenning := True\<rparr>)" using assms(2) by (simp add: names_inv_def)
  with Acceptor_Listen show ?thesis
    by (simp only: run_functor.simps acceptor_listen_def upd_loop_names)
qed (use assms(2) in \<open>simp_all add: put_io_names handler_names [OF assms(1)] keeps_nameD [OF assms(1)]\<close>)

lemma sendInLoop_name:
  assumes "sendInLoop a d s = Inr t"
  shows "c_name (fst t) = c_name (fst s)"
proof -
  obtain n k f u where u: "sendInLoop_write a d s = Inr (n, k, f, u)" "sendInLoop_buffer d (n, k, f, u) = Inr t"
    using assms by (auto simp: sendInLoop_def)
  have "c_name (fst u) = c_name (fst s)"
    using u(1) by (auto simp: sendInLoop_write_def Let_def split: if_splits write_result.splits)
  moreover have "c_name (fst t) = c_name (fst u)"
    using u(2) by (auto simp: sendInLoop_buffer_def Let_def split: if_splits)
  ultimately show ?thesis by simp
qed

lemma sendFileInLoop_fst: "fst (sendFileInLoop a fd offset cnt s) = fst s"
  by (auto simp: sendFileInLoop_def Let_def split: write_result.splits)

lemma run_io_functor_names:
  assumes "keeps_name user" and "names_inv w" and "run_io_functor user tid a f w = Inr w'"
  shows "names_inv w'"
proof (cases f)
  case (Send_In_Loop c d)
  with assms(3) obtain s where "sendInLoop a d (conn_io c w) = Inr s" "w' = put_io c s w" by auto
  with assms(2) sendInLoop_name [of a d "conn_io c w" s] show ?thesis by (simp add: put_io_names)
qed (use assms in \<open>auto simp: put_io_names sendFileInLoop_fst run_functor_names simp del: run_functor.simps\<close>)

lemma dispatch_names:
  "keeps_name user \<Longrightarrow> names_inv w \<Longrightarrow> names_inv (dispatch user tid i f w)"
  by (simp add: dispatch_def run_functor_names)

lemma newConnection_fresh:
  assumes inv: "names_inv w" and short: "length (w_ipPort w) \<le> 40"
  shows "conn_name_of (w_name w) (w_ipPort w) (nat (w_nextConnId w)) \<notin> dom (w_connections w)"
proof
  let ?n = "conn_name_of (w_name w) (w_ipPort w) (nat (w_nextConnId w))"
  assume "?n \<in> dom (w_connections w)"
  then obtain c where "w_connections w ?n = Some c" by auto
  with inv have c: "c < w_objects w" "c_name (w_conn w c) = ?n" by (auto simp: names_inv_def)
  from inv have "\<forall>c < w_objects w. \<exists>k. int k < w_nextConnId w \<and>
      c_name (w_conn w c) = conn_name_of (w_name w) (w_ipPort w) k"
    by (simp add: names_inv_def)
  with c obtain k where k: "int k < w_nextConnId w" "?n = conn_name_of (w_name w) (w_ipPort w) k"
    by metis
  have lt: "nat (w_nextConnId w) < 2 ^ 31" "k < 2 ^ 31"
    using inv k(1) by (auto simp: names_inv_def INT_MAX_def)
  have "nat (w_nextConnId w) = k" using conn_name_inj [OF short lt] k(2) by simp
  with k(1) show False by simp
qed

lemma newConnection_names:
  assumes "keeps_name user" and inv: "names_inv w" and new: "newConnection user tid fd ch w = Inr w'"
  shows "names_inv w'"
proof -
  let ?n = "conn_name_of (w_name w) (w_ipPort w) (nat (w_nextConnId w))"
  obtain i p where ip: "getNextLoop (w_pool w) = (i, p)" by fastforce
  obtain conn0 l where cl: "TcpConnection_new (w_objects w) ?n ch fd (w_loop w i) = (conn0, l)" by fastforce
  define conn where "conn = setWriteCompleteCallback (w_has_writeComplete w) conn0"
  from cl have name: "c_name conn = ?n" by (auto simp: TcpConnection_new_def conn_def setWriteCompleteCallback_def)
  define w1 where "w1 = w\<lparr>w_pool := p, w_nextConnId := w_nextConnId w + 1, w_objects := Suc (w_objects w),
     w_owner := (w_owner w)(w_objects w := i), w_conn := (w_conn w)(w_objects w := conn),
     w_loop := (w_loop w)(i := l), w_connections := (w_connections w)(?n \<mapsto> w_objects w)\<rparr>"
  have bound: "1 \<le> w_nextConnId w1" "w_nextConnId w1 \<le> INT_MAX"
    using inv new by (simp_all add: names_inv_def w1_def newConnection_def split: if_splits)
  have map: "c < w_objects w1 \<and> c_name (w_conn w1 c) = n" if "w_connections w1 n = Some c" for n c
  proof (cases "n = ?n")
    case True
    with that name show ?thesis by (simp add: w1_def)
  next
    case False
    with that have "w_connections w n = Some c" by (simp add: w1_def)
    with inv have "c < w_objects w" "c_name (w_conn w c) = n" unfolding names_inv_def by blast+
    then show ?thesis by (simp add: w1_def)
  qed
  have obj: "\<exists>k. int k < w_nextConnId w1 \<and> c_name (w_conn w1 c) = conn_name_of (w_name w1) (w_ipPort w1) k"
    if "c < w_objects w1" for c
  proof (cases "c = w_objects w")
    case True
    with name inv show ?thesis
      by (intro exI [of _ "nat (w_nextConnId w)"]) (simp add: w1_def names_inv_def)
  next
    case False
    with that have "c < w_objects w" by (simp add: w1_def)
    with inv obtain k where "int k < w_nextConnId w"
      "c_name (w_conn w c) = conn_name_of (w_name w) (w_ipPort w) k" unfolding names_inv_def by blast
    with False show ?thesis by (intro exI [of _ k]) (simp add: w1_def)
  qed
  have "names_inv w1" unfolding names_inv_def using bound map obj by blast
  moreover have "w' = dispatch user tid i (Connect_Established (w_objects w)) w1"
    using new ip cl by (simp add: newConnection_def w1_def conn_def Let_def split: if_splits)
  ultimately show ?thesis using dispatch_names [OF assms(1)] by simp
qed

lemma handleClose_names:
  assumes "keeps_name user" and "names_inv w"
  shows "names_inv (server_handleClose user tid c w)"
proof -
  have user: "keeps_name (\<lambda>e. if e = On_Close then id else user e)"
    using assms(1) by (simp add: keeps_name_def)
  have "names_inv (put_io c (handleClose (\<lambda>e. if e = On_Close then id else user e) (conn_io c w)) w)"
    using put_io_names [of "handleClose (\<lambda>e. if e = On_Close then id else user e) (conn_io c w)" w c]
      handler_names(3) [OF user, of "conn_io c w"] assms(2)
    by (simp only: conn_io_name)
  then show ?thesis
    unfolding server_handleClose_def removeConnection_def by (rule dispatch_names [OF assms(1)])
qed

section \<open>The server over time\<close>

datatype server_op = New int int chan_id | Close int conn_id | Run int write_result conn_functor

fun server_step :: "(user_event \<Rightarrow> io \<Rightarrow> io) \<Rightarrow> server_op \<Rightarrow> world \<Rightarrow> world res" where
  "server_step user (New tid fd ch) w = newConnection user tid fd ch w"
| "server_step user (Close tid c) w = Inr (server_handleClose user tid c w)"
| "server_step user (Run tid a f) w = run_io_functor user tid a f w"

fun server_run :: "(user_event \<Rightarrow> io \<Rightarrow> io) \<Rightarrow> server_op list \<Rightarrow> world \<Rightarrow> world res" where
  "server_run user [] w = Inr w"
| "server_run user (x # xs) w = res_bind (server_step user x w) (server_run user xs)"

lemma server_run_names:
  "keeps_name user \<Longrightarrow> names_inv w \<Longrightarrow> server_run user xs w = Inr w' \<Longrightarrow> names_inv w'"
proof (induction xs arbitrary: w)
  case Nil
  then show ?case by simp
next
  case (Cons x xs)
  then obtain w1 where w1: "server_step user x w = Inr w1" "server_run user xs w1 = Inr w'" by auto
  have "names_inv w1"
    using w1(1) Cons.prems(1,2)
    by (cases x) (auto intro: newConnection_names handleClose_names run_io_functor_names)
  with Cons.IH Cons.prems(1) w1(2) show ?case by blast
qed

lemma server_const:
  "w_name (dispatch user tid i f w) = w_name w" "w_ipPort (dispatch user tid i f w) = w_ipPort w"
  "w_name (run_functor user tid f w) = w_name w" "w_ipPort (run_functor user tid f w) = w_ipPort w"
  by (cases f; simp add: dispatch_def put_io_def removeConnectionInLoop_def acceptor_listen_def Let_def)+

lemma io_functor_const:
  "run_io_functor user tid a f w = Inr w' \<Longrightarrow> w_name w' = w_name w \<and> w_ipPort w' = w_ipPort w"
  by (cases f) (auto simp: put_io_def server_const simp del: run_functor.simps)

lemma server_counter [simp]:
  "w_nextConnId (put_io c s w) = w_nextConnId w"
  "w_nextConnId (run_functor user tid f w) = w_nextConnId w"
  "w_nextConnId (dispatch user tid i f w) = w_nextConnId w"
  "w_nextConnId (server_handleClose user tid c w) = w_nextConnId w"
  by (cases f; simp add: dispatch_def put_io_def removeConnectionInLoop_def acceptor_listen_def
      server_handleClose_def removeConnection_def Let_def)+

lemma newConnection_ok:
  "w_nextConnId w < INT_MAX \<Longrightarrow>
   \<exists>w'. newConnection user tid fd ch w = Inr w' \<and> w_nextConnId w' = w_nextConnId w + 1"
  by (simp add: newConnection_def Let_def split: prod.splits)

lemma server_run_const:
  "server_run user xs w = Inr w' \<Longrightarrow> w_name w' = w_name w \<and> w_ipPort w' = w_ipPort w"
proof (induction xs arbitrary: w)
  case Nil
  then show ?case by simp
next
  case (Cons x xs)
  then obtain w1 where w1: "server_step user x w = Inr w1" "server_run user xs w1 = Inr w'" by auto
  have "w_name w1 = w_name w \<and> w_ipPort w1 = w_ipPort w"
    using w1(1)
    by (cases x) (auto simp: newConnection_def server_handleClose_def removeConnection_def put_io_def
        server_const Let_def dest: io_functor_const split: if_splits prod.splits)
  with Cons.IH w1(2) show ?case by metis
qed

text \<open>C30: Connection names are never reused: after any sequence of accepted connections, closes and
  functor runs in any threads, every entry of the connection map is filed under its own connection's
  name, and the name the next connection will get is not in the map, so no live connection is ever
  overwritten.\<close>
theorem connection_names_unique:
  assumes "keeps_name user" and "length ip \<le> 40"
    and "server_run user xs (TcpServer_new base ip name ch fd loops conns) = Inr w"
  shows "(\<forall>n c. w_connections w n = Some c \<longrightarrow> c_name (w_conn w c) = n)
    \<and> conn_name_of name ip (nat (w_nextConnId w)) \<notin> dom (w_connections w)"
proof -
  have inv: "names_inv w" using server_run_names [OF assms(1) names_inv_new assms(3)] .
  have "w_name w = name \<and> w_ipPort w = ip"
    using server_run_const [OF assms(3)] by (simp add: TcpServer_new_def)
  with inv assms(2) newConnection_fresh [OF inv] show ?thesis by (auto simp: names_inv_def)
qed

text \<open>A server whose base loop lives in thread 1, used for the concrete runs.\<close>

definition demo_loop :: "conn_functor event_loop" where
  "demo_loop = EventLoop_new 1 0 (\<lambda>_. 9)"

definition demo_server :: world where
  "demo_server = TcpServer_new 0 ''h:80'' ''s'' 1 4 (\<lambda>_. demo_loop)
     (\<lambda>_. fst (TcpConnection_new 0 [] 0 0 demo_loop))"

lemma demo_tid [simp]: "l_threadId demo_loop = 1"
  by (simp add: demo_loop_def EventLoop_new_def enableReading_def channel_update_def
      poller_updateChannel_def poller_update_def Let_def)

theorem connection_names_unique_witness:
  "\<exists>w. server_run (\<lambda>_. id) [New 7 5 2, Close 7 0, New 7 6 3] demo_server = Inr w
     \<and> conn_name_of ''s'' ''h:80'' (nat (w_nextConnId w)) \<notin> dom (w_connections w)"
proof -
  obtain w1 where w1: "newConnection (\<lambda>_. id) 7 5 2 demo_server = Inr w1" "w_nextConnId w1 = 2"
    using newConnection_ok [of demo_server "\<lambda>_. id" 7 5 2]
    by (auto simp: demo_server_def TcpServer_new_def INT_MAX_def)
  obtain w2 where "newConnection (\<lambda>_. id) 7 6 3 (server_handleClose (\<lambda>_. id) 7 0 w1) = Inr w2"
    using newConnection_ok [of "server_handleClose (\<lambda>_. id) 7 0 w1" "\<lambda>_. id" 7 6 3] w1(2)
    by (auto simp: INT_MAX_def)
  with w1(1) have "\<exists>w. server_run (\<lambda>_. id) [New 7 5 2, Close 7 0, New 7 6 3] demo_server = Inr w" by simp
  then show ?thesis
    using connection_names_unique [of "\<lambda>_. id" "''h:80''"
        "[New 7 5 2, Close 7 0, New 7 6 3]" 0 "''s''" 1 4 "\<lambda>_. demo_loop"
        "\<lambda>_. fst (TcpConnection_new 0 [] 0 0 demo_loop)"]
    unfolding demo_server_def by (fastforce simp: keeps_name_def)
qed

text \<open>A closed connection leaves the server exactly once: in a server without worker threads,
  closing a connection from the base loop removes its own entry and nothing else from the map, and
  queues its \<open>connectDestroted\<close> once on its loop.\<close>

lemma close_removes_connection:
  assumes "isInLoopThread tid (w_loop w (w_base w))" and "w_owner w c = w_base w"
  shows "w_connections (server_handleClose (\<lambda>_. id) tid c w)
      = (w_connections w)(c_name (w_conn w c) := None)
    \<and> l_pending (w_loop (server_handleClose (\<lambda>_. id) tid c w) (w_base w))
      = l_pending (w_loop w (w_base w)) @ [Connect_Destroyed c]"
  using assms
  by (simp add: server_handleClose_def removeConnection_def dispatch_def removeConnectionInLoop_def
      put_io_def conn_io_def handleClose_def isInLoopThread_def disableAll_def channel_update_def Let_def)

lemma close_removes_connection_witness:
  "l_pending (w_loop (server_handleClose (\<lambda>_. id) 1 5 demo_server) 0)
     = l_pending (w_loop demo_server 0) @ [Connect_Destroyed 5]"
  using close_removes_connection [of 1 demo_server 5]
  by (simp add: demo_server_def TcpServer_new_def isInLoopThread_def)

text \<open>\<open>start()\<close> takes effect once: however often it is called, the pool is started and the
  acceptor told to listen only by the first call.\<close>

lemma server_start_once:
  assumes "w_started w = 0"
  shows "server_start user loop_of tid (server_start user loop_of tid w)
    = (server_start user loop_of tid w)\<lparr>w_started := 2\<rparr>"
  using assms
  by (simp add: server_start_def dispatch_def acceptor_listen_def Let_def split: prod.splits)

lemma server_start_once_witness:
  "server_start (\<lambda>_. id) Suc 1 (server_start (\<lambda>_. id) Suc 1 demo_server)
    = (server_start (\<lambda>_. id) Suc 1 demo_server)\<lparr>w_started := 2\<rparr>"
  using server_start_once [of demo_server] by (simp add: demo_server_def TcpServer_new_def)

end
