(* ===== verification/Muduo_Echo.thy ===== *)
theory Muduo_Echo
  imports Muduo_Server "HOL-Library.Sublist"
begin

text \<open>
  The echo server of muduo-mgkl/example/testserver.cpp: a \<open>TcpServer\<close> with three worker loops whose message callback
  takes everything out of the input buffer and sends it back. The server's connections share the loops, so the model is
  the \<open>world\<close> of \<open>Muduo_Server\<close>, and an event is what makes one of its handlers run: a connection to accept, a
  descriptor that is ready, a queued functor. The answers of \<open>accept4\<close>, \<open>readv\<close> and \<open>write\<close> come with the events. A
  channel's number names the object: two connections never have the same.
\<close>

section \<open>EchoServer\<close>

text \<open>\<open>onConnection\<close> only logs.\<close>

definition echo_onConnection :: "user_event \<Rightarrow> io \<Rightarrow> io" where
  "echo_onConnection e s = s"

definition echo_onMessage :: "write_result \<Rightarrow> io \<Rightarrow> io res" where
  "echo_onMessage a s =
     res_bind (buf_retrieveAllAsString (c_in (fst s)))
       (\<lambda>(msg, b). conn_send (l_threadId (snd s)) a msg (on_conn (c_in_update (\<lambda>_. b)) s))"

definition EchoServer_new ::
  "loop_id \<Rightarrow> string \<Rightarrow> string \<Rightarrow> chan_id \<Rightarrow> int \<Rightarrow> (loop_id \<Rightarrow> conn_functor event_loop) \<Rightarrow>
   (conn_id \<Rightarrow> conn) \<Rightarrow> world" where
  "EchoServer_new base ipPort name ch fd loops conns =
     server_setThreadNum 3 (TcpServer_new base ipPort name ch fd loops conns)"

definition EchoServer_start :: "(nat \<Rightarrow> loop_id) \<Rightarrow> int \<Rightarrow> world \<Rightarrow> world" where
  "EchoServer_start loop_of tid w = server_start echo_onConnection loop_of tid w"

section \<open>Events\<close>

datatype echo_event =
  Accept int chan_id
| Run_Functor int conn_functor
| Readable conn_id read_result write_result
| Writable conn_id write_result
| Hang_Up conn_id

text \<open>The read callback of a connection; at the end of file \<open>handleClose\<close> ends with \<open>removeConnection\<close>.\<close>

definition echo_readable :: "conn_id \<Rightarrow> read_result \<Rightarrow> write_result \<Rightarrow> world \<Rightarrow> world res" where
  "echo_readable c r a w =
     res_bind (handleRead echo_onConnection (echo_onMessage a) r (conn_io c w))
       (\<lambda>s. Inr (if r = Read_Bytes []
                 then removeConnection echo_onConnection (l_threadId (w_loop w (w_owner w c))) c (put_io c s w)
                 else put_io c s w))"

fun echo_step :: "echo_event \<Rightarrow> world \<Rightarrow> world res" where
  "echo_step (Accept connfd ch) w =
     acceptor_handleRead echo_onConnection True (l_threadId (w_loop w (w_base w))) connfd ch w"
| "echo_step (Run_Functor tid f) w = Inr (run_functor echo_onConnection tid f w)"
| "echo_step (Readable c r a) w = echo_readable c r a w"
| "echo_step (Writable c a) w = Inr (put_io c (handleWrite a (conn_io c w)) w)"
| "echo_step (Hang_Up c) w =
     Inr (server_handleClose echo_onConnection (l_threadId (w_loop w (w_owner w c))) c w)"

fun echo_run :: "echo_event list \<Rightarrow> world \<Rightarrow> world res" where
  "echo_run [] w = Inr w"
| "echo_run (e # es) w = res_bind (echo_step e w) (echo_run es)"

abbreviation conn_chan :: "conn_id \<Rightarrow> world \<Rightarrow> channel" where
  "conn_chan c w \<equiv> r_chan (w_loop w (w_owner w c)) (c_channel (w_conn w c))"

text \<open>
  When an event can happen: descriptors are read only while their channel watches for input, \<open>readv\<close> fills at most the
  room it was given and \<open>write\<close> does not answer that the connection is broken (\<open>echo_may\<close> below allows that too); \<open>connectEstablished\<close> runs once for a new connection, and
  the two functors of a close after it. The write callback may also come late, when the read callback that was called
  before it for the same event has closed the connection.
\<close>

fun echo_possible :: "echo_event \<Rightarrow> world \<Rightarrow> bool" where
  "echo_possible (Accept connfd ch) w \<longleftrightarrow>
     w_nextConnId w < INT_MAX \<and> ch \<noteq> w_acceptChannel w \<and>
     list_all (\<lambda>c. c_channel (w_conn w c) \<noteq> ch) [0..<w_objects w]"
| "echo_possible (Run_Functor tid (Connect_Established c)) w \<longleftrightarrow>
     c < w_objects w \<and> c_state (w_conn w c) = kConnecting"
| "echo_possible (Run_Functor tid (Remove_Connection_In_Loop c)) w \<longleftrightarrow>
     c < w_objects w \<and> c_state (w_conn w c) = kDisconnected"
| "echo_possible (Run_Functor tid (Connect_Destroyed c)) w \<longleftrightarrow>
     c < w_objects w \<and> c_state (w_conn w c) = kDisconnected"
| "echo_possible (Run_Functor tid Acceptor_Listen) w \<longleftrightarrow> True"
| "echo_possible (Run_Functor tid f) w \<longleftrightarrow> False"
| "echo_possible (Readable c r a) w \<longleftrightarrow> c < w_objects w \<and> isReading (conn_chan c w) \<and>
     (case r of Read_Error e \<Rightarrow> True
      | Read_Bytes d \<Rightarrow> length d \<le> readv_capacity (c_in (w_conn w c)) \<and> write_answer (length d) a)"
| "echo_possible (Writable c a) w \<longleftrightarrow> c < w_objects w"
| "echo_possible (Hang_Up c) w \<longleftrightarrow> c < w_objects w \<and> isReading (conn_chan c w)"

text \<open>
  These are the callbacks a channel calls: \<open>epoll_wait\<close> reports what is watched, errors and hang-ups, and of a channel
  without events nothing.
\<close>

lemma word_subset_eq: "x AND NOT y = 0 \<Longrightarrow> x = x AND y" for x y :: mask
  using bit.conj_disj_distrib [of x y "NOT y"] by simp

lemma callbacks_are_watched:
  assumes "ch_revents ch AND NOT (ch_events ch OR EPOLLERR OR EPOLLHUP) = 0"
  shows "Read_Callback \<in> set (handleEventWithGuard ch) \<Longrightarrow> isReading ch"
    and "Write_Callback \<in> set (handleEventWithGuard ch) \<Longrightarrow> isWriting ch"
proof -
  have "ch_revents ch = ch_revents ch AND (ch_events ch OR EPOLLERR OR EPOLLHUP)"
    by (rule word_subset_eq [OF assms])
  then have sub: "ch_revents ch AND m = ch_revents ch AND ((ch_events ch OR EPOLLERR OR EPOLLHUP) AND m)" for m
    by (metis and.assoc)
  have "ch_revents ch AND kReadEvent = ch_revents ch AND (ch_events ch AND kReadEvent)"
    using sub [of kReadEvent] by (simp add: mask_defs bit.conj_disj_distrib2)
  then show "isReading ch" if "Read_Callback \<in> set (handleEventWithGuard ch)"
    using that by (auto simp: handleEventWithGuard_def isReading_def kReadEvent_def split: if_splits)
  have "ch_revents ch AND kWriteEvent = ch_revents ch AND (ch_events ch AND kWriteEvent)"
    using sub [of kWriteEvent] by (simp add: mask_defs bit.conj_disj_distrib2)
  then show "isWriting ch" if "Write_Callback \<in> set (handleEventWithGuard ch)"
    using that by (auto simp: handleEventWithGuard_def isWriting_def kWriteEvent_def split: if_splits)
qed

fun echo_always :: "(echo_event \<Rightarrow> world \<Rightarrow> bool) \<Rightarrow> echo_event list \<Rightarrow> world \<Rightarrow> bool" where
  "echo_always P [] w \<longleftrightarrow> True"
| "echo_always P (e # es) w \<longleftrightarrow> P e w \<and> (case echo_step e w of Inl _ \<Rightarrow> True | Inr w' \<Rightarrow> echo_always P es w')"

text \<open>What a connection has received in the course of the events.\<close>

fun echo_received :: "conn_id \<Rightarrow> echo_event list \<Rightarrow> char list" where
  "echo_received c [] = []"
| "echo_received c (Readable d (Read_Bytes x) a # es) = (if c = d then x else []) @ echo_received c es"
| "echo_received c (_ # es) = echo_received c es"

section \<open>Handlers of one connection\<close>

text \<open>A handler touches its own channel only.\<close>

definition own_channel :: "io \<Rightarrow> io \<Rightarrow> bool" where
  "own_channel s s' \<longleftrightarrow> c_channel (fst s') = c_channel (fst s) \<and>
     (\<forall>ch. ch \<noteq> c_channel (fst s) \<longrightarrow> r_chan (snd s') ch = r_chan (snd s) ch)"

lemma updateChannel_other [simp]: "d \<noteq> c \<Longrightarrow> r_chan (poller_updateChannel c l) d = r_chan l d"
  by (simp add: poller_updateChannel_def poller_update_def Let_def)

abbreviation conn_reading :: "io \<Rightarrow> bool" where
  "conn_reading s \<equiv> isReading (r_chan (snd s) (c_channel (fst s)))"

lemma own_channel_trans: "own_channel s t \<Longrightarrow> own_channel t u \<Longrightarrow> own_channel s u"
  by (simp add: own_channel_def)

lemma own_channel_loop:
  "own_channel s (on_loop (enableWriting (c_channel (fst s))) s)"
  "own_channel s (on_loop (enableReading (c_channel (fst s))) s)"
  "own_channel s (on_loop (disableWriting (c_channel (fst s))) s)"
  "own_channel s (on_loop (disableAll (c_channel (fst s))) s)"
  by (simp_all add: own_channel_def enableWriting_def enableReading_def disableWriting_def disableAll_def
      channel_update_def)

lemma read_write_masks:
  "(e OR kWriteEvent) AND kReadEvent = e AND kReadEvent"
  "(e AND NOT kWriteEvent) AND kReadEvent = e AND kReadEvent"
  "(e OR kReadEvent) AND kReadEvent \<noteq> 0"
  by (simp_all add: mask_defs bit.conj_disj_distrib2 and.assoc)

lemma reading_switches [simp]:
  "isReading (r_chan (enableReading c l) c)"
  "isReading (r_chan (enableWriting c l) c) = isReading (r_chan l c)"
  "isReading (r_chan (disableWriting c l) c) = isReading (r_chan l c)"
  "\<not> isReading (r_chan (disableAll c l) c)"
  by (simp_all add: enableWriting_def enableReading_def disableWriting_def disableAll_def channel_update_def
      isReading_def read_write_masks) (simp_all add: mask_defs)

lemma own_channel_queue [simp]: "own_channel s (queue_own f t) = own_channel s t"
  by (simp add: own_channel_def)

text \<open>What \<open>sendInLoop\<close> leaves alone.\<close>

lemma sendInLoop_frame:
  assumes "sendInLoop a d s = Inr t"
  shows "own_channel s t" and "c_in (fst t) = c_in (fst s)" and "conn_reading t = conn_reading s"
proof -
  obtain n k f u where u: "sendInLoop_write a d s = Inr (n, k, f, u)" "sendInLoop_buffer d (n, k, f, u) = Inr t"
    using assms by (auto simp: sendInLoop_def)
  have 1: "c_channel (fst u) = c_channel (fst s)" "r_chan (snd u) = r_chan (snd s)" "c_in (fst u) = c_in (fst s)"
    using u(1) by (auto simp: sendInLoop_write_def Let_def split: if_splits write_result.splits)
  have "own_channel u t \<and> c_in (fst t) = c_in (fst u) \<and> conn_reading t = conn_reading u"
  proof (cases "\<not> f \<and> 0 < k")
    case False
    with u(2) show ?thesis by (auto simp: sendInLoop_buffer_def own_channel_def)
  next
    case True
    define v where "v = (if c_highWaterMark (fst u) \<le> sz_add (readableBytes (c_out (fst u))) k
         \<and> readableBytes (c_out (fst u)) < c_highWaterMark (fst u) \<and> c_has_highWaterMark (fst u)
       then queue_own (High_Water_Mark (c_id (fst u)) (sz_add (readableBytes (c_out (fst u))) k)) u else u)"
    have v: "fst v = fst u" "r_chan (snd v) = r_chan (snd u)" by (simp_all add: v_def)
    have "res_bind (buf_append (drop n d) (c_out (fst v)))
        (\<lambda>b. let s2 = on_conn (c_out_update (\<lambda>_. b)) v
              in Inr (if \<not> conn_writing s2 then on_loop (enableWriting (c_channel (fst s2))) s2 else s2)) = Inr t"
      using u(2) True unfolding sendInLoop_buffer_def v_def by (simp only: Let_def prod.case if_True not_False_eq_True simp_thms)
    then obtain b where "t = (let s2 = on_conn (c_out_update (\<lambda>_. b)) v
        in if \<not> conn_writing s2 then on_loop (enableWriting (c_channel (fst s2))) s2 else s2)"
      unfolding res_bind_Inr_iff Let_def by blast
    then show ?thesis
      using v own_channel_loop(1) [of "on_conn (c_out_update (\<lambda>_. b)) v"]
      by (auto simp: Let_def own_channel_def)
  qed
  with 1 show "own_channel s t" "c_in (fst t) = c_in (fst s)" "conn_reading t = conn_reading s"
    by (auto simp: own_channel_def)
qed

lemma handleWrite_frame:
  "own_channel s (handleWrite a s)" "c_in (fst (handleWrite a s)) = c_in (fst s)"
  "conn_reading (handleWrite a s) = conn_reading s"
  by (auto simp: handleWrite_def own_channel_def shutdownInLoop_def disableWriting_def channel_update_def Let_def
      isReading_def read_write_masks split: prod.splits)

lemma handleWrite_shut:
  "c_state (fst s) \<noteq> kDisconnecting \<Longrightarrow> c_shut (fst (handleWrite a s)) = c_shut (fst s)"
  by (auto simp: handleWrite_def Let_def split: prod.splits)

lemma handleClose_frame:
  "own_channel s (handleClose echo_onConnection s)" "\<not> conn_reading (handleClose echo_onConnection s)"
  "\<not> conn_writing (handleClose echo_onConnection s)"
  "fst (handleClose echo_onConnection s) = (fst s)\<lparr>c_state := kDisconnected\<rparr>"
  using own_channel_loop(4) [of s]
  by (simp_all add: handleClose_def echo_onConnection_def Let_def own_channel_def)

section \<open>One connection of the server\<close>

text \<open>
  Between events the input buffer is empty with its indices at the front, and its vector has at most 131079 bytes: it
  only grows when fewer than 65536 bytes are writable, and then by at most 65536.
\<close>

definition echo_input_ok :: "mbuffer \<Rightarrow> bool" where
  "echo_input_ok b \<longleftrightarrow> readerIndex b = kCheapPrepend \<and> writerIndex b = kCheapPrepend \<and>
     kCheapPrepend \<le> length (buf_data b) \<and> length (buf_data b) \<le> 131079"

lemma echo_input_inv: "echo_input_ok b \<Longrightarrow> buf_inv b \<and> buf_content b = [] \<and>
    writableBytes b = length (buf_data b) - kCheapPrepend"
  by (auto simp: echo_input_ok_def buf_unfold size_arith)

lemma echo_input_new: "echo_input_ok (buffer_new kInitialSize)"
  by (simp add: echo_input_ok_def buffer_new_def kInitialSize_def kCheapPrepend_def)

text \<open>What is true of a connection that has received \<open>rc\<close>, its channel watching \<open>ch\<close>.\<close>

definition echo_conn_ok :: "char list \<Rightarrow> conn \<Rightarrow> channel \<Rightarrow> bool" where
  "echo_conn_ok rc k ch \<longleftrightarrow> c_state k \<noteq> kDisconnecting \<and> (c_state k \<noteq> kConnected \<longrightarrow> \<not> isReading ch) \<and>
     (if c_state k = kDisconnected then prefix (c_sent k) rc \<and> \<not> isWriting ch
      else echo_input_ok (c_in k) \<and> buf_inv (c_out k) \<and> \<not> c_shut k \<and>
        (isWriting ch \<longleftrightarrow> buf_content (c_out k) \<noteq> []) \<and> c_sent k @ buf_content (c_out k) = rc \<and>
        writerIndex (c_out k) \<le> kCheapPrepend + length rc)"

abbreviation echo_io_ok :: "char list \<Rightarrow> io \<Rightarrow> bool" where
  "echo_io_ok rc s \<equiv> echo_conn_ok rc (fst s) (r_chan (snd s) (c_channel (fst s)))"

lemma echo_io_conn_inv: "echo_io_ok rc s \<Longrightarrow> c_state (fst s) \<noteq> kDisconnected \<Longrightarrow> conn_inv s"
  using echo_input_inv by (auto simp: echo_conn_ok_def conn_inv_def)

lemma echo_message_send:
  assumes ok: "echo_io_ok rc s" and conn: "c_state (fst s) = kConnected" and d: "d \<noteq> []"
    and cap: "length d \<le> readv_capacity (c_in (fst s))"
  obtains b where "echo_input_ok b" "conn_inv (on_conn (c_in_update (\<lambda>_. b)) s)"
    "\<And>a. handleRead echo_onConnection (echo_onMessage a) (Read_Bytes d) s =
      sendInLoop a d (on_conn (c_in_update (\<lambda>_. b)) s)"
proof -
  let ?b = "c_in (fst s)"
  have inv: "conn_inv s" using echo_io_conn_inv [OF ok] conn by simp
  have in_ok: "echo_input_ok ?b" using ok conn by (simp add: echo_conn_ok_def)
  note bi = echo_input_inv [OF in_ok]
  have room: "length (buf_data ?b) + extrabuf_size \<le> vector_max"
    using in_ok by (simp add: echo_input_ok_def extrabuf_size_def vector_max_def)
  obtain b where r: "buf_readFd (Read_Bytes d) ?b = Inr (int (length d), None, b)" "buf_inv b" "buf_content b = d"
    using buf_readFd_deliver [OF _ cap room] bi by auto
  have b: "handleRead echo_onConnection m (Read_Bytes d) s = m (on_conn (c_in_update (\<lambda>_. b)) s)" "buf_content b = d" "buf_inv b"
    "length (buf_data b) \<le> length (buf_data ?b) + (length d - writableBytes ?b)" for m
    using r d buf_readFd_length [OF _ r(1)] bi by (simp_all add: handleRead_def Let_def)
  have len: "length (buf_data b) \<le> 131079"
    using b(4) cap in_ok bi by (auto simp: readv_capacity_def extrabuf_size_def echo_input_ok_def kCheapPrepend_def
        split: if_splits)
  define b1 where "b1 = buf_retrieve (readableBytes b) b"
  have b1: "echo_input_ok b1"
    using b(3) len by (auto simp: b1_def buf_retrieve_def buf_retrieveAll_def echo_input_ok_def buf_inv_def)
  have "handleRead echo_onConnection (echo_onMessage a) (Read_Bytes d) s =
      sendInLoop a d (on_conn (c_in_update (\<lambda>_. b1)) s)" for a
    using b(2) conn by (simp add: b(1) echo_onMessage_def buf_retrieveAllAsString_ok [OF b(3)] conn_send_def
        isInLoopThread_def b1_def)
  moreover have "conn_inv (on_conn (c_in_update (\<lambda>_. b1)) s)"
    using inv echo_input_inv [OF b1] by (simp add: conn_inv_def)
  ultimately show ?thesis using that b1 by blast
qed

lemma echo_message:
  assumes ok: "echo_io_ok rc s" and conn: "c_state (fst s) = kConnected" and d: "d \<noteq> []"
    and cap: "length d \<le> readv_capacity (c_in (fst s))" and ans: "write_answer (length d) a"
    and small: "length rc + length d \<le> 2 ^ 62"
  obtains t where "handleRead echo_onConnection (echo_onMessage a) (Read_Bytes d) s = Inr t"
    "own_channel s t" "echo_io_ok (rc @ d) t"
proof -
  obtain b1 where b1: "echo_input_ok b1" and uinv0: "conn_inv (on_conn (c_in_update (\<lambda>_. b1)) s)"
    and msg0: "\<And>a. handleRead echo_onConnection (echo_onMessage a) (Read_Bytes d) s =
      sendInLoop a d (on_conn (c_in_update (\<lambda>_. b1)) s)"
    using echo_message_send [OF ok conn d cap] by metis
  define u where "u = on_conn (c_in_update (\<lambda>_. b1)) s"
  note msg = msg0 [folded u_def] and uinv = uinv0 [folded u_def]
  have "\<not> c_shut (fst u)" "writerIndex (c_out (fst u)) + length d \<le> vector_max"
    using ok conn small by (auto simp: echo_conn_ok_def u_def vector_max_def kCheapPrepend_def)
  with sendInLoop_ok [OF uinv ans] obtain t where t: "sendInLoop a d u = Inr t" "conn_inv t"
    "c_shut (fst t) = c_shut (fst u)" "c_state (fst t) = c_state (fst u)"
    "c_sent (fst t) @ buf_content (c_out (fst t)) = c_sent (fst u) @ buf_content (c_out (fst u)) @ d"
    "writerIndex (c_out (fst t)) \<le> writerIndex (c_out (fst u)) + length d"
    by metis
  note fr = sendInLoop_frame [OF t(1)]
  have "echo_io_ok (rc @ d) t"
    using t(2-6) fr(2) ok conn b1 by (auto simp: echo_conn_ok_def conn_inv_def u_def)
  moreover have "own_channel s t" using fr(1) by (simp add: own_channel_def u_def)
  ultimately show ?thesis using that msg t(1) by simp
qed

text \<open>When the write on an idle connection meets a reset, \<open>sendInLoop\<close> drops the message and changes nothing else.\<close>

lemma echo_message_dropped:
  assumes ok: "echo_io_ok rc s" and conn: "c_state (fst s) = kConnected" and d: "d \<noteq> []"
    and cap: "length d \<le> readv_capacity (c_in (fst s))"
    and a: "n = EPIPE \<or> n = ECONNRESET" and idle: "\<not> conn_writing s" "readableBytes (c_out (fst s)) = 0"
  obtains t where "handleRead echo_onConnection (echo_onMessage (Write_Error n)) (Read_Bytes d) s = Inr t"
    "own_channel s t" "echo_io_ok rc t"
proof -
  obtain b where b: "echo_input_ok b" "\<And>a. handleRead echo_onConnection (echo_onMessage a) (Read_Bytes d) s =
      sendInLoop a d (on_conn (c_in_update (\<lambda>_. b)) s)"
    using echo_message_send [OF ok conn d cap] by metis
  have "sendInLoop (Write_Error n) d (on_conn (c_in_update (\<lambda>_. b)) s) = Inr (on_conn (c_in_update (\<lambda>_. b)) s)"
    using a idle by (elim disjE) (simp_all add: sendInLoop_def sendInLoop_write_def sendInLoop_buffer_def errno_defs)
  moreover have "own_channel s (on_conn (c_in_update (\<lambda>_. b)) s)" by (simp add: own_channel_def)
  moreover have "echo_io_ok rc (on_conn (c_in_update (\<lambda>_. b)) s)"
    using ok conn b(1) by (auto simp: echo_conn_ok_def)
  ultimately show ?thesis using that b(2) by simp
qed

lemma echo_write:
  assumes ok: "echo_io_ok rc s"
  shows "echo_io_ok rc (handleWrite a s)"
proof (cases "c_state (fst s) = kDisconnected")
  case True
  then have "\<not> conn_writing s" using ok by (simp add: echo_conn_ok_def)
  with ok show ?thesis by (simp add: handleWrite_def)
next
  case False
  have inv: "conn_inv s" using echo_io_conn_inv [OF ok False] .
  note w = handleWrite_inv [OF inv, of a]
  from ok False have "c_state (fst s) \<noteq> kDisconnecting" by (simp add: echo_conn_ok_def)
  from handleWrite_shut [OF this, of a] w handleWrite_frame(2,3) [of a s] ok False
  show ?thesis by (auto simp: echo_conn_ok_def conn_inv_def)
qed

lemma echo_close:
  assumes ok: "echo_io_ok rc s" and conn: "c_state (fst s) \<noteq> kDisconnected"
  shows "echo_io_ok rc (handleClose echo_onConnection s)"
proof -
  have "prefix (c_sent (fst s)) rc" using ok conn by (auto simp: echo_conn_ok_def prefix_def)
  with handleClose_frame [of s] show ?thesis by (simp add: echo_conn_ok_def)
qed

section \<open>The whole server\<close>

definition echo_inv :: "(conn_id \<Rightarrow> char list) \<Rightarrow> world \<Rightarrow> bool" where
  "echo_inv rc w \<longleftrightarrow>
     (\<forall>c < w_objects w. echo_conn_ok (rc c) (w_conn w c) (conn_chan c w) \<and>
        c_channel (w_conn w c) \<noteq> w_acceptChannel w) \<and>
     (\<forall>c < w_objects w. \<forall>d < w_objects w. c_channel (w_conn w c) = c_channel (w_conn w d) \<longrightarrow> c = d) \<and>
     (\<forall>c \<ge> w_objects w. rc c = [])"

lemma echo_conn_ok_cong:
  "ch_events ch = ch_events ch' \<Longrightarrow> echo_conn_ok rc k ch = echo_conn_ok rc k ch'"
  by (simp add: echo_conn_ok_def isReading_def isWriting_def)

lemma echo_invI:
  assumes "\<And>c. c < w_objects w \<Longrightarrow> echo_conn_ok (rc c) (w_conn w c) (conn_chan c w)"
    and "\<And>c. c < w_objects w \<Longrightarrow> c_channel (w_conn w c) \<noteq> w_acceptChannel w"
    and "\<And>c d. c < w_objects w \<Longrightarrow> d < w_objects w \<Longrightarrow> c_channel (w_conn w c) = c_channel (w_conn w d) \<Longrightarrow> c = d"
    and "\<And>c. w_objects w \<le> c \<Longrightarrow> rc c = []"
  shows "echo_inv rc w"
  unfolding echo_inv_def using assms by blast

lemma echo_invD:
  assumes "echo_inv rc w"
  shows "c < w_objects w \<Longrightarrow> echo_conn_ok (rc c) (w_conn w c) (conn_chan c w)"
    and "c < w_objects w \<Longrightarrow> c_channel (w_conn w c) \<noteq> w_acceptChannel w"
    and "c < w_objects w \<Longrightarrow> d < w_objects w \<Longrightarrow> c_channel (w_conn w c) = c_channel (w_conn w d) \<Longrightarrow> c = d"
    and "w_objects w \<le> c \<Longrightarrow> rc c = []"
  using assms unfolding echo_inv_def by blast+

lemma echo_inv_conn: "echo_inv rc w \<Longrightarrow> c < w_objects w \<Longrightarrow> echo_io_ok (rc c) (conn_io c w)"
  by (simp add: echo_inv_def conn_io_def)

text \<open>The result of a handler of one connection leaves the others as they were.\<close>

lemma echo_put:
  assumes inv: "echo_inv rc w" and c: "c < w_objects w" and own: "own_channel (conn_io c w) s"
    and ok: "echo_io_ok r s"
  shows "echo_inv (rc(c := r)) (put_io c s w)"
proof -
  let ?w = "put_io c s w"
  have chan: "c_channel (w_conn ?w d) = c_channel (w_conn w d)" for d
    using own by (simp add: own_channel_def put_io_def conn_io_def)
  have same: "w_objects ?w = w_objects w" "w_owner ?w = w_owner w" "w_acceptChannel ?w = w_acceptChannel w"
    by (simp_all add: put_io_def)
  have "echo_conn_ok ((rc(c := r)) d) (w_conn ?w d) (conn_chan d ?w)" if d: "d < w_objects w" for d
  proof (cases "d = c")
    case True
    with ok show ?thesis by (simp add: put_io_def)
  next
    case False
    have "c_channel (w_conn w d) \<noteq> c_channel (w_conn w c)" using echo_invD(3) [OF inv d c] False by blast
    then have "ch_events (conn_chan d ?w) = ch_events (conn_chan d w)"
      using own False by (simp add: put_io_def own_channel_def conn_io_def)
    moreover have "echo_conn_ok (rc d) (w_conn w d) (conn_chan d w)" by (rule echo_invD(1) [OF inv d])
    ultimately have "echo_conn_ok (rc d) (w_conn w d) (conn_chan d ?w)" by (metis echo_conn_ok_cong)
    moreover have "w_conn ?w d = w_conn w d" using False by (simp add: put_io_def)
    ultimately show ?thesis using False by simp
  qed
  then show ?thesis
  proof (intro echo_invI)
    show "c_channel (w_conn ?w d) \<noteq> w_acceptChannel ?w" if "d < w_objects ?w" for d
      using echo_invD(2) [OF inv] that by (simp add: chan same)
    show "d = e" if "d < w_objects ?w" "e < w_objects ?w" "c_channel (w_conn ?w d) = c_channel (w_conn ?w e)" for d e
      using echo_invD(3) [OF inv] that unfolding chan same by blast
    show "(rc(c := r)) d = []" if "w_objects ?w \<le> d" for d
      using echo_invD(4) [OF inv] that c by (simp add: same)
  qed (simp add: same)
qed

text \<open>Neither do changes of a loop that keep the events of the connections' channels.\<close>

lemma echo_inv_same:
  assumes inv: "echo_inv rc w" and eq: "w_objects w' = w_objects w" "w_owner w' = w_owner w" "w_conn w' = w_conn w"
    "w_acceptChannel w' = w_acceptChannel w"
    and ev: "\<And>i ch. ch \<noteq> w_acceptChannel w \<Longrightarrow>
      ch_events (r_chan (w_loop w' i) ch) = ch_events (r_chan (w_loop w i) ch)"
  shows "echo_inv rc w'"
proof -
  have "echo_conn_ok (rc c) (w_conn w c) (conn_chan c w')" if c: "c < w_objects w" for c
  proof -
    have "c_channel (w_conn w c) \<noteq> w_acceptChannel w" "echo_conn_ok (rc c) (w_conn w c) (conn_chan c w)"
      using echo_invD(1,2) [OF inv c] by blast+
    then show ?thesis using echo_conn_ok_cong [OF ev] eq by metis
  qed
  then show ?thesis
    by (intro echo_invI) (use echo_invD [OF inv] eq in simp_all)
qed

lemma echo_inv_dispatch_remove:
  assumes "echo_inv rc w"
  shows "echo_inv rc (run_functor user tid (Remove_Connection_In_Loop c) w)"
    and "echo_inv rc (removeConnection user tid' c w)"
proof -
  show 1: "echo_inv rc (run_functor user tid (Remove_Connection_In_Loop c) w)" for tid
    by (rule echo_inv_same [OF assms]) (simp_all add: removeConnectionInLoop_def Let_def)
  have "echo_inv rc (upd_loop i (queueInLoop tid' f) w)" for i f
    by (rule echo_inv_same [OF assms]) auto
  with 1 show "echo_inv rc (removeConnection user tid' c w)" by (simp add: removeConnection_def dispatch_def)
qed

lemma echo_established:
  assumes ok: "echo_io_ok rc s" and new: "c_state (fst s) = kConnecting"
  shows "own_channel s (connectEstablished echo_onConnection s)"
    and "echo_io_ok rc (connectEstablished echo_onConnection s)"
proof -
  have "fst (connectEstablished echo_onConnection s) = (fst s)\<lparr>c_state := kConnected\<rparr>"
    "own_channel s (connectEstablished echo_onConnection s)"
    by (simp_all add: connectEstablished_def echo_onConnection_def own_channel_def enableReading_def
        channel_update_def Let_def)
  moreover have "conn_writing (connectEstablished echo_onConnection s) = conn_writing s"
    by (simp add: connectEstablished_def echo_onConnection_def Let_def) (simp add: isWriting_def)
  ultimately show "own_channel s (connectEstablished echo_onConnection s)"
    "echo_io_ok rc (connectEstablished echo_onConnection s)"
    using ok new by (auto simp: echo_conn_ok_def)
qed

lemma echo_inv_established:
  assumes "echo_inv rc w" and "c < w_objects w" and "c_state (w_conn w c) = kConnecting"
  shows "echo_inv rc (run_functor echo_onConnection tid (Connect_Established c) w)"
  using echo_put [OF assms(1,2) echo_established [OF echo_inv_conn [OF assms(1,2)]]] assms(3)
  by (simp add: conn_io_def)

lemma echo_conn_new:
  assumes "TcpConnection_new c n ch fd l0 = (k, l)"
  shows "c_channel k = ch" "c_state k = kConnecting" "echo_conn_ok [] k (r_chan l ch)"
    "d \<noteq> ch \<Longrightarrow> ch_events (r_chan l d) = ch_events (r_chan l0 d)"
proof -
  have "\<not> isReading (r_chan l ch)" "\<not> isWriting (r_chan l ch)" "c_in k = buffer_new kInitialSize"
    "c_out k = buffer_new kInitialSize" "c_sent k = []" "\<not> c_shut k"
    using assms by (auto simp: TcpConnection_new_def Channel_new_def isReading_def isWriting_def)
  moreover have "buf_inv (buffer_new kInitialSize)" by (rule buf_new_inv) (simp add: kInitialSize_def)
  moreover have "writerIndex (buffer_new kInitialSize) = kCheapPrepend" by (simp add: buffer_new_def)
  moreover show "c_channel k = ch" "c_state k = kConnecting"
    "d \<noteq> ch \<Longrightarrow> ch_events (r_chan l d) = ch_events (r_chan l0 d)"
    using assms by (auto simp: TcpConnection_new_def)
  ultimately show "echo_conn_ok [] k (r_chan l ch)"
    by (simp add: echo_conn_ok_def echo_input_new buf_new_content)
qed

text \<open>The state in which \<open>newConnection\<close> hands \<open>connectEstablished\<close> to the loop it has chosen.\<close>

definition added_conn :: "loop_id \<Rightarrow> pool \<Rightarrow> conn \<Rightarrow> conn_functor event_loop \<Rightarrow> world \<Rightarrow> world" where
  "added_conn i p k l w = w\<lparr>w_pool := p, w_nextConnId := w_nextConnId w + 1, w_objects := Suc (w_objects w),
     w_owner := (w_owner w)(w_objects w := i), w_conn := (w_conn w)(w_objects w := k), w_loop := (w_loop w)(i := l),
     w_connections := (w_connections w)(conn_name_of (w_name w) (w_ipPort w) (nat (w_nextConnId w)) \<mapsto> w_objects w)\<rparr>"

lemma newConnection_split:
  assumes "newConnection user tid fd ch w = Inr w'"
  obtains i p k l where "getNextLoop (w_pool w) = (i, p)" "c_channel k = ch" "c_state k = kConnecting"
    "echo_conn_ok [] k (r_chan l ch)" "r_chan l = (r_chan (w_loop w i))(ch := r_chan l ch)"
    "r_ctl l = r_ctl (w_loop w i)" "ch_fd (r_chan l ch) = fd" "ch_index (r_chan l ch) = kNew"
    "w' = dispatch user tid i (Connect_Established (w_objects w)) (added_conn i p k l w)"
proof -
  let ?n = "conn_name_of (w_name w) (w_ipPort w) (nat (w_nextConnId w))"
  obtain i p where ip: "getNextLoop (w_pool w) = (i, p)" by fastforce
  obtain k0 l where cl: "TcpConnection_new (w_objects w) ?n ch fd (w_loop w i) = (k0, l)" by fastforce
  define k where "k = setWriteCompleteCallback (w_has_writeComplete w) k0"
  have conn: "c_channel k = ch" "c_state k = kConnecting" "echo_conn_ok [] k (r_chan l ch)"
    using echo_conn_new [OF cl] by (simp_all add: k_def setWriteCompleteCallback_def echo_conn_ok_def)
  have chan: "r_chan l = (r_chan (w_loop w i))(ch := r_chan l ch)" "r_ctl l = r_ctl (w_loop w i)"
    "ch_fd (r_chan l ch) = fd" "ch_index (r_chan l ch) = kNew"
    using cl by (auto simp: TcpConnection_new_def Channel_new_def kNew_def)
  have "w' = dispatch user tid i (Connect_Established (w_objects w)) (added_conn i p k l w)"
    using assms ip cl by (simp add: newConnection_def added_conn_def k_def Let_def split: if_splits)
  with that ip conn chan show ?thesis by blast
qed

lemma echo_inv_added:
  assumes inv: "echo_inv rc w" and ok: "echo_possible (Accept fd ch) w"
    and k: "c_channel k = ch" "echo_conn_ok [] k (r_chan l ch)" "r_chan l = (r_chan (w_loop w i))(ch := r_chan l ch)"
  shows "echo_inv rc (added_conn i p k l w)"
proof -
  let ?c = "w_objects w" and ?w = "added_conn i p k l w"
  have fresh: "c_channel (w_conn w d) \<noteq> ch" if "d < ?c" for d
    using ok that by (simp add: list_all_iff)
  have evs: "r_chan l d = r_chan (w_loop w i) d" if "d \<noteq> ch" for d
    using that by (subst k(3)) simp
  have objs: "w_objects ?w = Suc ?c" "w_acceptChannel ?w = w_acceptChannel w" by (simp_all add: added_conn_def)
  have "rc ?c = []" using echo_invD(4) [OF inv] by simp
  have all: "echo_conn_ok (rc d) (w_conn ?w d) (conn_chan d ?w) \<and> c_channel (w_conn ?w d) \<noteq> w_acceptChannel ?w"
    if d: "d < Suc ?c" for d
  proof (cases "d = ?c")
    case True
    with k \<open>rc ?c = []\<close> ok show ?thesis by (simp add: added_conn_def)
  next
    case False
    with d have "d < ?c" by simp
    then have "conn_chan d ?w = conn_chan d w"
      using evs [OF fresh] by (simp add: added_conn_def)
    moreover have "w_conn ?w d = w_conn w d" using False by (simp add: added_conn_def)
    ultimately show ?thesis using echo_invD(1,2) [OF inv \<open>d < ?c\<close>] objs by simp
  qed
  have chan: "c_channel (w_conn ?w e) = (if e = ?c then ch else c_channel (w_conn w e))" for e
    by (simp add: added_conn_def k)
  have inj: "c = d" if "c < Suc ?c" "d < Suc ?c" "c_channel (w_conn ?w c) = c_channel (w_conn ?w d)" for c d
  proof (cases "c = ?c \<or> d = ?c")
    case True
    with that fresh show ?thesis by (auto simp: chan less_Suc_eq split: if_splits)
  next
    case False
    with that echo_invD(3) [OF inv, of c d] show ?thesis by (simp add: chan less_Suc_eq)
  qed
  show ?thesis
  proof (rule echo_invI)
    show "rc c = []" if "w_objects ?w \<le> c" for c using echo_invD(4) [OF inv] that objs by simp
  qed (use all inj objs in auto)
qed

lemma echo_inv_accept:
  assumes inv: "echo_inv rc w" and ok: "echo_possible (Accept fd ch) w"
    and step: "newConnection echo_onConnection tid fd ch w = Inr w'"
  shows "echo_inv rc w'"
proof -
  let ?c = "w_objects w"
  obtain i p k l where k: "c_channel k = ch" "c_state k = kConnecting" "echo_conn_ok [] k (r_chan l ch)"
    "r_chan l = (r_chan (w_loop w i))(ch := r_chan l ch)"
    "w' = dispatch echo_onConnection tid i (Connect_Established ?c) (added_conn i p k l w)"
    using newConnection_split [OF step] by metis
  have inv1: "echo_inv rc (added_conn i p k l w)" by (rule echo_inv_added [OF inv ok k(1,3,4)])
  have "echo_inv rc (upd_loop i (queueInLoop tid (Connect_Established ?c)) (added_conn i p k l w))"
    by (rule echo_inv_same [OF inv1]) auto
  moreover have "echo_inv rc (run_functor echo_onConnection tid (Connect_Established ?c) (added_conn i p k l w))"
    by (rule echo_inv_established [OF inv1]) (simp_all add: added_conn_def k)
  ultimately show ?thesis by (simp add: k(5) dispatch_def)
qed

lemma echo_inv_read:
  assumes inv: "echo_inv rc w" and ok: "echo_possible (Readable c (Read_Bytes d) a) w"
    and small: "length (rc c) + length d \<le> 2 ^ 62"
  shows "\<exists>w'. echo_readable c (Read_Bytes d) a w = Inr w' \<and> echo_inv (rc(c := rc c @ d)) w'"
proof -
  have c: "c < w_objects w" and rd: "isReading (conn_chan c w)"
    and cap: "length d \<le> readv_capacity (c_in (w_conn w c))" and ans: "write_answer (length d) a"
    using ok by auto
  note io = echo_inv_conn [OF inv c]
  have conn: "c_state (fst (conn_io c w)) = kConnected" using io rd by (auto simp: echo_conn_ok_def conn_io_def)
  show ?thesis
  proof (cases "d = []")
    case True
    have "buf_inv (c_in (fst (conn_io c w)))" using io conn echo_input_inv by (simp add: echo_conn_ok_def)
    from handleRead_eof [OF this] have "echo_readable c (Read_Bytes d) a w = Inr (removeConnection echo_onConnection
        (l_threadId (w_loop w (w_owner w c))) c (put_io c (handleClose echo_onConnection (conn_io c w)) w))"
      by (simp add: echo_readable_def True)
    moreover have "echo_inv (rc(c := rc c)) (put_io c (handleClose echo_onConnection (conn_io c w)) w)"
      by (rule echo_put [OF inv c handleClose_frame(1) echo_close [OF io]]) (simp add: conn)
    ultimately show ?thesis using echo_inv_dispatch_remove(2) True by simp
  next
    case False
    then obtain t where "handleRead echo_onConnection (echo_onMessage a) (Read_Bytes d) (conn_io c w) = Inr t"
      "own_channel (conn_io c w) t" "echo_io_ok (rc c @ d) t"
      using echo_message [OF io conn False _ ans small] cap by (auto simp: conn_io_def)
    with False show ?thesis using echo_put [OF inv c] by (simp add: echo_readable_def)
  qed
qed

lemma echo_step_ok:
  assumes inv: "echo_inv rc w" and ok: "echo_possible e w"
    and small: "\<And>c. length (rc c @ echo_received c [e]) \<le> 2 ^ 62"
  shows "\<exists>w'. echo_step e w = Inr w' \<and> echo_inv (\<lambda>c. rc c @ echo_received c [e]) w'"
proof (cases e)
  case (Accept fd ch)
  show ?thesis
  proof (cases "0 \<le> fd")
    case True
    have "w_nextConnId w < INT_MAX" using ok Accept by simp
    then obtain w' where "newConnection echo_onConnection (l_threadId (w_loop w (w_base w))) fd ch w = Inr w'"
      using newConnection_ok by blast
    with echo_inv_accept [OF inv ok [unfolded Accept] this] Accept True show ?thesis
      by (simp add: acceptor_handleRead_def)
  qed (use Accept inv in \<open>simp add: acceptor_handleRead_def\<close>)
next
  case (Run_Functor tid f)
  have "echo_inv rc (run_functor echo_onConnection tid f w)"
  proof (cases f)
    case (Connect_Established c)
    with ok Run_Functor show ?thesis using echo_inv_established [OF inv] by simp
  next
    case (Remove_Connection_In_Loop c)
    then show ?thesis using echo_inv_dispatch_remove(1) [OF inv] by simp
  next
    case (Connect_Destroyed c)
    with ok Run_Functor have c: "c < w_objects w" "c_state (w_conn w c) = kDisconnected" by simp_all
    then have "connectDestroted echo_onConnection (conn_io c w) = conn_io c w"
      by (simp add: connectDestroted_def conn_io_def)
    with echo_put [OF inv c(1) _ echo_inv_conn [OF inv c(1)]] Connect_Destroyed show ?thesis
      by (simp add: own_channel_def)
  next
    case Acceptor_Listen
    have "echo_inv rc (acceptor_listen w)"
      by (rule echo_inv_same [OF inv]) (simp_all add: acceptor_listen_def enableReading_def channel_update_def)
    with Acceptor_Listen show ?thesis by simp
  qed (use ok Run_Functor in simp_all)
  with Run_Functor show ?thesis by simp
next
  case (Readable c r a)
  show ?thesis
  proof (cases r)
    case (Read_Error n)
    have c: "c < w_objects w" using ok Readable by simp
    have "echo_inv (rc(c := rc c)) (put_io c (conn_io c w) w)"
      by (rule echo_put [OF inv c _ echo_inv_conn [OF inv c]]) (simp add: own_channel_def)
    with Readable Read_Error show ?thesis by (simp add: echo_readable_def handleRead_error)
  next
    case (Read_Bytes d)
    have "length (rc c) + length d \<le> 2 ^ 62" using small [of c] Readable Read_Bytes by simp
    from echo_inv_read [OF inv ok [unfolded Readable Read_Bytes] this]
    have "\<exists>w'. echo_step e w = Inr w' \<and> echo_inv (rc(c := rc c @ d)) w'" by (simp add: Readable Read_Bytes)
    moreover have "rc(c := rc c @ d) = (\<lambda>k. rc k @ echo_received k [e])" by (auto simp: Readable Read_Bytes)
    ultimately show ?thesis by simp
  qed
next
  case (Writable c a)
  have c: "c < w_objects w" using ok Writable by simp
  have "echo_inv (rc(c := rc c)) (put_io c (handleWrite a (conn_io c w)) w)"
    by (rule echo_put [OF inv c handleWrite_frame(1) echo_write [OF echo_inv_conn [OF inv c]]])
  with Writable show ?thesis by simp
next
  case (Hang_Up c)
  have c: "c < w_objects w" and rd: "isReading (conn_chan c w)" using ok Hang_Up by simp_all
  note io = echo_inv_conn [OF inv c]
  have conn: "c_state (fst (conn_io c w)) \<noteq> kDisconnected" using io rd by (auto simp: echo_conn_ok_def conn_io_def)
  have "echo_inv (rc(c := rc c)) (put_io c (handleClose echo_onConnection (conn_io c w)) w)"
    by (rule echo_put [OF inv c handleClose_frame(1) echo_close [OF io conn]])
  moreover have "(\<lambda>e. if e = On_Close then id else echo_onConnection e) = echo_onConnection"
    by (rule ext)+ (simp add: echo_onConnection_def)
  ultimately show ?thesis using Hang_Up echo_inv_dispatch_remove(2) by (simp add: server_handleClose_def)
qed

lemma echo_received_Cons: "echo_received c (e # es) = echo_received c [e] @ echo_received c es"
  by (cases e; simp) (rename_tac d r a, case_tac r; simp)

lemma echo_run_ok:
  assumes "echo_inv rc w" and "echo_always echo_possible es w"
    and "\<And>c. length (rc c @ echo_received c es) \<le> 2 ^ 62"
  shows "\<exists>w'. echo_run es w = Inr w' \<and> echo_inv (\<lambda>c. rc c @ echo_received c es) w'"
  using assms
proof (induction es arbitrary: rc w)
  case Nil
  then show ?case by simp
next
  case (Cons e es)
  have small: "length (rc c @ echo_received c [e]) \<le> 2 ^ 62" for c
    using Cons.prems(3) [of c] by (subst (asm) echo_received_Cons) simp
  obtain w' where w': "echo_step e w = Inr w'" "echo_inv (\<lambda>c. rc c @ echo_received c [e]) w'"
    using echo_step_ok [OF Cons.prems(1) _ small] Cons.prems(2) by auto
  have "length ((rc c @ echo_received c [e]) @ echo_received c es) \<le> 2 ^ 62" for c
    using Cons.prems(3) [of c] by (subst (asm) echo_received_Cons) simp
  with Cons.IH [OF w'(2)] Cons.prems(2) w'(1)
  obtain w'' where "echo_run es w' = Inr w''" "echo_inv (\<lambda>c. (rc c @ echo_received c [e]) @ echo_received c es) w''"
    by auto
  with w'(1) show ?case by (subst echo_received_Cons) simp
qed

section \<open>Connections that break\<close>

text \<open>
  \<open>write\<close> can also answer in the read callback that the peer is gone. \<open>sendInLoop\<close> then sets \<open>faultError\<close> and drops the
  message, while the connection stays connected until the loop hears of the reset. \<open>echo_may\<close> allows every answer.
\<close>

fun echo_may :: "echo_event \<Rightarrow> world \<Rightarrow> bool" where
  "echo_may (Readable c r (Write_Error n)) w = echo_possible (Readable c r (Write_Error EWOULDBLOCK)) w"
| "echo_may e w = echo_possible e w"

fun echo_dropped :: "echo_event \<Rightarrow> world \<Rightarrow> bool" where
  "echo_dropped (Readable c (Read_Bytes d) (Write_Error n)) w \<longleftrightarrow> (n = EPIPE \<or> n = ECONNRESET) \<and>
     \<not> isWriting (conn_chan c w) \<and> readableBytes (c_out (w_conn w c)) = 0"
| "echo_dropped e w \<longleftrightarrow> False"

text \<open>What a connection has received, less the messages that were dropped.\<close>

definition echo_kept1 :: "conn_id \<Rightarrow> echo_event \<Rightarrow> world \<Rightarrow> char list" where
  "echo_kept1 c e w = (if echo_dropped e w then [] else echo_received c [e])"

fun echo_kept :: "conn_id \<Rightarrow> echo_event list \<Rightarrow> world \<Rightarrow> char list" where
  "echo_kept c [] w = []"
| "echo_kept c (e # es) w = echo_kept1 c e w @ (case echo_step e w of Inl _ \<Rightarrow> [] | Inr w' \<Rightarrow> echo_kept c es w')"

text \<open>The events in which \<open>write\<close> finds the connection broken.\<close>

fun breaks :: "conn_id \<Rightarrow> echo_event \<Rightarrow> bool" where
  "breaks c (Readable d r (Write_Error n)) \<longleftrightarrow> c = d \<and> (n = EPIPE \<or> n = ECONNRESET)"
| "breaks c e \<longleftrightarrow> False"

lemma echo_kept1_unbroken: "\<not> breaks c e \<Longrightarrow> echo_kept1 c e w = echo_received c [e]"
  by (cases "(e, w)" rule: echo_dropped.cases) (auto simp: echo_kept1_def)

lemma echo_kept_unbroken:
  "echo_run es w = Inr w' \<Longrightarrow> \<forall>e \<in> set es. \<not> breaks c e \<Longrightarrow> echo_kept c es w = echo_received c es"
proof (induction es arbitrary: w)
  case (Cons e es)
  then show ?case by (subst echo_received_Cons) (auto simp: echo_kept1_unbroken res_bind_Inr_iff)
qed simp

lemma echo_may_possible:
  "echo_may e w \<Longrightarrow> echo_possible e w \<or> (\<exists>c d n. e = Readable c (Read_Bytes d) (Write_Error n) \<and> (n = EPIPE \<or> n = ECONNRESET)
     \<and> echo_possible (Readable c (Read_Bytes d) (Write_Error EWOULDBLOCK)) w)"
  by (cases "(e, w)" rule: echo_may.cases) (auto split: read_result.splits)

text \<open>While output waits, or at the end of file, nothing is written and the answer does not matter.\<close>

lemma sendInLoop_buffers:
  "conn_writing s \<or> readableBytes (c_out (fst s)) \<noteq> 0 \<Longrightarrow> sendInLoop a d s = sendInLoop b d s"
  by (auto simp: sendInLoop_def sendInLoop_write_def)

lemma echo_step_may:
  assumes inv: "echo_inv rc w" and ok: "echo_may e w"
    and small: "\<And>c. length (rc c @ echo_received c [e]) \<le> 2 ^ 62"
  shows "\<exists>w'. echo_step e w = Inr w' \<and> echo_inv (\<lambda>c. rc c @ echo_kept1 c e w) w'"
proof (cases "echo_possible e w")
  case True
  moreover from True have "\<not> echo_dropped e w" by (cases "(e, w)" rule: echo_dropped.cases) auto
  ultimately show ?thesis using echo_step_ok [OF inv _ small] by (simp add: echo_kept1_def)
next
  case False
  with echo_may_possible [OF ok] obtain c d n where e: "e = Readable c (Read_Bytes d) (Write_Error n)"
    and n: "n = EPIPE \<or> n = ECONNRESET" and ok': "echo_possible (Readable c (Read_Bytes d) (Write_Error EWOULDBLOCK)) w"
    by blast
  have c: "c < w_objects w" and rd: "isReading (conn_chan c w)" and cap: "length d \<le> readv_capacity (c_in (w_conn w c))"
    using ok' by auto
  note io = echo_inv_conn [OF inv c]
  have conn: "c_state (fst (conn_io c w)) = kConnected" using io rd by (auto simp: echo_conn_ok_def conn_io_def)
  have small': "length (rc c) + length d \<le> 2 ^ 62" using small [of c] e by simp
  show ?thesis
  proof (cases "d \<noteq> [] \<and> echo_dropped e w")
    case True
    then obtain t where "handleRead echo_onConnection (echo_onMessage (Write_Error n)) (Read_Bytes d) (conn_io c w) = Inr t"
      "own_channel (conn_io c w) t" "echo_io_ok (rc c) t"
      using echo_message_dropped [OF io conn _ _ n] cap e by (auto simp: conn_io_def)
    moreover have "(\<lambda>x. rc x @ echo_kept1 x e w) = rc(c := rc c)" using True by (auto simp: echo_kept1_def)
    moreover have "echo_inv (rc(c := rc c)) (put_io c t w)" by (rule echo_put [OF inv c calculation(2,3)])
    ultimately show ?thesis using True by (simp add: e echo_readable_def)
  next
    case False
    have same: "echo_readable c (Read_Bytes d) (Write_Error n) w = echo_readable c (Read_Bytes d) (Write_Error EWOULDBLOCK) w"
    proof (cases "d = []")
      case True
      have "buf_inv (c_in (fst (conn_io c w)))" using io conn echo_input_inv by (simp add: echo_conn_ok_def)
      from handleRead_eof [OF this] show ?thesis by (simp add: echo_readable_def True)
    next
      case d: False
      obtain b where b: "\<And>a. handleRead echo_onConnection (echo_onMessage a) (Read_Bytes d) (conn_io c w) =
          sendInLoop a d (on_conn (c_in_update (\<lambda>_. b)) (conn_io c w))"
        using echo_message_send [OF io conn d] cap by (metis conn_io_def fst_conv)
      have "conn_writing (on_conn (c_in_update (\<lambda>_. b)) (conn_io c w)) \<or>
          readableBytes (c_out (fst (on_conn (c_in_update (\<lambda>_. b)) (conn_io c w)))) \<noteq> 0"
        using False d n e by (auto simp: conn_io_def)
      from sendInLoop_buffers [OF this, of "Write_Error n" d "Write_Error EWOULDBLOCK"] show ?thesis by (simp add: echo_readable_def b)
    qed
    have "(\<lambda>x. rc x @ echo_kept1 x e w) = rc(c := rc c @ d)" using False by (auto simp: echo_kept1_def e)
    with echo_inv_read [OF inv ok' small'] show ?thesis by (simp add: e same)
  qed
qed

lemma echo_run_may:
  assumes "echo_inv rc w" and "echo_always echo_may es w"
    and "\<And>c. length (rc c @ echo_received c es) \<le> 2 ^ 62"
  shows "\<exists>w'. echo_run es w = Inr w' \<and> echo_inv (\<lambda>c. rc c @ echo_kept c es w) w'"
  using assms
proof (induction es arbitrary: rc w)
  case Nil
  then show ?case by simp
next
  case (Cons e es)
  have total: "length (rc c) + (length (echo_received c [e]) + length (echo_received c es)) \<le> 2 ^ 62" for c
    using Cons.prems(3) [of c] by (subst (asm) echo_received_Cons) simp
  have small: "length (rc c @ echo_received c [e]) \<le> 2 ^ 62" for c using total [of c] by simp
  obtain w' where w': "echo_step e w = Inr w'" "echo_inv (\<lambda>c. rc c @ echo_kept1 c e w) w'"
    using echo_step_may [OF Cons.prems(1) _ small] Cons.prems(2) by auto
  have "length (echo_kept1 c e w) \<le> length (echo_received c [e])" for c by (simp add: echo_kept1_def)
  with total have "length ((rc c @ echo_kept1 c e w) @ echo_received c es) \<le> 2 ^ 62" for c
    by (smt (verit) add.assoc add_le_mono le_refl le_trans length_append)
  with Cons.IH [OF w'(2)] Cons.prems(2) w'(1) show ?case by auto
qed

section \<open>Properties\<close>

lemma echo_inv_start: "echo_inv (\<lambda>_. []) (EchoServer_start loop_of tid (EchoServer_new base ip name ch fd loops conns))"
proof -
  have "w_objects (EchoServer_start loop_of tid (EchoServer_new base ip name ch fd loops conns)) = 0"
    by (simp add: EchoServer_start_def EchoServer_new_def server_start_def server_setThreadNum_def TcpServer_new_def
        dispatch_def acceptor_listen_def Let_def split: prod.splits)
  then show ?thesis by (simp add: echo_inv_def)
qed

text \<open>C2: The echo server echoes: in every run of accepted connections, ready descriptors, hang-ups and queued functors, however
  the events of the connections on the shared loops are interleaved and whatever \<open>readv\<close> and \<open>write\<close> answer, no handler
  goes undefined. What has been sent on a connection is a prefix of what was received and kept on it, and while the connection
  is open the rest is in its output buffer, the input buffer is empty and never has more than 131079 bytes; once the
  connection no longer watches for output, everything kept has been sent back. Kept is everything that was received,
  except the messages for which \<open>write\<close> on the idle connection answered EPIPE or ECONNRESET: these are dropped. So on a
  connection that never broke nothing is missing.\<close>
theorem echo_server_echoes:
  assumes "echo_always echo_may es (EchoServer_start loop_of tid (EchoServer_new base ip name ch fd loops conns))"
    and "\<And>c. length (echo_received c es) \<le> 2 ^ 62"
  shows "\<exists>w kept. echo_run es (EchoServer_start loop_of tid (EchoServer_new base ip name ch fd loops conns)) = Inr w \<and>
    kept = (\<lambda>c. echo_kept c es (EchoServer_start loop_of tid (EchoServer_new base ip name ch fd loops conns))) \<and>
    (\<forall>c < w_objects w. ((\<forall>e \<in> set es. \<not> breaks c e) \<longrightarrow> kept c = echo_received c es) \<and>
      prefix (c_sent (w_conn w c)) (kept c) \<and>
      (c_state (w_conn w c) = kConnected \<longrightarrow>
        c_sent (w_conn w c) @ buf_content (c_out (w_conn w c)) = kept c \<and>
        buf_content (c_in (w_conn w c)) = [] \<and> length (buf_data (c_in (w_conn w c))) \<le> 131079 \<and>
        (\<not> isWriting (conn_chan c w) \<longrightarrow> c_sent (w_conn w c) = kept c)))"
proof -
  let ?w0 = "EchoServer_start loop_of tid (EchoServer_new base ip name ch fd loops conns)"
  obtain w where w: "echo_run es ?w0 = Inr w" "echo_inv (\<lambda>c. echo_kept c es ?w0) w"
    using echo_run_may [OF echo_inv_start assms(1)] assms(2) by auto
  have "prefix (c_sent k) r \<and> (c_state k = kConnected \<longrightarrow> c_sent k @ buf_content (c_out k) = r \<and>
      buf_content (c_in k) = [] \<and> length (buf_data (c_in k)) \<le> 131079 \<and> (\<not> isWriting h \<longrightarrow> c_sent k = r))"
    if "echo_conn_ok r k h" for r k h
    using that echo_input_inv [of "c_in k"]
    by (cases "c_state k = kDisconnected") (auto simp: echo_conn_ok_def echo_input_ok_def)
  then show ?thesis using w echo_invD(1) [OF w(2)] echo_kept_unbroken [OF w(1)] by blast
qed

text \<open>
  A client that ends its stream before it has read everything loses the rest of its echo: at the end of file the
  connection closes with bytes in its output buffer, and no later writable event sends any of them.
\<close>

lemma echo_eof_drops_output:
  assumes "conn_inv s"
  shows "\<exists>t. handleRead echo_onConnection (echo_onMessage a) (Read_Bytes []) s = Inr t
    \<and> c_state (fst t) = kDisconnected \<and> c_sent (fst t) = c_sent (fst s)
    \<and> buf_content (c_out (fst t)) = buf_content (c_out (fst s)) \<and> (\<forall>b. handleWrite b t = t)"
proof -
  have "buf_inv (c_in (fst s))" using assms by (simp add: conn_inv_def)
  from handleRead_eof [OF this] handleClose_frame(3,4) [of s] show ?thesis
    by (simp add: handleWrite_def)
qed

text \<open>A server whose loops live in threads 1, 2, ...; one connection is accepted, receives five bytes and sends two of them at once.\<close>

definition echo_demo_events :: "echo_event list" where
  "echo_demo_events = [Accept 7 2, Run_Functor 2 (Connect_Established 0), Readable 0 (Read_Bytes ''hello'') (Wrote 2)]"

lemma EventLoop_new_tid [simp]: "l_threadId (EventLoop_new t n f) = t"
  by (simp add: EventLoop_new_def enableReading_def channel_update_def poller_updateChannel_def poller_update_def Let_def)

definition echo_demo :: world where
  "echo_demo = EchoServer_start Suc 1 (EchoServer_new 0 ''h:80'' ''s'' 1 4 (\<lambda>i. EventLoop_new (int i + 1) 0 (\<lambda>_. 9))
     (\<lambda>_. fst (TcpConnection_new 0 [] 0 0 (EventLoop_new 1 0 (\<lambda>_. 9)))))"

lemma echo_demo_facts: "w_objects echo_demo = 0" "w_nextConnId echo_demo = 1" "w_acceptChannel echo_demo = 1"
  "p_loops (w_pool echo_demo) = [1, 2, 3]" "p_next (w_pool echo_demo) = 0" "l_threadId (w_loop echo_demo i) = int i + 1"
  "w_base echo_demo = 0"
  by (simp_all add: echo_demo_def EchoServer_start_def EchoServer_new_def server_start_def server_setThreadNum_def
      TcpServer_new_def dispatch_def isInLoopThread_def acceptor_listen_def pool_start_def pool_setThreadNum_def pool_new_def
      enableReading_def channel_update_def Let_def upt_rec)

lemma echo_demo_accept: "\<exists>w. echo_step (Accept 7 2) echo_demo = Inr w \<and> w_objects w = 1 \<and>
    c_state (w_conn w 0) = kConnecting \<and> c_in (w_conn w 0) = buffer_new kInitialSize"
  by (simp add: acceptor_handleRead_def newConnection_def echo_demo_facts getNextLoop_def TcpConnection_new_def
      dispatch_def isInLoopThread_def setWriteCompleteCallback_def INT_MAX_def Let_def)

lemma echo_demo_possible: "echo_always echo_possible echo_demo_events echo_demo"
proof -
  obtain w where w: "echo_step (Accept 7 2) echo_demo = Inr w" "w_objects w = 1"
    "c_state (w_conn w 0) = kConnecting" "c_in (w_conn w 0) = buffer_new kInitialSize"
    using echo_demo_accept by blast
  have "readv_capacity (buffer_new kInitialSize) = 66560"
    by (simp add: readv_capacity_def writableBytes_def buffer_new_def kInitialSize_def extrabuf_size_def
        size_arith)
  then have "echo_possible (Readable 0 (Read_Bytes ''hello'') (Wrote 2))
      (run_functor echo_onConnection 2 (Connect_Established 0) w)"
    using w by (simp add: put_io_def conn_io_def connectEstablished_def echo_onConnection_def Let_def)
  moreover have "echo_possible (Accept 7 2) echo_demo" by (simp add: echo_demo_facts INT_MAX_def)
  moreover have "echo_possible (Run_Functor 2 (Connect_Established 0)) w" using w by simp
  ultimately show ?thesis
    using w(1) by (simp add: echo_demo_events_def del: echo_possible.simps echo_step.simps(1) run_functor.simps
        split: sum.split)
qed

lemma echo_demo_may: "echo_always echo_may echo_demo_events echo_demo"
proof -
  have "echo_always P es w \<Longrightarrow> (\<And>e w. P e w \<Longrightarrow> Q e w) \<Longrightarrow> echo_always Q es w" for P Q es w
    by (induction es arbitrary: w) (auto split: sum.splits)
  moreover have "echo_possible e w \<Longrightarrow> echo_may e w" for e w
    by (cases "(e, w)" rule: echo_may.cases) (auto simp: errno_defs split: read_result.splits)
  ultimately show ?thesis using echo_demo_possible by blast
qed

theorem echo_server_echoes_witness:
  "\<exists>w. echo_run echo_demo_events echo_demo = Inr w \<and> w_objects w = 1 \<and> prefix (c_sent (w_conn w 0)) ''hello'' \<and>
     (c_state (w_conn w 0) = kConnected \<longrightarrow> c_sent (w_conn w 0) @ buf_content (c_out (w_conn w 0)) = ''hello'')"
proof -
  have rc: "echo_received c echo_demo_events = (if c = 0 then ''hello'' else [])" for c
    by (simp add: echo_demo_events_def)
  then have small: "length (echo_received c echo_demo_events) \<le> 2 ^ 62" for c by simp
  have whole: "\<forall>e \<in> set echo_demo_events. \<not> breaks c e" for c by (simp add: echo_demo_events_def)
  obtain w where w: "echo_run echo_demo_events echo_demo = Inr w" "\<forall>c < w_objects w. prefix (c_sent (w_conn w c)) (echo_received c echo_demo_events) \<and>
      (c_state (w_conn w c) = kConnected \<longrightarrow>
        c_sent (w_conn w c) @ buf_content (c_out (w_conn w c)) = echo_received c echo_demo_events)"
    using echo_server_echoes [of echo_demo_events, OF echo_demo_may [unfolded echo_demo_def] small] whole
    unfolding echo_demo_def by metis
  obtain w1 where w1: "echo_step (Accept 7 2) echo_demo = Inr w1" "w_objects w1 = 1"
    using echo_demo_accept by blast
  have "w_objects w = 1"
    using w(1) w1 by (auto simp: echo_demo_events_def echo_readable_def put_io_def simp del: echo_step.simps(1))
  with w rc show ?thesis by auto
qed

end
