(* ===== verification/Muduo_Watch.thy ===== *)
theory Muduo_Watch
  imports Muduo_Echo
begin

text \<open>
  What the kernel watches while the echo server runs: the \<open>epoll_ctl\<close> calls of all loops, of the acceptor and of the
  connections, whose descriptors are reused after a close. It joins the agreement of poller and kernel
  (\<open>Muduo_Poller\<close>) to the runs of \<open>Muduo_Echo\<close>: bytes that wait in an output buffer are always waited for.
\<close>

section \<open>Channels and the interest list\<close>

text \<open>
  \<open>S\<close> is a set of channels of one loop with a descriptor each. In contrast to \<open>poller_inv\<close> nothing is said of the
  poller's map, which keeps an entry for a closed connection whose descriptor may have a new owner.
\<close>

definition loop_watch :: "chan_id set \<Rightarrow> 'a reactor_scheme \<Rightarrow> bool" where
  "loop_watch S r \<longleftrightarrow> inj_on (\<lambda>c. ch_fd (r_chan r c)) S \<and> log_legal Map.empty (r_ctl r) \<and>
     (\<forall>c\<in>S. ch_index (r_chan r c) \<in> {kNew, kAdded, kDeleted} \<and>
        interest (r_ctl r) (ch_fd (r_chan r c)) =
          (if ch_index (r_chan r c) = kAdded then Some (ch_events (r_chan r c), c) else None))"

lemma loop_watch_mono: "loop_watch S r \<Longrightarrow> T \<subseteq> S \<Longrightarrow> loop_watch T r"
  by (auto simp: loop_watch_def intro: inj_on_subset)

lemma loop_watch_cong: "r_chan r = r_chan r' \<Longrightarrow> r_ctl r = r_ctl r' \<Longrightarrow> loop_watch S r \<longleftrightarrow> loop_watch S r'"
  by (simp add: loop_watch_def)

lemma loop_watch_local:
  assumes inv: "loop_watch S r" and c: "c \<in> S"
    and chan: "\<And>d. d \<noteq> c \<Longrightarrow> r_chan r' d = r_chan r d"
    and fd: "ch_fd (r_chan r' c) = ch_fd (r_chan r c)"
    and frame: "\<And>fd. fd \<noteq> ch_fd (r_chan r c) \<Longrightarrow> interest (r_ctl r') fd = interest (r_ctl r) fd"
    and own: "ch_index (r_chan r' c) \<in> {kNew, kAdded, kDeleted}" "interest (r_ctl r') (ch_fd (r_chan r' c)) =
        (if ch_index (r_chan r' c) = kAdded then Some (ch_events (r_chan r' c), c) else None)"
    and legal: "log_legal Map.empty (r_ctl r')"
  shows "loop_watch S r'"
proof -
  have inj: "inj_on (\<lambda>c. ch_fd (r_chan r c)) S" using inv by (simp add: loop_watch_def)
  have same: "ch_fd (r_chan r' d) = ch_fd (r_chan r d)" for d
    using fd chan by (cases "d = c") auto
  have "ch_index (r_chan r' d) \<in> {kNew, kAdded, kDeleted} \<and> interest (r_ctl r') (ch_fd (r_chan r' d)) =
      (if ch_index (r_chan r' d) = kAdded then Some (ch_events (r_chan r' d), d) else None)" if d: "d \<in> S" for d
  proof (cases "d = c")
    case True
    with own show ?thesis by simp
  next
    case False
    with inj c d have "ch_fd (r_chan r d) \<noteq> ch_fd (r_chan r c)" by (auto simp: inj_on_def)
    with inv d False frame show ?thesis by (simp add: loop_watch_def chan)
  qed
  with inj legal show ?thesis by (simp add: loop_watch_def same)
qed

lemma loop_watch_update:
  assumes inv: "loop_watch S r" and c: "c \<in> S"
  shows "loop_watch S (poller_updateChannel c (upd_chan c (ch_events_update f) r))"
proof -
  let ?ch = "r_chan r c"
  have at: "interest (r_ctl r) (ch_fd ?ch) = (if ch_index ?ch = kAdded then Some (ch_events ?ch, c) else None)"
    "log_legal Map.empty (r_ctl r)"
    using inv c by (auto simp: loop_watch_def)
  note eval = poller_updateChannel_def poller_update_def Let_def index_defs isNoneEvent_def ctl_apply_def ctl_legal_def
  consider (new) "ch_index ?ch = kNew" | (added) "ch_index ?ch = kAdded" | (deleted) "ch_index ?ch = kDeleted"
    using inv c by (auto simp: loop_watch_def)
  then show ?thesis
  proof cases
    case new
    show ?thesis
      by (rule loop_watch_local [OF inv c]) (use at new in \<open>auto simp: eval interest_def [symmetric]\<close>)
  next
    case added
    show ?thesis
      by (rule loop_watch_local [OF inv c]) (use at added in \<open>auto simp: eval interest_def [symmetric]\<close>)
  next
    case deleted
    show ?thesis
      by (rule loop_watch_local [OF inv c]) (use at deleted in \<open>auto simp: eval interest_def [symmetric]\<close>)
  qed
qed

lemma loop_watch_switch:
  assumes "loop_watch S r" and "c \<in> S"
  shows "loop_watch S (enableReading c r)" "loop_watch S (enableWriting c r)" "loop_watch S (disableWriting c r)"
    "loop_watch S (disableAll c r)"
  using loop_watch_update [OF assms]
  by (simp_all add: enableReading_def enableWriting_def disableWriting_def disableAll_def channel_update_def)

text \<open>A channel that is registered and watches for input.\<close>

definition watching :: "channel \<Rightarrow> bool" where
  "watching ch \<longleftrightarrow> isReading ch \<and> ch_index ch = kAdded"

lemma watching_switch:
  assumes "loop_watch S r" and "c \<in> S"
  shows "watching (r_chan (enableReading c r) c)"
    and "watching (r_chan r c) \<Longrightarrow> watching (r_chan (enableWriting c r) c)"
    and "watching (r_chan r c) \<Longrightarrow> watching (r_chan (disableWriting c r) c)"
proof -
  have reads: "\<not> isNoneEvent ch" if "isReading ch" for ch
    using that by (auto simp: isReading_def isNoneEvent_def kNoneEvent_def)
  have nonzero: "kReadEvent \<noteq> 0" by (simp add: mask_defs)
  have idx: "ch_index (r_chan r c) \<in> {kNew, kAdded, kDeleted}" using assms by (auto simp: loop_watch_def)
  have keep: "ch_index (r_chan (poller_updateChannel c l) c) = kAdded"
    if "isReading (r_chan l c)" "ch_index (r_chan l c) \<in> {kNew, kAdded, kDeleted}" for l :: "'a reactor_scheme"
    using that reads [OF that(1)] by (auto simp: poller_updateChannel_def poller_update_def Let_def index_defs)
  show "watching (r_chan (enableReading c r) c)"
    using idx keep [of "upd_chan c (ch_events_update (\<lambda>e. e OR kReadEvent)) r"] nonzero
    by (simp add: watching_def) (simp add: enableReading_def channel_update_def isReading_def read_write_masks)
  show "watching (r_chan (enableWriting c r) c)" if "watching (r_chan r c)"
    using that idx keep [of "upd_chan c (ch_events_update (\<lambda>e. e OR kWriteEvent)) r"]
    by (simp add: watching_def) (simp add: enableWriting_def channel_update_def isReading_def read_write_masks)
  show "watching (r_chan (disableWriting c r) c)" if "watching (r_chan r c)"
    using that idx keep [of "upd_chan c (ch_events_update (\<lambda>e. e AND NOT kWriteEvent)) r"]
    by (simp add: watching_def) (simp add: disableWriting_def channel_update_def isReading_def read_write_masks)
qed

section \<open>The handlers of a connection\<close>

definition io_watch :: "chan_id set \<Rightarrow> io \<Rightarrow> bool" where
  "io_watch S s \<longleftrightarrow> loop_watch S (snd s) \<and> c_channel (fst s) \<in> S \<and>
     (c_state (fst s) = kConnected \<longrightarrow> watching (r_chan (snd s) (c_channel (fst s))))"

lemma io_watch_conn:
  "c_channel k = c_channel (fst s) \<Longrightarrow> c_state k = c_state (fst s) \<Longrightarrow> io_watch S (k, snd s) \<longleftrightarrow> io_watch S s"
  by (simp add: io_watch_def)

lemma queueInLoop_ctl [simp]: "r_ctl (queueInLoop tid f l) = r_ctl l"
  by simp

lemma io_watch_queue [simp]: "io_watch S (queue_own f s) \<longleftrightarrow> io_watch S s"
  by (simp add: io_watch_def queue_own_def loop_watch_def)

lemma io_watch_switch:
  assumes "io_watch S s"
  shows "io_watch S (on_loop (enableWriting (c_channel (fst s))) s)"
    and "io_watch S (on_loop (disableWriting (c_channel (fst s))) s)"
  using assms loop_watch_switch [of S "snd s" "c_channel (fst s)"] watching_switch(2,3) [of S "snd s" "c_channel (fst s)"]
  by (simp_all add: io_watch_def)

lemma io_watch_send:
  assumes "sendInLoop a d s = Inr t" and "io_watch S s"
  shows "io_watch S t"
proof -
  obtain n k f u where u: "sendInLoop_write a d s = Inr (n, k, f, u)" "sendInLoop_buffer d (n, k, f, u) = Inr t"
    using assms(1) by (auto simp: sendInLoop_def)
  have w: "io_watch S u"
    using u(1) assms(2) io_watch_conn [of "c_sent_update g (fst s)" s S for g]
    by (auto simp: sendInLoop_write_def Let_def split: if_splits write_result.splits)
  show ?thesis
  proof (cases "\<not> f \<and> 0 < k")
    case False
    with u(2) w show ?thesis by (auto simp: sendInLoop_buffer_def)
  next
    case True
    define v where "v = (if c_highWaterMark (fst u) \<le> sz_add (readableBytes (c_out (fst u))) k
         \<and> readableBytes (c_out (fst u)) < c_highWaterMark (fst u) \<and> c_has_highWaterMark (fst u)
       then queue_own (High_Water_Mark (c_id (fst u)) (sz_add (readableBytes (c_out (fst u))) k)) u else u)"
    have v: "io_watch S v" using w by (simp add: v_def)
    have "res_bind (buf_append (drop n d) (c_out (fst v)))
        (\<lambda>b. let s2 = on_conn (c_out_update (\<lambda>_. b)) v
              in Inr (if \<not> conn_writing s2 then on_loop (enableWriting (c_channel (fst s2))) s2 else s2)) = Inr t"
      using u(2) True unfolding sendInLoop_buffer_def v_def by (simp only: Let_def prod.case if_True not_False_eq_True simp_thms)
    then obtain b where t: "t = (let s2 = on_conn (c_out_update (\<lambda>_. b)) v
        in if \<not> conn_writing s2 then on_loop (enableWriting (c_channel (fst s2))) s2 else s2)"
      unfolding res_bind_Inr_iff Let_def by blast
    have "io_watch S (on_conn (c_out_update (\<lambda>_. b)) v)" using v by (simp add: io_watch_conn)
    with io_watch_switch(1) [OF this] show ?thesis by (simp add: t Let_def)
  qed
qed

lemma io_watch_write:
  assumes "io_watch S s"
  shows "io_watch S (handleWrite a s)"
proof -
  have shut: "io_watch S (shutdownInLoop u) = io_watch S u" for u
    by (simp add: shutdownInLoop_def io_watch_conn)
  let ?s1 = "\<lambda>n. on_conn (\<lambda>c. c\<lparr>c_sent := c_sent c @ take n (buf_content (c_out c)), c_out := buf_retrieve n (c_out c)\<rparr>) s"
  have 1: "io_watch S (?s1 n)" for n using assms by (simp add: io_watch_conn)
  note sw = io_watch_switch(2) [OF 1]
  show ?thesis
    using assms 1 sw by (auto simp: handleWrite_def shut Let_def simp del: fst_conv snd_conv split: prod.splits)
qed

lemma io_watch_close: "io_watch S s \<Longrightarrow> io_watch S (handleClose echo_onConnection s)"
  using loop_watch_switch(4) [of S "snd s" "c_channel (fst s)"]
  by (simp add: io_watch_def handleClose_def echo_onConnection_def Let_def)

lemma loop_watch_tie: "loop_watch S (upd_chan c tie r) \<longleftrightarrow> loop_watch S r"
proof -
  have "ch_fd (r_chan (upd_chan c tie r) d) = ch_fd (r_chan r d)" "ch_index (r_chan (upd_chan c tie r) d) = ch_index (r_chan r d)"
    "ch_events (r_chan (upd_chan c tie r) d) = ch_events (r_chan r d)" for d
    by simp_all
  moreover have "r_ctl (upd_chan c tie r) = r_ctl r" by simp
  ultimately show ?thesis by (simp only: loop_watch_def)
qed

lemma io_watch_established:
  assumes "io_watch S s"
  shows "io_watch S (connectEstablished echo_onConnection s)"
proof -
  let ?c = "c_channel (fst s)"
  have t: "loop_watch S (upd_chan ?c tie (snd s))" "?c \<in> S" using assms by (simp_all add: io_watch_def loop_watch_tie)
  from loop_watch_switch(1) [OF t] watching_switch(1) [OF t] t(2) show ?thesis
    by (simp add: io_watch_def connectEstablished_def echo_onConnection_def Let_def)
qed

lemma io_watch_read:
  assumes "handleRead echo_onConnection (echo_onMessage a) r s = Inr t" and "io_watch S s"
  shows "io_watch S t"
proof -
  obtain n e b where "buf_readFd r (c_in (fst s)) = Inr (n, e, b)"
    and t: "(let s1 = on_conn (c_in_update (\<lambda>_. b)) s in if 0 < n then echo_onMessage a s1
      else if n = 0 then Inr (handleClose echo_onConnection s1) else Inr (handleError s1)) = Inr t"
    using assms(1) by (auto simp: handleRead_def)
  let ?s1 = "on_conn (c_in_update (\<lambda>_. b)) s"
  have w: "io_watch S ?s1" using assms(2) by (simp add: io_watch_conn)
  show ?thesis
  proof (cases "0 < n")
    case True
    with t obtain msg b' where "conn_send (l_threadId (snd ?s1)) a msg (on_conn (c_in_update (\<lambda>_. b')) ?s1) = Inr t"
      by (auto simp: echo_onMessage_def Let_def)
    moreover have "io_watch S (on_conn (c_in_update (\<lambda>_. b')) ?s1)" using w by (simp add: io_watch_conn)
    ultimately show ?thesis
      by (auto simp: conn_send_def isInLoopThread_def intro: io_watch_send split: if_splits)
  next
    case False
    with t w io_watch_close [OF w] show ?thesis by (auto simp: Let_def handleError_def split: if_splits)
  qed
qed

section \<open>The loops of the server\<close>

text \<open>The channels of a loop that are in use: those of its connections that are not closed, and the acceptor's.\<close>

definition used_channels :: "loop_id \<Rightarrow> world \<Rightarrow> chan_id set" where
  "used_channels i w = {c_channel (w_conn w c) | c. c < w_objects w \<and> w_owner w c = i \<and> c_state (w_conn w c) \<noteq> kDisconnected}
     \<union> (if i = w_base w then {w_acceptChannel w} else {})"

definition kernel_inv :: "world \<Rightarrow> bool" where
  "kernel_inv w \<longleftrightarrow> (\<forall>i. loop_watch (used_channels i w) (w_loop w i)) \<and>
     (\<forall>c < w_objects w. c_state (w_conn w c) = kConnected \<longrightarrow> watching (conn_chan c w))"

text \<open>
  \<open>accept4\<close> gives a descriptor that is not open: no connection that is not closed has it, nor the acceptor, and the
  loop the connection will belong to does not watch it.
\<close>

fun fd_unused :: "echo_event \<Rightarrow> world \<Rightarrow> bool" where
  "fd_unused (Accept fd ch) w \<longleftrightarrow> interest (r_ctl (w_loop w (fst (getNextLoop (w_pool w))))) fd = None \<and>
     ch_fd (r_chan (w_loop w (w_base w)) (w_acceptChannel w)) \<noteq> fd \<and>
     list_all (\<lambda>c. c_state (w_conn w c) \<noteq> kDisconnected \<longrightarrow> ch_fd (conn_chan c w) \<noteq> fd) [0..<w_objects w]"
| "fd_unused _ w \<longleftrightarrow> True"

lemma kernel_invD:
  assumes "kernel_inv w"
  shows "loop_watch (used_channels i w) (w_loop w i)"
    and "c < w_objects w \<Longrightarrow> c_state (w_conn w c) = kConnected \<Longrightarrow> watching (conn_chan c w)"
  using assms by (simp_all add: kernel_inv_def)

lemma kernel_conn:
  assumes "kernel_inv w" and "c < w_objects w" and "c_state (w_conn w c) \<noteq> kDisconnected"
  shows "io_watch (used_channels (w_owner w c) w) (conn_io c w)"
  using kernel_invD [OF assms(1)] assms(2,3) by (auto simp: io_watch_def conn_io_def used_channels_def)

lemma kernel_put:
  assumes inv: "kernel_inv w" and echo: "echo_inv rc w" and c: "c < w_objects w" "c_state (w_conn w c) \<noteq> kDisconnected"
    and own: "own_channel (conn_io c w) s" and s: "io_watch (used_channels (w_owner w c) w) s"
  shows "kernel_inv (put_io c s w)"
proof -
  let ?w = "put_io c s w"
  have chan: "c_channel (w_conn ?w d) = c_channel (w_conn w d)" for d
    using own by (simp add: own_channel_def put_io_def conn_io_def)
  have same: "w_objects ?w = w_objects w" "w_owner ?w = w_owner w" "w_acceptChannel ?w = w_acceptChannel w" "w_base ?w = w_base w"
    by (simp_all add: put_io_def)
  have state: "c_state (w_conn ?w d) = c_state (w_conn w d)" if "d \<noteq> c" for d
    using that by (simp add: put_io_def)
  have sub: "used_channels i ?w \<subseteq> used_channels i w" for i
  proof
    fix x assume "x \<in> used_channels i ?w"
    then consider "i = w_base w" "x = w_acceptChannel w"
      | d where "x = c_channel (w_conn w d)" "d < w_objects w" "w_owner w d = i" "c_state (w_conn ?w d) \<noteq> kDisconnected"
      unfolding used_channels_def chan same by (auto split: if_splits)
    then show "x \<in> used_channels i w"
    proof cases
      case 1
      then show ?thesis by (simp add: used_channels_def)
    next
      case (2 d)
      then have "c_state (w_conn w d) \<noteq> kDisconnected" using c(2) state by (cases "d = c") auto
      with 2 show ?thesis by (auto simp: used_channels_def)
    qed
  qed
  have "loop_watch (used_channels i w) (w_loop ?w i)" for i
    using kernel_invD(1) [OF inv, of i] s by (cases "i = w_owner w c") (simp_all add: put_io_def io_watch_def)
  then have loops: "loop_watch (used_channels i ?w) (w_loop ?w i)" for i
    using loop_watch_mono sub by blast
  have "watching (conn_chan d ?w)" if d: "d < w_objects w" "c_state (w_conn ?w d) = kConnected" for d
  proof (cases "d = c")
    case True
    with d(2) s own show ?thesis by (simp add: put_io_def io_watch_def)
  next
    case False
    have "c_channel (w_conn w d) \<noteq> c_channel (w_conn w c)" using echo_invD(3) [OF echo d(1) c(1)] False by blast
    then have "conn_chan d ?w = conn_chan d w"
      using own False by (simp add: put_io_def own_channel_def conn_io_def)
    with kernel_invD(2) [OF inv d(1)] d(2) state [OF False] show ?thesis by simp
  qed
  with loops show ?thesis by (simp add: kernel_inv_def same)
qed

lemma kernel_same:
  assumes inv: "kernel_inv w" and eq: "w_objects w' = w_objects w" "w_owner w' = w_owner w" "w_conn w' = w_conn w"
    "w_acceptChannel w' = w_acceptChannel w" "w_base w' = w_base w"
    and loops: "\<And>i. r_chan (w_loop w' i) = r_chan (w_loop w i)" "\<And>i. r_ctl (w_loop w' i) = r_ctl (w_loop w i)"
  shows "kernel_inv w'"
proof -
  have "used_channels i w' = used_channels i w" for i by (simp add: used_channels_def eq)
  moreover have "loop_watch S (w_loop w' i) = loop_watch S (w_loop w i)" for S i
    by (rule loop_watch_cong) (rule loops)+
  ultimately show ?thesis using inv by (simp add: kernel_inv_def eq loops)
qed

lemma kernel_remove:
  assumes "kernel_inv w"
  shows "kernel_inv (run_functor user tid (Remove_Connection_In_Loop c) w)"
    and "kernel_inv (removeConnection user tid' c w)"
proof -
  show 1: "kernel_inv (run_functor user tid (Remove_Connection_In_Loop c) w)" for tid
    by (rule kernel_same [OF assms]) (simp_all add: removeConnectionInLoop_def Let_def)
  have "kernel_inv (upd_loop i (queueInLoop tid' f) w)" for i f
    by (rule kernel_same [OF assms]) auto
  with 1 show "kernel_inv (removeConnection user tid' c w)" by (simp add: removeConnection_def dispatch_def)
qed

lemma loop_watch_insert:
  assumes "loop_watch S r" and "ch \<notin> S" and "interest (r_ctl r) (ch_fd k) = None" and "ch_index k = kNew"
    and "\<And>c. c \<in> S \<Longrightarrow> ch_fd (r_chan r c) \<noteq> ch_fd k" and "r_chan l = (r_chan r)(ch := k)" and "r_ctl l = r_ctl r"
  shows "loop_watch (insert ch S) l"
proof -
  have old: "r_chan l c = r_chan r c" if "c \<in> S" for c using that assms(2,6) by auto
  have inj: "inj_on (\<lambda>c. ch_fd (r_chan r c)) S" using assms(1) by (simp add: loop_watch_def)
  have "inj_on (\<lambda>c. ch_fd (r_chan l c)) (insert ch S)"
  proof (rule inj_onI)
    fix x y assume xy: "x \<in> insert ch S" "y \<in> insert ch S" "ch_fd (r_chan l x) = ch_fd (r_chan l y)"
    have new: "ch_fd (r_chan l ch) = ch_fd k" using assms(6) by simp
    consider "x = ch" "y = ch" | "x = ch" "y \<in> S" | "x \<in> S" "y = ch" | "x \<in> S" "y \<in> S" using xy by auto
    then show "x = y"
      using xy(3) new old assms(5) inj by cases (force, metis, metis, metis inj_onD)
  qed
  moreover have "ch_index (r_chan l c) \<in> {kNew, kAdded, kDeleted} \<and> interest (r_ctl l) (ch_fd (r_chan l c)) =
      (if ch_index (r_chan l c) = kAdded then Some (ch_events (r_chan l c), c) else None)" if c: "c \<in> insert ch S" for c
  proof (cases "c = ch")
    case True
    then show ?thesis using assms(3,4,6,7) by (simp add: index_defs)
  next
    case False
    then have "c \<in> S" using c by simp
    with assms(1) old [OF this] assms(7) show ?thesis by (simp add: loop_watch_def)
  qed
  moreover have "log_legal Map.empty (r_ctl l)" using assms(1,7) by (simp add: loop_watch_def)
  ultimately show ?thesis by (simp add: loop_watch_def)
qed

lemma kernel_added:
  assumes inv: "kernel_inv w" and echo: "echo_inv rc w" and ok: "echo_possible (Accept fd ch) w"
    and fd: "fd_unused (Accept fd ch) w" and i: "getNextLoop (w_pool w) = (i, p)"
    and k: "c_channel k = ch" "c_state k = kConnecting" "r_chan l = (r_chan (w_loop w i))(ch := r_chan l ch)"
      "r_ctl l = r_ctl (w_loop w i)" "ch_fd (r_chan l ch) = fd" "ch_index (r_chan l ch) = kNew"
  shows "kernel_inv (added_conn i p k l w)"
proof -
  let ?c = "w_objects w" and ?w = "added_conn i p k l w"
  have fresh: "c_channel (w_conn w d) \<noteq> ch" if "d < ?c" for d using ok that by (simp add: list_all_iff)
  have acc: "ch \<noteq> w_acceptChannel w" using ok by simp
  have conns: "w_conn ?w d = w_conn w d" "w_owner ?w d = w_owner w d" if "d < ?c" for d
    using that by (simp_all add: added_conn_def)
  have same: "w_objects ?w = Suc ?c" "w_base ?w = w_base w" "w_acceptChannel ?w = w_acceptChannel w"
    "w_conn ?w ?c = k" "w_owner ?w ?c = i" "w_loop ?w i = l" by (simp_all add: added_conn_def)
  have sub: "used_channels j ?w \<subseteq> (if j = i then insert ch (used_channels i w) else used_channels j w)" for j
  proof
    fix x assume "x \<in> used_channels j ?w"
    then consider "j = w_base w" "x = w_acceptChannel w"
      | d where "x = c_channel (w_conn ?w d)" "d < Suc ?c" "w_owner ?w d = j" "c_state (w_conn ?w d) \<noteq> kDisconnected"
      unfolding used_channels_def same by (auto split: if_splits)
    then show "x \<in> (if j = i then insert ch (used_channels i w) else used_channels j w)"
    proof cases
      case 1
      then show ?thesis by (auto simp: used_channels_def)
    next
      case (2 d)
      show ?thesis
      proof (cases "d = ?c")
        case True
        with 2 k(1) same show ?thesis by simp
      next
        case False
        with 2 have "d < ?c" by simp
        with 2 conns [OF this] show ?thesis by (auto simp: used_channels_def)
      qed
    qed
  qed
  have new: "loop_watch (insert ch (used_channels i w)) l"
  proof (rule loop_watch_insert [OF kernel_invD(1) [OF inv, of i] _ _ k(6) _ k(3,4)])
    show "ch \<notin> used_channels i w" using fresh acc by (auto simp: used_channels_def split: if_splits)
    show "interest (r_ctl (w_loop w i)) (ch_fd (r_chan l ch)) = None" using fd i by (simp add: k(5))
    show "ch_fd (r_chan (w_loop w i) c) \<noteq> ch_fd (r_chan l ch)" if "c \<in> used_channels i w" for c
      using that fd by (auto simp: k(5) used_channels_def list_all_iff split: if_splits)
  qed
  have "loop_watch (if j = i then insert ch (used_channels i w) else used_channels j w) (w_loop ?w j)" for j
    using new kernel_invD(1) [OF inv, of j] by (simp add: added_conn_def)
  then have loops: "loop_watch (used_channels j ?w) (w_loop ?w j)" for j
    using loop_watch_mono sub by blast
  have "watching (conn_chan d ?w)" if d: "d < Suc ?c" "c_state (w_conn ?w d) = kConnected" for d
  proof (cases "d = ?c")
    case True
    with d(2) k(2) same show ?thesis by simp
  next
    case False
    with d(1) have lt: "d < ?c" by simp
    have "r_chan l (c_channel (w_conn w d)) = r_chan (w_loop w i) (c_channel (w_conn w d))"
      using fresh [OF lt] by (subst k(3)) simp
    then have "conn_chan d ?w = conn_chan d w" using lt by (simp add: added_conn_def)
    with kernel_invD(2) [OF inv lt] d(2) conns [OF lt] show ?thesis by simp
  qed
  with loops show ?thesis by (simp add: kernel_inv_def same)
qed

lemma kernel_established:
  assumes "kernel_inv w" and "echo_inv rc w" and "c < w_objects w" and "c_state (w_conn w c) = kConnecting"
  shows "kernel_inv (run_functor echo_onConnection tid (Connect_Established c) w)"
proof -
  have s: "io_watch (used_channels (w_owner w c) w) (conn_io c w)" using kernel_conn [OF assms(1,3)] assms(4) by simp
  have "own_channel (conn_io c w) (connectEstablished echo_onConnection (conn_io c w))"
    using echo_established(1) [OF echo_inv_conn [OF assms(2,3)]] assms(4) by (simp add: conn_io_def)
  with kernel_put [OF assms(1-3) _ _ io_watch_established [OF s]] assms(4) show ?thesis by simp
qed

lemma put_io_same [simp]: "put_io c (conn_io c w) w = w"
  by (simp add: put_io_def conn_io_def)

lemma kernel_read:
  assumes inv: "kernel_inv w" and echo: "echo_inv rc w" and ok: "echo_possible (Readable c r a) w"
    and step: "echo_readable c r a w = Inr w'" and small: "length (rc c @ echo_received c [Readable c r a]) \<le> 2 ^ 62"
  shows "kernel_inv w'"
proof -
  have c: "c < w_objects w" "isReading (conn_chan c w)" using ok by auto
  note io = echo_inv_conn [OF echo c(1)]
  have conn: "c_state (fst (conn_io c w)) = kConnected" using io c(2) by (auto simp: echo_conn_ok_def conn_io_def)
  obtain s where s: "handleRead echo_onConnection (echo_onMessage a) r (conn_io c w) = Inr s"
    "w' = (if r = Read_Bytes [] then removeConnection echo_onConnection (l_threadId (w_loop w (w_owner w c))) c (put_io c s w)
           else put_io c s w)"
    using step by (auto simp: echo_readable_def)
  have own: "own_channel (conn_io c w) s"
  proof (cases r)
    case (Read_Error e)
    with s(1) show ?thesis by (simp add: handleRead_error own_channel_def)
  next
    case (Read_Bytes d)
    show ?thesis
    proof (cases "d = []")
      case True
      have "buf_inv (c_in (fst (conn_io c w)))" using io conn echo_input_inv by (simp add: echo_conn_ok_def)
      with s(1) Read_Bytes True handleClose_frame(1) [of "conn_io c w"] show ?thesis by (auto simp: handleRead_eof)
    next
      case False
      have "length (rc c) + length d \<le> 2 ^ 62" using small Read_Bytes by simp
      with echo_message [OF io conn False, of a] ok Read_Bytes s(1) show ?thesis by (auto simp: conn_io_def)
    qed
  qed
  have "io_watch (used_channels (w_owner w c) w) s"
    using io_watch_read [OF s(1)] kernel_conn [OF inv c(1)] conn by (simp add: conn_io_def)
  with kernel_put [OF inv echo c(1) _ own] conn have "kernel_inv (put_io c s w)" by (simp add: conn_io_def)
  then show ?thesis using s(2) kernel_remove(2) by simp
qed

lemma kernel_step:
  assumes inv: "kernel_inv w" and echo: "echo_inv rc w" and ok: "echo_possible e w" and fd: "fd_unused e w"
    and step: "echo_step e w = Inr w'" and small: "\<And>c. length (rc c @ echo_received c [e]) \<le> 2 ^ 62"
  shows "kernel_inv w'"
proof (cases e)
  case (Accept fd' ch)
  show ?thesis
  proof (cases "0 \<le> fd'")
    case True
    then have new: "newConnection echo_onConnection (l_threadId (w_loop w (w_base w))) fd' ch w = Inr w'"
      using step Accept by (simp add: acceptor_handleRead_def)
    obtain i p k l where k: "getNextLoop (w_pool w) = (i, p)" "c_channel k = ch" "c_state k = kConnecting"
      "echo_conn_ok [] k (r_chan l ch)" "r_chan l = (r_chan (w_loop w i))(ch := r_chan l ch)"
      "r_ctl l = r_ctl (w_loop w i)" "ch_fd (r_chan l ch) = fd'" "ch_index (r_chan l ch) = kNew"
      "w' = dispatch echo_onConnection (l_threadId (w_loop w (w_base w))) i (Connect_Established (w_objects w)) (added_conn i p k l w)"
      using newConnection_split [OF new] by metis
    have 1: "kernel_inv (added_conn i p k l w)"
      by (rule kernel_added [OF inv echo ok [unfolded Accept] fd [unfolded Accept] k(1-3,5-8)])
    have 2: "echo_inv rc (added_conn i p k l w)" by (rule echo_inv_added [OF echo ok [unfolded Accept] k(2,4,5)])
    have "kernel_inv (upd_loop j (queueInLoop t f) (added_conn i p k l w))" for j t f
      by (rule kernel_same [OF 1]) auto
    moreover have "kernel_inv (run_functor echo_onConnection t (Connect_Established (w_objects w)) (added_conn i p k l w))" for t
      by (rule kernel_established [OF 1 2]) (simp_all add: added_conn_def k)
    ultimately show ?thesis by (simp add: k(9) dispatch_def)
  qed (use Accept step inv in \<open>simp add: acceptor_handleRead_def\<close>)
next
  case (Run_Functor tid f)
  then have w': "w' = run_functor echo_onConnection tid f w" using step by simp
  show ?thesis
  proof (cases f)
    case (Connect_Established c)
    with ok Run_Functor w' show ?thesis using kernel_established [OF inv echo] by simp
  next
    case (Remove_Connection_In_Loop c)
    with w' show ?thesis using kernel_remove(1) [OF inv] by simp
  next
    case (Connect_Destroyed c)
    with ok Run_Functor have "connectDestroted echo_onConnection (conn_io c w) = conn_io c w"
      by (simp add: connectDestroted_def conn_io_def)
    with w' Connect_Destroyed inv show ?thesis by simp
  next
    case Acceptor_Listen
    then have w'': "w' = acceptor_listen w" using w' by simp
    have S: "loop_watch (used_channels (w_base w) w) (w_loop w (w_base w))" "w_acceptChannel w \<in> used_channels (w_base w) w"
      by (rule kernel_invD(1) [OF inv]) (simp add: used_channels_def)
    have used: "used_channels i w' = used_channels i w" for i
      by (simp add: w'' acceptor_listen_def used_channels_def)
    have "loop_watch (used_channels i w') (w_loop w' i)" for i
      unfolding used using loop_watch_switch(1) [OF S] kernel_invD(1) [OF inv, of i] by (simp add: w'' acceptor_listen_def)
    moreover have "conn_chan c w' = conn_chan c w" if "c < w_objects w" for c
      using echo_invD(2) [OF echo that] by (simp add: w'' acceptor_listen_def enableReading_def channel_update_def)
    ultimately show ?thesis
      using kernel_invD(2) [OF inv] by (simp add: kernel_inv_def) (simp add: w'' acceptor_listen_def)
  qed (use ok Run_Functor in simp_all)
next
  case (Readable c r a)
  show ?thesis
    by (rule kernel_read [OF inv echo ok [unfolded Readable] step [unfolded Readable, simplified] small [of c, unfolded Readable]])
next
  case (Writable c a)
  have c: "c < w_objects w" and w': "w' = put_io c (handleWrite a (conn_io c w)) w" using ok step Writable by simp_all
  show ?thesis
  proof (cases "c_state (w_conn w c) = kDisconnected")
    case True
    then have "\<not> conn_writing (conn_io c w)" using echo_inv_conn [OF echo c] by (simp add: echo_conn_ok_def conn_io_def)
    then have "handleWrite a (conn_io c w) = conn_io c w" by (simp add: handleWrite_def)
    with w' inv show ?thesis by simp
  next
    case False
    show ?thesis
      unfolding w' by (rule kernel_put [OF inv echo c False handleWrite_frame(1) io_watch_write [OF kernel_conn [OF inv c False]]])
  qed
next
  case (Hang_Up c)
  have c: "c < w_objects w" "isReading (conn_chan c w)" using ok Hang_Up by simp_all
  have conn: "c_state (w_conn w c) \<noteq> kDisconnected"
    using echo_inv_conn [OF echo c(1)] c(2) by (auto simp: echo_conn_ok_def conn_io_def)
  have "kernel_inv (put_io c (handleClose echo_onConnection (conn_io c w)) w)"
    by (rule kernel_put [OF inv echo c(1) conn handleClose_frame(1) io_watch_close [OF kernel_conn [OF inv c(1) conn]]])
  moreover have "(\<lambda>e. if e = On_Close then id else echo_onConnection e) = echo_onConnection"
    by (rule ext)+ (simp add: echo_onConnection_def)
  ultimately show ?thesis using step Hang_Up kernel_remove(2) by (auto simp: server_handleClose_def)
qed

abbreviation echo_and_fds :: "echo_event \<Rightarrow> world \<Rightarrow> bool" where
  "echo_and_fds e w \<equiv> echo_possible e w \<and> fd_unused e w"

lemma kernel_run:
  assumes "kernel_inv w" and "echo_inv rc w" and "echo_always echo_and_fds es w"
    and "\<And>c. length (rc c @ echo_received c es) \<le> 2 ^ 62"
  shows "\<exists>w'. echo_run es w = Inr w' \<and> kernel_inv w' \<and> echo_inv (\<lambda>c. rc c @ echo_received c es) w'"
  using assms
proof (induction es arbitrary: rc w)
  case Nil
  then show ?case by simp
next
  case (Cons e es)
  have small: "length (rc c @ echo_received c [e]) \<le> 2 ^ 62" for c
    using Cons.prems(4) [of c] by (subst (asm) echo_received_Cons) simp
  have e: "echo_possible e w" "fd_unused e w" using Cons.prems(3) by simp_all
  obtain w' where w': "echo_step e w = Inr w'" "echo_inv (\<lambda>c. rc c @ echo_received c [e]) w'"
    using echo_step_ok [OF Cons.prems(2) e(1) small] by auto
  have k: "kernel_inv w'" by (rule kernel_step [OF Cons.prems(1,2) e w'(1) small])
  have "length ((rc c @ echo_received c [e]) @ echo_received c es) \<le> 2 ^ 62" for c
    using Cons.prems(4) [of c] by (subst (asm) echo_received_Cons) simp
  with Cons.IH [OF k w'(2)] Cons.prems(3) w'(1)
  obtain w'' where "echo_run es w' = Inr w''" "kernel_inv w''"
    "echo_inv (\<lambda>c. (rc c @ echo_received c [e]) @ echo_received c es) w''"
    by auto
  with w'(1) show ?case by (subst echo_received_Cons) simp
qed

text \<open>A new event loop has registered its wake-up descriptor and nothing else.\<close>

lemma EventLoop_new_ctl:
  "r_ctl (EventLoop_new t c fds) = [\<lparr>ctl_op = EPOLL_CTL_ADD, ctl_fd = fds c, ctl_events = kReadEvent, ctl_ptr = c\<rparr>]"
  by (simp add: EventLoop_new_def enableReading_def channel_update_def poller_updateChannel_def poller_update_def
      Channel_new_def index_defs Let_def)

lemma kernel_start:
  assumes "fd \<noteq> fds base (wk base)"
  shows "kernel_inv (EchoServer_start loop_of tid
    (EchoServer_new base ip name ch fd (\<lambda>i. EventLoop_new (tids i) (wk i) (fds i)) conns))"
proof -
  let ?w = "EchoServer_new base ip name ch fd (\<lambda>i. EventLoop_new (tids i) (wk i) (fds i)) conns"
  have legal: "log_legal Map.empty (r_ctl (EventLoop_new t c f :: conn_functor event_loop))" for t c f
    by (simp add: EventLoop_new_ctl ctl_legal_def)
  have empty: "interest (r_ctl (EventLoop_new (tids base) (wk base) (fds base) :: conn_functor event_loop)) fd = None"
    using assms by (simp add: EventLoop_new_ctl interest_def ctl_apply_def ctl_legal_def)
  have w: "w_objects ?w = 0" "w_base ?w = base" "w_acceptChannel ?w = ch" "w_started ?w = 0"
    "w_loop ?w i = (if i = base then (EventLoop_new (tids i) (wk i) (fds i))
       \<lparr>r_chan := (r_chan (EventLoop_new (tids i) (wk i) (fds i) :: conn_functor event_loop))(ch := (Channel_new fd)\<lparr>has_readCallback := True\<rparr>)\<rparr>
     else EventLoop_new (tids i) (wk i) (fds i))" for i
    by (simp_all add: EchoServer_new_def server_setThreadNum_def TcpServer_new_def)
  have loops: "loop_watch (if i = base then {ch} else {}) (w_loop ?w i)" for i
    using legal empty by (simp add: w loop_watch_def Channel_new_def kNew_def kAdded_def)
  define p where "p = fst (pool_start loop_of (w_threadInit ?w) (w_pool ?w))"
  define w1 where "w1 = ?w\<lparr>w_started := 1, w_pool := p\<rparr>"
  have start: "EchoServer_start loop_of tid ?w = dispatch echo_onConnection tid base Acceptor_Listen w1"
    by (simp add: EchoServer_start_def server_start_def w w1_def p_def Let_def split: prod.split)
  have used: "used_channels i u = (if i = base then {ch} else {})" if "w_objects u = 0" "w_base u = base" "w_acceptChannel u = ch" for u i
    using that by (simp add: used_channels_def)
  have run: "kernel_inv (run_functor echo_onConnection tid Acceptor_Listen w1)"
  proof -
    have "loop_watch (if i = base then {ch} else {}) (w_loop (acceptor_listen w1) i)" for i
      using loops [of i] loops [of base] loop_watch_switch(1) [of "{ch}" "w_loop w1 base" ch] w(2,3)
      by (cases "i = base") (simp_all add: acceptor_listen_def w1_def)
    then show ?thesis
      using used [of "acceptor_listen w1"] w(1-3) by (simp add: kernel_inv_def acceptor_listen_def w1_def)
  qed
  have w1: "kernel_inv w1"
    using loops used [of w1] w(1-3) by (simp add: kernel_inv_def w1_def)
  have "kernel_inv (upd_loop base (queueInLoop tid Acceptor_Listen) w1)"
    by (rule kernel_same [OF w1]) auto
  with run show ?thesis by (simp add: start dispatch_def)
qed

section \<open>Properties\<close>

text \<open>C7: Nothing that waits is forgotten: in every run of the echo server in which \<open>accept4\<close> gives descriptors that are
  not open (those of closed connections may come back), no \<open>epoll_ctl\<close> call of any loop is rejected, and the kernel
  watches the descriptor of every open connection for its own channel, for input always and for output exactly while
  bytes wait in the connection's output buffer. In these runs no \<open>write\<close> of a read callback answers EPIPE or ECONNRESET.\<close>
theorem echo_kernel_watches:
  assumes "fd \<noteq> fds base (wk base)"
    and "echo_always (\<lambda>e w. echo_possible e w \<and> fd_unused e w) es (EchoServer_start loop_of tid
      (EchoServer_new base ip name ch fd (\<lambda>i. EventLoop_new (tids i) (wk i) (fds i)) conns))"
    and "\<And>c. length (echo_received c es) \<le> 2 ^ 62"
  shows "\<exists>w. echo_run es (EchoServer_start loop_of tid
      (EchoServer_new base ip name ch fd (\<lambda>i. EventLoop_new (tids i) (wk i) (fds i)) conns)) = Inr w \<and>
    (\<forall>i. log_legal Map.empty (r_ctl (w_loop w i))) \<and>
    (\<forall>c < w_objects w. c_state (w_conn w c) = kConnected \<longrightarrow>
      interest (r_ctl (w_loop w (w_owner w c))) (ch_fd (conn_chan c w)) = Some (ch_events (conn_chan c w), c_channel (w_conn w c)) \<and>
      isReading (conn_chan c w) \<and> (isWriting (conn_chan c w) \<longleftrightarrow> buf_content (c_out (w_conn w c)) \<noteq> []))"
proof -
  obtain w where w: "echo_run es (EchoServer_start loop_of tid
      (EchoServer_new base ip name ch fd (\<lambda>i. EventLoop_new (tids i) (wk i) (fds i)) conns)) = Inr w"
    "kernel_inv w" "echo_inv (\<lambda>c. echo_received c es) w"
    using kernel_run [OF kernel_start [where fd = fd] echo_inv_start assms(2)] assms(1,3) by auto
  have legal: "log_legal Map.empty (r_ctl (w_loop w i))" for i
    using kernel_invD(1) [OF w(2), of i] by (simp add: loop_watch_def)
  have "interest (r_ctl (w_loop w (w_owner w c))) (ch_fd (conn_chan c w)) = Some (ch_events (conn_chan c w), c_channel (w_conn w c)) \<and>
      isReading (conn_chan c w) \<and> (isWriting (conn_chan c w) \<longleftrightarrow> buf_content (c_out (w_conn w c)) \<noteq> [])"
    if c: "c < w_objects w" "c_state (w_conn w c) = kConnected" for c
  proof -
    have l: "loop_watch (used_channels (w_owner w c) w) (w_loop w (w_owner w c))" by (rule kernel_invD(1) [OF w(2)])
    moreover have "c_channel (w_conn w c) \<in> used_channels (w_owner w c) w" using c by (auto simp: used_channels_def)
    ultimately have "interest (r_ctl (w_loop w (w_owner w c))) (ch_fd (conn_chan c w)) =
        (if ch_index (conn_chan c w) = kAdded then Some (ch_events (conn_chan c w), c_channel (w_conn w c)) else None)"
      unfolding loop_watch_def by blast
    with kernel_invD(2) [OF w(2) c] echo_invD(1) [OF w(3) c(1)] c(2) show ?thesis
      by (simp add: watching_def echo_conn_ok_def)
  qed
  with w(1) legal show ?thesis by blast
qed

text \<open>The run of the demo server of \<open>Muduo_Echo\<close>, whose loops have the wake-up descriptor 9.\<close>

lemma echo_always_unused:
  "echo_always P es w \<Longrightarrow> list_all (\<lambda>e. \<forall>fd ch. e \<noteq> Accept fd ch) es \<Longrightarrow>
    echo_always (\<lambda>e w. P e w \<and> fd_unused e w) es w"
proof (induction es arbitrary: w)
  case (Cons e es)
  have "fd_unused e w" using Cons.prems(2) by (cases e) auto
  with Cons show ?case by (auto split: sum.splits)
qed simp

lemma echo_demo_watched: "echo_always (\<lambda>e w. echo_possible e w \<and> fd_unused e w) echo_demo_events echo_demo"
proof -
  have "w_loop echo_demo 1 = EventLoop_new 2 0 (\<lambda>_. 9)"
    by (simp add: echo_demo_def EchoServer_start_def EchoServer_new_def server_start_def server_setThreadNum_def
        TcpServer_new_def dispatch_def isInLoopThread_def acceptor_listen_def Let_def split: prod.split)
  then have "interest (r_ctl (w_loop echo_demo 1)) 7 = None"
    by (simp add: EventLoop_new_ctl interest_def ctl_apply_def ctl_legal_def)
  moreover have "ch_fd (r_chan (w_loop echo_demo 0) 1) = 4"
    by (simp add: echo_demo_def EchoServer_start_def EchoServer_new_def server_start_def server_setThreadNum_def
        TcpServer_new_def dispatch_def isInLoopThread_def acceptor_listen_def enableReading_def channel_update_def
        Channel_new_def Let_def split: prod.split)
  ultimately have "fd_unused (Accept 7 2) echo_demo"
    by (simp add: echo_demo_facts getNextLoop_def)
  then show ?thesis
    using echo_demo_possible unfolding echo_demo_events_def echo_always.simps(2) [of _ "Accept 7 2"]
    by (auto intro!: echo_always_unused split: sum.splits simp del: echo_always.simps echo_step.simps echo_possible.simps)
qed

theorem echo_kernel_watches_witness:
  "\<exists>w. echo_run echo_demo_events echo_demo = Inr w \<and> (\<forall>i. log_legal Map.empty (r_ctl (w_loop w i))) \<and>
     (\<forall>c < w_objects w. c_state (w_conn w c) = kConnected \<longrightarrow>
       isReading (conn_chan c w) \<and> (isWriting (conn_chan c w) \<longleftrightarrow> buf_content (c_out (w_conn w c)) \<noteq> []))"
proof -
  have small: "length (echo_received c echo_demo_events) \<le> 2 ^ 62" for c
    by (simp add: echo_demo_events_def)
  have "echo_always (\<lambda>e w. echo_possible e w \<and> fd_unused e w) echo_demo_events
      (EchoServer_start Suc 1 (EchoServer_new 0 ''h:80'' ''s'' 1 4 (\<lambda>i. EventLoop_new (int i + 1) 0 (\<lambda>_. 9))
         (\<lambda>_. fst (TcpConnection_new 0 [] 0 0 (EventLoop_new 1 0 (\<lambda>_. 9))))))"
    using echo_demo_watched by (simp only: echo_demo_def)
  from echo_kernel_watches [where fd = 4 and fds = "\<lambda>_ _. 9" and wk = "\<lambda>_. 0" and base = 0 and tids = "\<lambda>i. int i + 1",
      OF _ this small]
  show ?thesis unfolding echo_demo_def by auto
qed

end
