(* ===== verification/Muduo_EchoSpec.thy ===== *)
theory Muduo_EchoSpec
  imports Muduo_Echo
begin

text \<open>
  What the echo server promises, without buffers, channels and loops: a connection opens, receives bytes, sends back a
  further piece of what it has received, or closes. The server of \<open>Muduo_Echo\<close> implements it: every event is a sequence
  of such steps.
\<close>

section \<open>The specification\<close>

text \<open>A connection: whether it is open, what it has received and what it has sent.\<close>

type_synonym echo_view = "conn_id \<rightharpoonup> bool \<times> char list \<times> char list"

inductive echo_spec :: "echo_view \<Rightarrow> echo_view \<Rightarrow> bool" where
  opens: "f c = None \<Longrightarrow> echo_spec f (f(c \<mapsto> (True, [], [])))"
| receives: "f c = Some (True, r, t) \<Longrightarrow> echo_spec f (f(c \<mapsto> (True, r @ d, t)))"
| sends: "f c = Some (True, r, t) \<Longrightarrow> prefix (t @ x) r \<Longrightarrow> echo_spec f (f(c \<mapsto> (True, r, t @ x)))"
| closes: "f c = Some (True, r, t) \<Longrightarrow> echo_spec f (f(c \<mapsto> (False, r, t)))"

section \<open>The server as a step relation\<close>

type_synonym echo_state = "(conn_id \<Rightarrow> char list) \<times> world"

inductive echo_rel :: "echo_state \<Rightarrow> echo_state \<Rightarrow> bool" where
  event: "echo_possible e w \<Longrightarrow> (\<And>c. length (rc c @ echo_received c [e]) \<le> 2 ^ 62) \<Longrightarrow> echo_step e w = Inr w' \<Longrightarrow>
    echo_rel (rc, w) (\<lambda>c. rc c @ echo_received c [e], w')"

definition echo_init :: "echo_state \<Rightarrow> bool" where
  "echo_init z \<longleftrightarrow> fst z = (\<lambda>_. []) \<and> (\<exists>loop_of tid base ip name ch fd loops conns.
     snd z = EchoServer_start loop_of tid (EchoServer_new base ip name ch fd loops conns))"

fun echo_abs :: "echo_state \<Rightarrow> echo_view" where
  "echo_abs (rc, w) = (\<lambda>c. if c < w_objects w
     then Some (c_state (w_conn w c) \<noteq> kDisconnected, rc c, c_sent (w_conn w c)) else None)"

declare echo_abs.simps [simp del]

lemma abs_apply: "echo_abs (rc, w) c = (if c < w_objects w
    then Some (c_state (w_conn w c) \<noteq> kDisconnected, rc c, c_sent (w_conn w c)) else None)"
  by (simp add: echo_abs.simps)

section \<open>What is sent is never taken back\<close>

lemma sendInLoop_sent:
  assumes "sendInLoop a d s = Inr t"
  shows "prefix (c_sent (fst s)) (c_sent (fst t)) \<and> c_state (fst t) = c_state (fst s)"
proof -
  obtain n k f u where u: "sendInLoop_write a d s = Inr (n, k, f, u)" "sendInLoop_buffer d (n, k, f, u) = Inr t"
    using assms by (auto simp: sendInLoop_def)
  have "prefix (c_sent (fst s)) (c_sent (fst u)) \<and> c_state (fst u) = c_state (fst s)"
    using u(1) by (auto simp: sendInLoop_write_def Let_def split: if_splits write_result.splits)
  moreover have "c_sent (fst t) = c_sent (fst u) \<and> c_state (fst t) = c_state (fst u)"
    using u(2) by (auto simp: sendInLoop_buffer_def Let_def split: if_splits)
  ultimately show ?thesis by simp
qed

lemma handleWrite_sent:
  "prefix (c_sent (fst s)) (c_sent (fst (handleWrite a s))) \<and> c_state (fst (handleWrite a s)) = c_state (fst s)"
  by (auto simp: handleWrite_def Let_def split: prod.splits)

lemma handleRead_sent:
  assumes "handleRead echo_onConnection (echo_onMessage a) r s = Inr t"
  shows "prefix (c_sent (fst s)) (c_sent (fst t))"
    and "c_state (fst t) = c_state (fst s) \<or> c_state (fst t) = kDisconnected \<and> c_sent (fst t) = c_sent (fst s)"
proof -
  obtain n e b where "buf_readFd r (c_in (fst s)) = Inr (n, e, b)"
    and t: "(let s1 = on_conn (c_in_update (\<lambda>_. b)) s in if 0 < n then echo_onMessage a s1
      else if n = 0 then Inr (handleClose echo_onConnection s1) else Inr (handleError s1)) = Inr t"
    using assms by (auto simp: handleRead_def)
  have "prefix (c_sent (fst s)) (c_sent (fst t)) \<and>
    (c_state (fst t) = c_state (fst s) \<or> c_state (fst t) = kDisconnected \<and> c_sent (fst t) = c_sent (fst s))"
  proof (cases "0 < n")
    case True
    then show ?thesis
      using t by (auto simp: echo_onMessage_def Let_def conn_send_def isInLoopThread_def dest!: sendInLoop_sent split: if_splits)
  next
    case False
    then show ?thesis
      using t handleClose_frame(4) by (auto simp: Let_def handleError_def split: if_splits)
  qed
  then show "prefix (c_sent (fst s)) (c_sent (fst t))"
    "c_state (fst t) = c_state (fst s) \<or> c_state (fst t) = kDisconnected \<and> c_sent (fst t) = c_sent (fst s)" by blast+
qed

section \<open>The simulation\<close>

lemma abs_put:
  "c < w_objects w \<Longrightarrow> echo_abs (rc(c := r), put_io c s w) =
     (echo_abs (rc, w))(c \<mapsto> (c_state (fst s) \<noteq> kDisconnected, r, c_sent (fst s)))"
  by (rule ext) (simp add: abs_apply put_io_def)

lemma abs_same:
  "w_objects w' = w_objects w \<Longrightarrow> w_conn w' = w_conn w \<Longrightarrow> echo_abs (rc, w') = echo_abs (rc, w)"
  by (rule ext) (simp add: abs_apply)

lemma abs_remove:
  "echo_abs (rc, removeConnectionInLoop tid c w) = echo_abs (rc, w)"
  "echo_abs (rc, removeConnection user tid c w) = echo_abs (rc, w)"
  by (rule abs_same; simp add: removeConnection_def dispatch_def removeConnectionInLoop_def Let_def)+

lemma echo_spec_input:
  assumes "f c = Some (True, r, t)" and "prefix t u" and "prefix u (r @ d)"
  shows "echo_spec\<^sup>*\<^sup>* f (f(c \<mapsto> (True, r @ d, u)))"
proof -
  obtain x where x: "u = t @ x" using assms(2) by (auto simp: prefix_def)
  have "echo_spec f (f(c \<mapsto> (True, r @ d, t)))" using assms(1) by (rule receives)
  moreover have "echo_spec (f(c \<mapsto> (True, r @ d, t))) ((f(c \<mapsto> (True, r @ d, t)))(c \<mapsto> (True, r @ d, t @ x)))"
    using assms(3) x by (intro sends) simp_all
  ultimately show ?thesis using x by (simp add: converse_rtranclp_into_rtranclp)
qed

lemma abs_open:
  assumes "echo_inv rc w" and "c < w_objects w" and "c_state (w_conn w c) \<noteq> kDisconnected"
  shows "echo_abs (rc, w) c = Some (True, rc c, c_sent (w_conn w c))"
  using assms by (simp add: abs_apply)

lemma sent_prefix:
  assumes "echo_conn_ok r k h"
  shows "prefix (c_sent k) r"
  using assms by (cases "c_state k = kDisconnected") (auto simp: echo_conn_ok_def prefix_def)

lemma connectEstablished_fst:
  "fst (connectEstablished echo_onConnection s) = (fst s)\<lparr>c_state := kConnected\<rparr>"
  by (simp add: connectEstablished_def echo_onConnection_def Let_def)

lemma abs_established:
  assumes "c < w_objects w" and "c_state (w_conn w c) = kConnecting"
  shows "echo_abs (rc, run_functor echo_onConnection tid (Connect_Established c) w) = echo_abs (rc, w)"
proof -
  have "echo_abs (rc, run_functor echo_onConnection tid (Connect_Established c) w) =
      echo_abs (rc(c := rc c), put_io c (connectEstablished echo_onConnection (conn_io c w)) w)" by simp
  also have "\<dots> = (echo_abs (rc, w))(c \<mapsto> (True, rc c, c_sent (w_conn w c)))"
    unfolding abs_put [OF assms(1)] connectEstablished_fst by (simp add: conn_io_def)
  also have "\<dots> = echo_abs (rc, w)" using assms by (auto simp: abs_apply)
  finally show ?thesis .
qed

lemma spec_accept:
  assumes inv: "echo_inv rc w" and step: "newConnection echo_onConnection tid fd ch w = Inr w'"
  shows "echo_spec\<^sup>*\<^sup>* (echo_abs (rc, w)) (echo_abs (rc, w'))"
proof -
  let ?c = "w_objects w"
  obtain i p k l where k: "c_state k = kConnecting" "echo_conn_ok [] k (r_chan l ch)"
    "w' = dispatch echo_onConnection tid i (Connect_Established ?c) (added_conn i p k l w)"
    using newConnection_split [OF step] by metis
  let ?w = "added_conn i p k l w"
  have sent: "c_sent k = []" using sent_prefix [OF k(2)] by simp
  have new: "?c < w_objects ?w" "c_state (w_conn ?w ?c) = kConnecting" by (simp_all add: added_conn_def k(1))
  have "echo_abs (rc, run_functor echo_onConnection tid (Connect_Established ?c) ?w) = echo_abs (rc, ?w)"
    by (rule abs_established [OF new])
  moreover have "echo_abs (rc, upd_loop i (queueInLoop tid (Connect_Established ?c)) ?w) = echo_abs (rc, ?w)"
    by (rule abs_same) simp_all
  ultimately have "echo_abs (rc, w') = echo_abs (rc, ?w)" unfolding k(3) dispatch_def by (simp split: if_splits)
  also have "\<dots> = (echo_abs (rc, w))(?c \<mapsto> (True, [], []))"
    using echo_invD(4) [OF inv, of ?c] k(1) sent by (intro ext) (auto simp: abs_apply added_conn_def less_Suc_eq)
  finally show ?thesis using opens [of "echo_abs (rc, w)" ?c] by (auto simp: abs_apply)
qed

lemma spec_read:
  assumes inv: "echo_inv rc w" and ok: "echo_possible (Readable c r a) w" and step: "echo_readable c r a w = Inr w'"
    and inv': "echo_inv (rc(c := rc c @ d)) w'"
  shows "echo_spec\<^sup>*\<^sup>* (echo_abs (rc, w)) (echo_abs (rc(c := rc c @ d), w'))"
proof -
  let ?f = "echo_abs (rc, w)"
  have c: "c < w_objects w" "isReading (conn_chan c w)" using ok by auto
  have conn: "c_state (w_conn w c) = kConnected" using echo_invD(1) [OF inv c(1)] c(2) by (auto simp: echo_conn_ok_def)
  then have f: "?f c = Some (True, rc c, c_sent (w_conn w c))" using c(1) by (simp add: abs_apply)
  obtain t where t: "handleRead echo_onConnection (echo_onMessage a) r (conn_io c w) = Inr t"
    "w' = (if r = Read_Bytes [] then removeConnection echo_onConnection (l_threadId (w_loop w (w_owner w c))) c (put_io c t w)
           else put_io c t w)"
    using step by (auto simp: echo_readable_def)
  have abs: "echo_abs (rc(c := rc c @ d), w') = ?f(c \<mapsto> (c_state (fst t) \<noteq> kDisconnected, rc c @ d, c_sent (fst t)))"
    unfolding t(2) using abs_put [OF c(1)] abs_remove by simp
  have "echo_abs (rc(c := rc c @ d), w') c = Some (c_state (fst t) \<noteq> kDisconnected, rc c @ d, c_sent (fst t))"
    unfolding abs by simp
  then have "c < w_objects w'" "c_sent (w_conn w' c) = c_sent (fst t)" by (auto simp: abs_apply split: if_splits)
  with sent_prefix [OF echo_invD(1) [OF inv', of c]] have pre: "prefix (c_sent (fst t)) (rc c @ d)" by simp
  from handleRead_sent(2) [OF t(1)] consider (go) "c_state (fst t) = kConnected"
    | (stop) "c_state (fst t) = kDisconnected" "c_sent (fst t) = c_sent (w_conn w c)"
    using conn by (auto simp: conn_io_def)
  then show ?thesis
  proof cases
    case go
    have "prefix (c_sent (w_conn w c)) (c_sent (fst t))" using handleRead_sent(1) [OF t(1)] by (simp add: conn_io_def)
    from echo_spec_input [where f = ?f and c = c and r = "rc c" and d = d, OF f this pre] go show ?thesis unfolding abs by simp
  next
    case stop
    have "echo_spec ?f (?f(c \<mapsto> (True, rc c @ d, c_sent (w_conn w c))))" using f by (rule receives)
    moreover have "echo_spec (?f(c \<mapsto> (True, rc c @ d, c_sent (w_conn w c))))
        ((?f(c \<mapsto> (True, rc c @ d, c_sent (w_conn w c))))(c \<mapsto> (False, rc c @ d, c_sent (w_conn w c))))"
      by (rule closes) simp
    ultimately show ?thesis using stop unfolding abs by (simp add: converse_rtranclp_into_rtranclp)
  qed
qed

lemma spec_step:
  assumes inv: "echo_inv rc w" and ok: "echo_possible e w"
    and small: "\<And>c. length (rc c @ echo_received c [e]) \<le> 2 ^ 62" and step: "echo_step e w = Inr w'"
  shows "echo_spec\<^sup>*\<^sup>* (echo_abs (rc, w)) (echo_abs (\<lambda>c. rc c @ echo_received c [e], w'))"
proof (cases e)
  case (Accept fd ch)
  then show ?thesis
    using step spec_accept [OF inv] by (auto simp: acceptor_handleRead_def split: if_splits)
next
  case (Run_Functor tid f)
  have "echo_abs (rc, run_functor echo_onConnection tid f w) = echo_abs (rc, w)"
  proof (cases f)
    case (Connect_Established c)
    with ok Run_Functor abs_established [of c w rc tid] show ?thesis by simp
  next
    case (Remove_Connection_In_Loop c)
    then show ?thesis by (simp add: abs_remove)
  next
    case (Connect_Destroyed c)
    with ok Run_Functor have "connectDestroted echo_onConnection (conn_io c w) = conn_io c w"
      by (simp add: connectDestroted_def conn_io_def)
    moreover have "put_io c (conn_io c w) w = w" by (simp add: put_io_def conn_io_def)
    ultimately show ?thesis using Connect_Destroyed by simp
  next
    case Acceptor_Listen
    then show ?thesis using abs_same [of "acceptor_listen w" w rc] by (simp add: acceptor_listen_def)
  qed (use ok Run_Functor in simp_all)
  with step Run_Functor show ?thesis by simp
next
  case (Readable c r a)
  have rc: "(\<lambda>k. rc k @ echo_received k [e]) = rc(c := rc c @ echo_received c [e])"
    by (cases r) (auto simp: Readable)
  have "echo_inv (rc(c := rc c @ echo_received c [e])) w'"
    using echo_step_ok [OF inv ok small] step unfolding rc by simp
  with spec_read [OF inv ok [unfolded Readable]] step Readable rc show ?thesis by simp
next
  case (Writable c a)
  have c: "c < w_objects w" and w': "w' = put_io c (handleWrite a (conn_io c w)) w" using ok step Writable by simp_all
  have inv': "echo_inv rc w'" using echo_step_ok [OF inv ok small] step by (simp add: Writable)
  let ?f = "echo_abs (rc, w)" and ?t = "handleWrite a (conn_io c w)"
  have abs: "echo_abs (rc, w') = ?f(c \<mapsto> (c_state (fst ?t) \<noteq> kDisconnected, rc c, c_sent (fst ?t)))"
    using abs_put [OF c, of rc "rc c" ?t] by (simp add: w' fun_upd_triv)
  have state: "c_state (fst ?t) = c_state (w_conn w c)" "prefix (c_sent (w_conn w c)) (c_sent (fst ?t))"
    using handleWrite_sent [of "conn_io c w" a] by (simp_all add: conn_io_def)
  have "echo_spec\<^sup>*\<^sup>* ?f (echo_abs (rc, w'))"
  proof (cases "c_state (w_conn w c) = kDisconnected")
    case True
    then have "\<not> conn_writing (conn_io c w)" using echo_inv_conn [OF inv c] by (simp add: echo_conn_ok_def conn_io_def)
    then have "?t = conn_io c w" by (simp add: handleWrite_def)
    then have "w' = w" by (simp add: w' put_io_def conn_io_def)
    then show ?thesis by simp
  next
    case False
    have "prefix (c_sent (fst ?t)) (rc c)"
      using sent_prefix [OF echo_invD(1) [OF inv', of c]] c by (simp add: w' put_io_def)
    with echo_spec_input [of ?f c "rc c" "c_sent (w_conn w c)" "c_sent (fst ?t)" "[]"] abs_open [OF inv c False] state False
    show ?thesis unfolding abs by (simp)
  qed
  then show ?thesis by (simp add: Writable)
next
  case (Hang_Up c)
  have c: "c < w_objects w" "isReading (conn_chan c w)" using ok Hang_Up by simp_all
  have conn: "c_state (w_conn w c) = kConnected" using echo_invD(1) [OF inv c(1)] c(2) by (auto simp: echo_conn_ok_def)
  let ?f = "echo_abs (rc, w)"
  have user: "(\<lambda>e. if e = On_Close then id else echo_onConnection e) = echo_onConnection"
    by (rule ext)+ (simp add: echo_onConnection_def)
  have "echo_abs (rc, w') = echo_abs (rc(c := rc c), put_io c (handleClose echo_onConnection (conn_io c w)) w)"
    using step abs_remove by (auto simp: Hang_Up server_handleClose_def user)
  also have "\<dots> = ?f(c \<mapsto> (False, rc c, c_sent (w_conn w c)))"
    unfolding abs_put [OF c(1)] handleClose_frame(4) by (simp add: conn_io_def)
  finally have "echo_spec ?f (echo_abs (rc, w'))"
    using closes [of ?f c "rc c" "c_sent (w_conn w c)"] c(1) conn by (simp add: abs_apply)
  then show ?thesis by (simp add: Hang_Up)
qed

interpretation echo: simulation echo_init echo_rel "\<lambda>(rc, w). echo_inv rc w" echo_abs echo_spec
proof unfold_locales
  show "case z of (rc, w) \<Rightarrow> echo_inv rc w" if "echo_init z" for z
    using that echo_inv_start by (cases z) (auto simp: echo_init_def)
  show "case y of (rc, w) \<Rightarrow> echo_inv rc w" if "case z of (rc, w) \<Rightarrow> echo_inv rc w" "echo_rel z y" for z y
    using that(2)
  proof cases
    case (event e w rc w')
    with that(1) echo_step_ok [of rc w e] show ?thesis by auto
  qed
  show "echo_spec\<^sup>*\<^sup>* (echo_abs z) (echo_abs y)" if "case z of (rc, w) \<Rightarrow> echo_inv rc w" "echo_rel z y" for z y
    using that(2)
  proof cases
    case (event e w rc w')
    with that(1) spec_step [of rc w e w'] show ?thesis by simp
  qed
qed

section \<open>Properties\<close>

lemma echo_run_rel:
  assumes "echo_always echo_possible es w" and "echo_run es w = Inr w'"
    and "\<And>c. length (rc c @ echo_received c es) \<le> 2 ^ 62"
  shows "echo_rel\<^sup>*\<^sup>* (rc, w) (\<lambda>c. rc c @ echo_received c es, w')"
  using assms
proof (induction es arbitrary: rc w)
  case Nil
  then show ?case by simp
next
  case (Cons e es)
  have small: "length (rc c @ echo_received c [e]) \<le> 2 ^ 62" for c
    using Cons.prems(3) [of c] by (subst (asm) echo_received_Cons) simp
  obtain u where u: "echo_step e w = Inr u" "echo_run es u = Inr w'" using Cons.prems(2) by auto
  have "echo_rel (rc, w) (\<lambda>c. rc c @ echo_received c [e], u)"
    by (rule event) (use Cons.prems(1) small u(1) in auto)
  moreover have "length ((rc c @ echo_received c [e]) @ echo_received c es) \<le> 2 ^ 62" for c
    using Cons.prems(3) [of c] by (subst (asm) echo_received_Cons) simp
  then have "echo_rel\<^sup>*\<^sup>* (\<lambda>c. rc c @ echo_received c [e], u) (\<lambda>c. (rc c @ echo_received c [e]) @ echo_received c es, w')"
    using Cons.IH [of u "\<lambda>c. rc c @ echo_received c [e]"] Cons.prems(1) u by simp
  ultimately show ?case by (subst echo_received_Cons) (simp add: converse_rtranclp_into_rtranclp)
qed

text \<open>C8: The echo server implements its specification: every run of the server, with its buffers, channels, loops and
  functors, is a run of the abstract server that opens connections, receives bytes, sends back further pieces of what it
  has received and closes; so what was sent is never sent again or taken back, and nothing is sent after a close. In these
  runs no \<open>write\<close> of a read callback answers EPIPE or ECONNRESET.\<close>
theorem echo_implements_spec:
  assumes "echo_always echo_possible es (EchoServer_start loop_of tid (EchoServer_new base ip name ch fd loops conns))"
    and "echo_run es (EchoServer_start loop_of tid (EchoServer_new base ip name ch fd loops conns)) = Inr w"
    and "\<And>c. length (echo_received c es) \<le> 2 ^ 62"
  shows "echo_spec\<^sup>*\<^sup>* (\<lambda>_. None) (\<lambda>c. if c < w_objects w
    then Some (c_state (w_conn w c) \<noteq> kDisconnected, echo_received c es, c_sent (w_conn w c)) else None)"
proof -
  let ?w0 = "EchoServer_start loop_of tid (EchoServer_new base ip name ch fd loops conns)"
  have run: "echo_rel\<^sup>*\<^sup>* (\<lambda>_. [], ?w0) (\<lambda>c. echo_received c es, w)"
    using echo_run_rel [OF assms(1,2), of "\<lambda>_. []"] assms(3) by simp
  have "w_objects ?w0 = 0"
    by (simp add: EchoServer_start_def EchoServer_new_def server_start_def server_setThreadNum_def TcpServer_new_def
        dispatch_def acceptor_listen_def Let_def split: prod.splits)
  then have "echo_abs (\<lambda>_. [], ?w0) = (\<lambda>_. None)" by (simp add: echo_abs.simps)
  with echo.run_simulated [OF run] echo_inv_start show ?thesis by (simp add: echo_abs.simps)
qed

theorem echo_implements_spec_witness:
  "\<exists>w. echo_run echo_demo_events echo_demo = Inr w \<and> echo_spec\<^sup>*\<^sup>* (\<lambda>_. None) (\<lambda>c. if c < w_objects w
    then Some (c_state (w_conn w c) \<noteq> kDisconnected, echo_received c echo_demo_events, c_sent (w_conn w c)) else None)"
proof -
  have small: "length (echo_received c echo_demo_events) \<le> 2 ^ 62" for c by (simp add: echo_demo_events_def)
  obtain w where w: "echo_run echo_demo_events echo_demo = Inr w"
    using echo_run_ok [OF echo_inv_start echo_demo_possible [unfolded echo_demo_def]] small
    unfolding echo_demo_def by auto
  then show ?thesis
    using echo_implements_spec [OF echo_demo_possible [unfolded echo_demo_def] w [unfolded echo_demo_def] small] by blast
qed

end
