(* ===== verification/Muduo_Net.thy ===== *)
theory Muduo_Net
  imports Prelude
begin

text \<open>
  The small classes of muduo-mgkl around the system calls: \<open>Timestamp\<close>, \<open>CurrentThread\<close>, \<open>Logger\<close>, \<open>InetAddress\<close> and
  \<open>Socket\<close>. The clock, \<open>localtime\<close>, \<open>inet_addr\<close> and the answers of the socket calls are arguments.
\<close>

section \<open>\<open>Timestamp\<close>\<close>

text \<open>The fields of \<open>tm\<close> that are read; the year counts from 1900 and the month from 0.\<close>

record tm =
  tm_year :: nat
  tm_mon :: nat
  tm_mday :: nat
  tm_hour :: nat
  tm_min :: nat
  tm_sec :: nat

text \<open>\<open>%4d\<close> and \<open>%02d\<close> of a number that is not negative.\<close>

definition padded :: "char \<Rightarrow> nat \<Rightarrow> nat \<Rightarrow> string" where
  "padded c width n = replicate (width - length (dec n)) c @ dec n"

text \<open>Both loggers use the format with their own separator \<open>sep\<close> between the parts of the date.\<close>

definition date_text :: "char \<Rightarrow> tm \<Rightarrow> string" where
  "date_text sep t = padded (CHR '' '') 4 (tm_year t + 1900) @ [sep] @ padded (CHR ''0'') 2 (tm_mon t + 1) @ [sep] @
     padded (CHR ''0'') 2 (tm_mday t) @ '' '' @ padded (CHR ''0'') 2 (tm_hour t) @ '':'' @
     padded (CHR ''0'') 2 (tm_min t) @ '':'' @ padded (CHR ''0'') 2 (tm_sec t)"

text \<open>A timestamp holds seconds, whatever the name of its member.\<close>

type_synonym timestamp = "64 word"

definition Timestamp_now :: "64 word \<Rightarrow> timestamp" where
  "Timestamp_now time = time"

definition Timestamp_toString :: "(64 word \<Rightarrow> tm) \<Rightarrow> timestamp \<Rightarrow> string" where
  "Timestamp_toString localtime stamp = snprintf 128 (date_text (CHR ''/'') (localtime stamp))"

text \<open>The \<open>Timestamp\<close> of DBCP-mgkl prints with \<open>sprintf\<close> into an array of 128 characters.\<close>

definition Dbcp_ToString :: "(64 word \<Rightarrow> tm) \<Rightarrow> timestamp \<Rightarrow> string res" where
  "Dbcp_ToString localtime stamp = (let date = date_text (CHR ''-'') (localtime stamp) in
     if length date < 128 then Inr date else Inl Undefined)"

definition tm_ok :: "tm \<Rightarrow> bool" where
  "tm_ok t \<longleftrightarrow> tm_year t + 1900 < 10 ^ 4 \<and> tm_mon t < 12 \<and> tm_mday t \<le> 31 \<and> tm_hour t < 24 \<and> tm_min t < 60 \<and> tm_sec t \<le> 60"

lemma length_padded: "n < 10 ^ Suc k \<Longrightarrow> length (padded c (Suc k) n) = Suc k"
  using length_dec [of n k] by (simp add: padded_def)

lemma length_padded_4: "n < 10000 \<Longrightarrow> length (padded c 4 n) = 4"
  using length_padded [of n 3 c] by simp

lemma length_padded_2: "n < 100 \<Longrightarrow> length (padded c 2 n) = 2"
  using length_padded [of n 1 c] by (simp add: numeral_2_eq_2)

lemma length_date_text: "tm_ok t \<Longrightarrow> length (date_text sep t) = 19"
  by (simp add: tm_ok_def date_text_def length_padded_4 length_padded_2)

text \<open>Dates up to the year 9999 are 19 characters long: neither array is too small and nothing is cut off.\<close>

lemma timestamps_fit:
  assumes "tm_ok (localtime stamp)"
  shows "Timestamp_toString localtime stamp = date_text (CHR ''/'') (localtime stamp)"
    and "Dbcp_ToString localtime stamp = Inr (date_text (CHR ''-'') (localtime stamp))"
  using length_date_text [OF assms] by (simp_all add: Timestamp_toString_def Dbcp_ToString_def snprintf_def)

section \<open>\<open>CurrentThread\<close>\<close>

definition cacheTid :: "nat \<Rightarrow> nat \<Rightarrow> nat" where
  "cacheTid gettid t_cachedTid = (if t_cachedTid = 0 then gettid else t_cachedTid)"

text \<open>The thread id and the new value of the thread-local cache.\<close>

definition tid :: "nat \<Rightarrow> nat \<Rightarrow> nat \<times> nat" where
  "tid gettid t_cachedTid = (let t = (if t_cachedTid = 0 then cacheTid gettid t_cachedTid else t_cachedTid) in (t, t))"

lemma tid_cached: "gettid \<noteq> 0 \<Longrightarrow> tid other (snd (tid gettid 0)) = (gettid, gettid)"
  by (simp add: tid_def cacheTid_def)

section \<open>\<open>Logger\<close>\<close>

abbreviation INFO :: int where "INFO \<equiv> 0"
abbreviation ERROR :: int where "ERROR \<equiv> 1"
abbreviation FATAL :: int where "FATAL \<equiv> 2"
abbreviation DEBUG :: int where "DEBUG \<equiv> 3"

text \<open>The one logger: its level and the lines printed so far.\<close>

record logger =
  logLevel :: int
  lg_out :: "string list"

definition setLogLevel :: "int \<Rightarrow> logger \<Rightarrow> logger" where
  "setLogLevel level l = l\<lparr>logLevel := level\<rparr>"

definition logger_log :: "string \<Rightarrow> string \<Rightarrow> logger \<Rightarrow> logger" where
  "logger_log now msg l = (let
     prefix = (if logLevel l = INFO then ''[INFO]'' else if logLevel l = ERROR then ''[ERROR]''
               else if logLevel l = FATAL then ''[FATAL]'' else if logLevel l = DEBUG then ''[DEBUG]'' else [])
   in l\<lparr>lg_out := lg_out l @ [prefix @ now @ '' : '' @ msg]\<rparr>)"

text \<open>The macros: the message is cut to the 1023 characters of the array.\<close>

definition log_macro :: "int \<Rightarrow> string \<Rightarrow> string \<Rightarrow> logger \<Rightarrow> logger" where
  "log_macro level text now l = (let l = setLogLevel level l; buf = snprintf 1024 text in logger_log now buf l)"

lemma log_macro_line:
  "lg_out (log_macro ERROR text now l) = lg_out l @ [''[ERROR]'' @ now @ '' : '' @ take 1023 text]"
  by (simp add: log_macro_def setLogLevel_def logger_log_def snprintf_def)

text \<open>Level and line are two steps on a shared object: between them another thread can change the level.\<close>

lemma log_level_race:
  "lg_out (logger_log now ''disk full'' (log_macro INFO ''hello'' now (setLogLevel ERROR l))) =
    lg_out l @ [''[INFO]'' @ now @ '' : hello'', ''[INFO]'' @ now @ '' : disk full'']"
  by (simp add: log_macro_def setLogLevel_def logger_log_def snprintf_def)

section \<open>\<open>InetAddress\<close>\<close>

text \<open>\<open>sockaddr_in\<close>: the port in network order, the address as its bytes in the order of memory.\<close>

record sockaddr =
  sin_family :: nat
  sin_port :: "16 word"
  sin_addr :: "8 word list"

definition InetAddress_of :: "(string \<Rightarrow> 8 word list) \<Rightarrow> 16 word \<Rightarrow> string \<Rightarrow> sockaddr" where
  "InetAddress_of inet_addr port ip = \<lparr>sin_family = 2, sin_port = htons port, sin_addr = inet_addr ip\<rparr>"

text \<open>The text that \<open>inet_ntop\<close> writes for \<open>AF_INET\<close>.\<close>

fun dotted :: "8 word list \<Rightarrow> string" where
  "dotted [] = []"
| "dotted [b] = dec (unat b)"
| "dotted (b # bs) = dec (unat b) @ ''.'' @ dotted bs"

definition toIp :: "sockaddr \<Rightarrow> string" where
  "toIp a = dotted (sin_addr a)"

definition toPort :: "sockaddr \<Rightarrow> 16 word" where
  "toPort a = htons (sin_port a)"

text \<open>\<open>toIpPort\<close> prints behind the end of the address in an array of 64 characters.\<close>

definition toIpPort :: "sockaddr \<Rightarrow> string res" where
  "toIpPort a = (let
     buf = dotted (sin_addr a);
     port = toPort a;
     text = buf @ '':'' @ dec (unat port)
   in if length text < 64 then Inr text else Inl Undefined)"

lemma dec_digits: "c \<in> set (dec n) \<Longrightarrow> of_char c \<in> {48 ..< 58 :: nat}"
proof (induction n rule: dec.induct)
  case (1 n)
  show ?case
  proof (cases "n < 10")
    case True
    with "1.prems" show ?thesis by (simp add: dec.simps [of n])
  next
    case False
    with "1.prems" have "c \<in> set (dec (n div 10)) \<or> c = char_of (48 + n mod 10)" by (auto simp: dec.simps [of n])
    with "1.IH" False show ?thesis by auto
  qed
qed

lemma no_separator: "CHR ''.'' \<notin> set (dec n)" "CHR '':'' \<notin> set (dec n)"
  using dec_digits [of "CHR ''.''" n] dec_digits [of "CHR '':''" n] by auto

lemma append_sep_eq:
  assumes "xs @ [c] @ ys = us @ [c] @ vs" and "c \<notin> set xs" and "c \<notin> set us"
  shows "xs = us \<and> ys = vs"
  using assms
proof (induction xs arbitrary: us)
  case Nil
  then show ?case by (cases us) auto
next
  case (Cons x xs)
  then show ?case by (cases us) auto
qed

lemma dotted_Cons: "bs \<noteq> [] \<Longrightarrow> dotted (b # bs) = dec (unat b) @ ''.'' @ dotted bs"
  by (cases bs) simp_all

lemma dotted_inj: "length as = length bs \<Longrightarrow> dotted as = dotted bs \<Longrightarrow> as = bs"
proof (induction as bs rule: list_induct2)
  case (Cons a as b bs)
  show ?case
  proof (cases "as = []")
    case True
    with Cons show ?thesis by (simp add: dec_inj word_unat_eq_iff)
  next
    case False
    then have "bs \<noteq> []" using Cons.hyps by auto
    with False Cons.prems have "dec (unat a) = dec (unat b) \<and> dotted as = dotted bs"
      using append_sep_eq [of "dec (unat a)" "CHR ''.''" "dotted as" "dec (unat b)" "dotted bs"] no_separator
      by (simp add: dotted_Cons)
    with Cons.IH show ?thesis by (simp add: dec_inj word_unat_eq_iff)
  qed
qed simp

lemma dotted_no_colon: "CHR '':'' \<notin> set (dotted bs)"
  by (induction bs rule: dotted.induct) (auto simp: no_separator)

lemma length_dotted: "bs \<noteq> [] \<Longrightarrow> length (dotted bs) < 4 * length bs"
proof (induction bs rule: dotted.induct)
  case (2 b)
  have "unat b < 10 ^ Suc 2" using unsigned_less [of b, where ?'a = nat] by simp
  then show ?case using length_dec [of "unat b" 2] by simp
next
  case (3 b c bs)
  have "unat b < 10 ^ Suc 2" using unsigned_less [of b, where ?'a = nat] by simp
  then show ?case using length_dec [of "unat b" 2] "3.IH" by simp
qed simp

lemma length_port: "length (dec (unat (p :: 16 word))) \<le> 5"
proof -
  have "unat p < 10 ^ Suc 4" using unsigned_less [of p, where ?'a = nat] by simp
  then show ?thesis using length_dec [of "unat p" 4] by simp
qed

lemma toIpPort_text:
  "length (sin_addr a) = 4 \<Longrightarrow> toIpPort a = Inr (toIp a @ '':'' @ dec (unat (toPort a)))"
proof -
  assume n: "length (sin_addr a) = 4"
  then have "sin_addr a \<noteq> []" by auto
  with n length_dotted [of "sin_addr a"] length_port [of "toPort a"] show ?thesis
    by (simp add: toIpPort_def toIp_def)
qed

text \<open>C36: \<open>InetAddress\<close>: built from the text of an address and a port it gives both back, the text of the two fits the
  array of 64 characters, and different addresses or ports have different texts. What the C library must provide is that
  \<open>inet_addr\<close> reads the texts of four bytes back.\<close>
theorem InetAddress_roundtrip:
  assumes "\<And>bs. length bs = 4 \<Longrightarrow> inet_addr (dotted bs) = bs" and "length bs = 4"
  shows "toIp (InetAddress_of inet_addr port (dotted bs)) = dotted bs \<and>
    toPort (InetAddress_of inet_addr port (dotted bs)) = port \<and>
    toIpPort (InetAddress_of inet_addr port (dotted bs)) = Inr (dotted bs @ '':'' @ dec (unat port)) \<and>
    (\<forall>bs' port'. length bs' = 4 \<and> toIpPort (InetAddress_of inet_addr port' (dotted bs')) =
        toIpPort (InetAddress_of inet_addr port (dotted bs)) \<longrightarrow> bs' = bs \<and> port' = port)"
proof -
  have t: "toIpPort (InetAddress_of inet_addr p (dotted cs)) = Inr (dotted cs @ '':'' @ dec (unat p))" if "length cs = 4" for p cs
    using toIpPort_text [of "InetAddress_of inet_addr p (dotted cs)"] assms(1) [OF that] that
    by (simp add: InetAddress_of_def toIp_def toPort_def htons_htons)
  have "bs' = bs \<and> port' = port"
    if "length bs' = 4" and "dotted bs' @ [CHR '':''] @ dec (unat port') = dotted bs @ [CHR '':''] @ dec (unat port)" for bs' port'
    using append_sep_eq [OF that(2) dotted_no_colon dotted_no_colon] dotted_inj [of bs' bs] that(1) assms(2)
    by (simp add: dec_inj word_unat_eq_iff)
  note inj = this
  have "bs' = bs \<and> port' = port"
    if "length bs' = 4" and "toIpPort (InetAddress_of inet_addr port' (dotted bs')) =
      toIpPort (InetAddress_of inet_addr port (dotted bs))" for bs' port'
    using that(2) unfolding t [OF that(1)] t [OF assms(2)] by (intro inj that(1)) simp
  with t [OF assms(2)] assms(1) [OF assms(2)] show ?thesis
    by (auto simp: InetAddress_of_def toIp_def toPort_def htons_htons)
qed

text \<open>A reader of dotted texts, as an instance of \<open>inet_addr\<close>.\<close>

fun parts :: "char \<Rightarrow> string \<Rightarrow> string list" where
  "parts c [] = [[]]"
| "parts c (x # xs) = (if x = c then [] # parts c xs else (x # hd (parts c xs)) # tl (parts c xs))"

definition parse_dotted :: "string \<Rightarrow> 8 word list" where
  "parse_dotted cs = map (\<lambda>p. word_of_nat (undec p)) (parts (CHR ''.'') cs)"

lemma parts_free: "c \<notin> set xs \<Longrightarrow> parts c xs = [xs]"
  by (induction xs) auto

lemma parts_sep: "c \<notin> set xs \<Longrightarrow> parts c (xs @ c # ys) = xs # parts c ys"
  by (induction xs) auto

lemma parse_dotted_dotted: "bs \<noteq> [] \<Longrightarrow> parse_dotted (dotted bs) = bs"
  by (induction bs rule: dotted.induct) (simp_all add: parse_dotted_def parts_free parts_sep no_separator undec_dec)

theorem InetAddress_roundtrip_witness:
  "toIpPort (InetAddress_of parse_dotted 8080 (dotted [127, 0, 0, 1])) = Inr (dotted [127, 0, 0, 1] @ '':'' @ dec 8080) \<and>
   toPort (InetAddress_of parse_dotted 8080 (dotted [127, 0, 0, 1])) = 8080"
proof -
  have p: "parse_dotted (dotted bs) = bs" if "length bs = 4" for bs :: "8 word list"
    using that by (intro parse_dotted_dotted) auto
  from InetAddress_roundtrip [of parse_dotted "[127, 0, 0, 1]" 8080, OF p] show ?thesis by (simp del: dotted.simps)
qed

section \<open>\<open>Socket\<close>\<close>

text \<open>A socket: its descriptor, whether it is open, the options that were set and the log.\<close>

record socket_st =
  so_fd :: int
  so_open :: bool
  so_options :: "string \<rightharpoonup> int"
  so_log :: logger

definition Socket_destroy :: "socket_st \<Rightarrow> socket_st" where
  "Socket_destroy s = s\<lparr>so_open := False\<rparr>"

definition bindAddress :: "int \<Rightarrow> string \<Rightarrow> string \<Rightarrow> socket_st \<Rightarrow> socket_st" where
  "bindAddress answer text now s = (if 0 \<noteq> answer then s\<lparr>so_log := log_macro FATAL text now (so_log s)\<rparr> else s)"

definition socket_listen :: "int \<Rightarrow> string \<Rightarrow> string \<Rightarrow> socket_st \<Rightarrow> socket_st" where
  "socket_listen answer text now s = (if 0 \<noteq> answer then s\<lparr>so_log := log_macro FATAL text now (so_log s)\<rparr> else s)"

text \<open>\<open>accept\<close> stores the address of the peer only when it returns a descriptor.\<close>

definition accept_peer :: "int \<Rightarrow> sockaddr \<Rightarrow> sockaddr \<Rightarrow> int \<times> sockaddr" where
  "accept_peer connfd addr peerAddr = (connfd, if 0 \<le> connfd then addr else peerAddr)"

definition shutdownWrite :: "int \<Rightarrow> string \<Rightarrow> socket_st \<Rightarrow> socket_st" where
  "shutdownWrite answer now s =
     (if answer < 0 then s\<lparr>so_log := log_macro ERROR ''shutdownWrite error'' now (so_log s)\<rparr> else s)"

definition setOption :: "string \<Rightarrow> bool \<Rightarrow> socket_st \<Rightarrow> socket_st" where
  "setOption name on s = (let optval = (if on then 1 else 0) in s\<lparr>so_options := (so_options s)(name \<mapsto> optval)\<rparr>)"

definition setTcpNoDelay :: "bool \<Rightarrow> socket_st \<Rightarrow> socket_st" where
  "setTcpNoDelay on = setOption ''TCP_NODELAY'' on"

definition setReuseAddr :: "bool \<Rightarrow> socket_st \<Rightarrow> socket_st" where
  "setReuseAddr on = setOption ''SO_REUSEADDR'' on"

definition setResuePort :: "bool \<Rightarrow> socket_st \<Rightarrow> socket_st" where
  "setResuePort on = setOption ''SO_REUSEPORT'' on"

definition setKeepAlive :: "bool \<Rightarrow> socket_st \<Rightarrow> socket_st" where
  "setKeepAlive on = setOption ''SO_KEEPALIVE'' on"

text \<open>A failed \<open>bind\<close> is logged as fatal and the program goes on with the socket.\<close>

lemma failed_bind_goes_on:
  "answer \<noteq> 0 \<Longrightarrow> so_open (bindAddress answer text now s) = so_open s \<and>
    lg_out (so_log (bindAddress answer text now s)) = lg_out (so_log s) @ [''[FATAL]'' @ now @ '' : '' @ take 1023 text]"
  by (simp add: bindAddress_def log_macro_def setLogLevel_def logger_log_def snprintf_def)

lemma failed_accept_keeps_peer: "connfd < 0 \<Longrightarrow> accept_peer connfd addr peer = (connfd, peer)"
  by (simp add: accept_peer_def)

end
