(* ===== verification/Muduo_LoopThread.thy ===== *)
theory Muduo_LoopThread
  imports Prelude
begin

text \<open>
  \<open>EventLoopThread\<close> of muduo-mgkl (EventLoopThread.hpp/cpp): the thread of \<open>threadFunc\<close> and its owner, who calls
  \<open>startLoop\<close> and later the destructor. The steps of the two between lock operations are interleaved. \<open>here\<close> is the
  address of the loop on the stack of the thread, and \<open>own\<close> says whether functors of the loop may call \<open>quit\<close>
  themselves.
\<close>

section \<open>The steps\<close>

datatype thread_pc = Not_Started | In_Callback | Publishing | Entering | Looping | Clearing | Finished

datatype owner_pc = Fresh | Waiting | Got nat | Quitting nat | Joining | Destroyed

record loop_thread =
  lt_loop :: "nat option"
  lt_exiting :: bool
  lt_pc :: thread_pc
  lt_owner :: owner_pc
  lt_quit :: bool
  lt_called :: bool

definition EventLoopThread_new :: loop_thread where
  "EventLoopThread_new = \<lparr>lt_loop = None, lt_exiting = False, lt_pc = Not_Started, lt_owner = Fresh, lt_quit = False,
     lt_called = False\<rparr>"

text \<open>\<open>threadFunc\<close>: the callback, the loop published under the lock, \<open>loop()\<close>, which clears \<open>quit_\<close> first, the end.\<close>

definition threadFunc :: "nat \<Rightarrow> loop_thread \<Rightarrow> loop_thread option" where
  "threadFunc here s = (case lt_pc s of
     In_Callback \<Rightarrow> Some (s\<lparr>lt_called := True, lt_pc := Publishing\<rparr>)
   | Publishing \<Rightarrow> Some (s\<lparr>lt_loop := Some here, lt_pc := Entering\<rparr>)
   | Entering \<Rightarrow> Some (s\<lparr>lt_quit := False, lt_pc := Looping\<rparr>)
   | Looping \<Rightarrow> if lt_quit s then Some (s\<lparr>lt_pc := Clearing\<rparr>) else None
   | Clearing \<Rightarrow> Some (s\<lparr>lt_loop := None, lt_pc := Finished\<rparr>)
   | _ \<Rightarrow> None)"

text \<open>\<open>startLoop\<close>: the thread is started, and the owner waits until \<open>loop_\<close> is not null.\<close>

definition startLoop :: "loop_thread \<Rightarrow> loop_thread option" where
  "startLoop s = (case lt_owner s of
     Fresh \<Rightarrow> Some (s\<lparr>lt_owner := Waiting, lt_pc := In_Callback\<rparr>)
   | Waiting \<Rightarrow> (case lt_loop s of None \<Rightarrow> None | Some a \<Rightarrow> Some (s\<lparr>lt_owner := Got a\<rparr>))
   | _ \<Rightarrow> None)"

text \<open>
  The destructor reads \<open>loop_\<close> without the lock, calls \<open>quit\<close> on what it read and joins the thread; when \<open>loop_\<close> is
  null it does neither.
\<close>

definition EventLoopThread_destroy :: "loop_thread \<Rightarrow> loop_thread option" where
  "EventLoopThread_destroy s = (case lt_owner s of
     Got a \<Rightarrow> Some (case lt_loop s of
         None \<Rightarrow> s\<lparr>lt_exiting := True, lt_owner := Destroyed\<rparr>
       | Some b \<Rightarrow> s\<lparr>lt_exiting := True, lt_owner := Quitting b\<rparr>)
   | Quitting b \<Rightarrow> Some (s\<lparr>lt_quit := True, lt_owner := Joining\<rparr>)
   | Joining \<Rightarrow> if lt_pc s = Finished then Some (s\<lparr>lt_owner := Destroyed\<rparr>) else None
   | _ \<Rightarrow> None)"

inductive lt_step :: "bool \<Rightarrow> nat \<Rightarrow> loop_thread \<Rightarrow> loop_thread \<Rightarrow> bool" for own here where
  thread_step: "threadFunc here s = Some t \<Longrightarrow> lt_step own here s t"
| start_step: "startLoop s = Some t \<Longrightarrow> lt_step own here s t"
| destroy_step: "EventLoopThread_destroy s = Some t \<Longrightarrow> lt_step own here s t"
| functor_quits: "own \<Longrightarrow> lt_pc s = Looping \<Longrightarrow> lt_step own here s (s\<lparr>lt_quit := True\<rparr>)"

lemmas lt_defs = threadFunc_def startLoop_def EventLoopThread_destroy_def

section \<open>The handshake\<close>

definition handshake_inv :: "nat \<Rightarrow> loop_thread \<Rightarrow> bool" where
  "handshake_inv here s \<longleftrightarrow>
     lt_loop s = (if lt_pc s = Entering \<or> lt_pc s = Looping \<or> lt_pc s = Clearing then Some here else None) \<and>
     (lt_owner s = Fresh \<longleftrightarrow> lt_pc s = Not_Started) \<and>
     (lt_called s \<longleftrightarrow> lt_pc s \<noteq> Not_Started \<and> lt_pc s \<noteq> In_Callback) \<and>
     (\<forall>a. lt_owner s = Got a \<or> lt_owner s = Quitting a \<longrightarrow> a = here \<and> (lt_pc s = Entering \<or> lt_pc s = Looping)) \<and>
     (lt_pc s = Clearing \<or> lt_pc s = Finished \<or> lt_quit s \<longrightarrow> lt_owner s = Joining \<or> lt_owner s = Destroyed)"

lemma threadFunc_inv: "handshake_inv here s \<Longrightarrow> threadFunc here s = Some t \<Longrightarrow> handshake_inv here t"
  by (cases "lt_pc s"; cases "lt_owner s") (simp_all add: threadFunc_def handshake_inv_def split: if_splits, fastforce+)

lemma startLoop_inv: "handshake_inv here s \<Longrightarrow> startLoop s = Some t \<Longrightarrow> handshake_inv here t"
  by (cases "lt_owner s"; cases "lt_pc s") (simp_all add: startLoop_def handshake_inv_def, fastforce+)

lemma destroy_inv: "handshake_inv here s \<Longrightarrow> EventLoopThread_destroy s = Some t \<Longrightarrow> handshake_inv here t"
  by (cases "lt_owner s"; cases "lt_pc s") (simp_all add: EventLoopThread_destroy_def handshake_inv_def, fastforce+)

lemma handshake_step: "handshake_inv here s \<Longrightarrow> lt_step False here s t \<Longrightarrow> handshake_inv here t"
  by (erule lt_step.cases) (blast intro: threadFunc_inv startLoop_inv destroy_inv)+

lemma handshake_new: "handshake_inv here EventLoopThread_new"
  by (simp add: handshake_inv_def EventLoopThread_new_def)

interpretation handshake: invariant_system "\<lambda>s. s = EventLoopThread_new" "lt_step False here" "handshake_inv here"
  by unfold_locales (simp add: handshake_new, rule handshake_step)

text \<open>The thread on its own, as far as it gets.\<close>

lemma thread_runs: "threadFunc here s = Some t \<Longrightarrow> (lt_step own here)\<^sup>*\<^sup>* t u \<Longrightarrow> (lt_step own here)\<^sup>*\<^sup>* s u"
  by (blast intro: thread_step converse_rtranclp_into_rtranclp)

lemma destroy_runs:
  "EventLoopThread_destroy s = Some t \<Longrightarrow> (lt_step own here)\<^sup>*\<^sup>* t u \<Longrightarrow> (lt_step own here)\<^sup>*\<^sup>* s u"
  by (blast intro: destroy_step converse_rtranclp_into_rtranclp)

lemma published_returns:
  assumes "lt_owner s = Waiting" and "lt_loop s = Some here"
  shows "\<exists>t. (lt_step own here)\<^sup>*\<^sup>* s t \<and> lt_owner t = Got here"
proof -
  have "lt_step own here s (s\<lparr>lt_owner := Got here\<rparr>)" using assms by (intro start_step) (simp add: startLoop_def)
  then show ?thesis by (intro exI [of _ "s\<lparr>lt_owner := Got here\<rparr>"]) auto
qed

lemma startLoop_returns:
  assumes "handshake_inv here s" and "lt_owner s = Waiting"
  shows "\<exists>t. (lt_step own here)\<^sup>*\<^sup>* s t \<and> lt_owner t = Got here"
proof -
  have publishing: "\<exists>t. (lt_step own here)\<^sup>*\<^sup>* s t \<and> lt_owner t = Got here"
    if "lt_pc s = Publishing" "lt_owner s = Waiting" for s :: loop_thread
    using thread_runs [of here s "s\<lparr>lt_loop := Some here, lt_pc := Entering\<rparr>"]
      published_returns [of "s\<lparr>lt_loop := Some here, lt_pc := Entering\<rparr>" here own] that
    by (auto simp: threadFunc_def)
  show ?thesis
  proof (cases "lt_pc s")
    case In_Callback
    then show ?thesis
      using thread_runs [of here s "s\<lparr>lt_called := True, lt_pc := Publishing\<rparr>"]
        publishing [of "s\<lparr>lt_called := True, lt_pc := Publishing\<rparr>"] assms(2) by (auto simp: threadFunc_def)
  qed (use assms publishing published_returns in \<open>auto simp: handshake_inv_def\<close>)
qed

lemma quit_looping_ends:
  assumes "lt_owner s = Quitting here" and "lt_pc s = Looping"
  shows "\<exists>t. (lt_step own here)\<^sup>*\<^sup>* s t \<and> lt_owner t = Destroyed"
proof -
  let ?a = "s\<lparr>lt_quit := True, lt_owner := Joining\<rparr>"
  let ?b = "?a\<lparr>lt_pc := Clearing\<rparr>"
  let ?c = "?b\<lparr>lt_loop := None, lt_pc := Finished\<rparr>"
  let ?d = "?c\<lparr>lt_owner := Destroyed\<rparr>"
  have e: "EventLoopThread_destroy s = Some ?a" "threadFunc here ?a = Some ?b" "threadFunc here ?b = Some ?c"
    "EventLoopThread_destroy ?c = Some ?d" using assms by (simp_all add: lt_defs)
  have "(lt_step own here)\<^sup>*\<^sup>* s ?d"
    by (rule destroy_runs [OF e(1) thread_runs [OF e(2) thread_runs [OF e(3) destroy_runs [OF e(4) rtranclp.rtrancl_refl]]]])
  then show ?thesis by (intro exI [of _ ?d]) simp
qed

lemma quit_entering_hangs:
  assumes "lt_owner s = Quitting here" and "lt_pc s = Entering"
  shows "\<exists>t. (lt_step False here)\<^sup>*\<^sup>* s t \<and> lt_owner t = Joining \<and> (\<forall>u. \<not> lt_step False here t u)"
proof -
  let ?a = "s\<lparr>lt_quit := True, lt_owner := Joining\<rparr>"
  let ?b = "?a\<lparr>lt_quit := False, lt_pc := Looping\<rparr>"
  have e: "EventLoopThread_destroy s = Some ?a" "threadFunc here ?a = Some ?b" using assms by (simp_all add: lt_defs)
  have "(lt_step False here)\<^sup>*\<^sup>* s ?b" by (rule destroy_runs [OF e(1) thread_runs [OF e(2) rtranclp.rtrancl_refl]])
  moreover have "\<not> lt_step False here ?b u" for u
    by (auto elim!: lt_step.cases simp: lt_defs)
  ultimately show ?thesis by (intro exI [of _ ?b]) simp
qed

lemma owner_has_loop:
  assumes "handshake_inv here s" and "lt_owner s = Got a \<or> lt_owner s = Quitting a"
  shows "a = here \<and> lt_called s \<and> lt_loop s = Some here \<and> lt_pc s \<noteq> Finished"
proof -
  have p: "a = here \<and> (lt_pc s = Entering \<or> lt_pc s = Looping)"
    using assms unfolding handshake_inv_def by blast
  have l: "lt_loop s = (if lt_pc s = Entering \<or> lt_pc s = Looping \<or> lt_pc s = Clearing then Some here else None)"
    and c: "lt_called s \<longleftrightarrow> lt_pc s \<noteq> Not_Started \<and> lt_pc s \<noteq> In_Callback"
    using assms(1) unfolding handshake_inv_def by blast+
  show ?thesis using p by (elim conjE disjE) (simp_all add: l c)
qed

text \<open>C37: \<open>EventLoopThread\<close>, when only the destructor quits the loop: \<open>startLoop\<close> can always return, and it returns the
  loop of the thread, which has run the callback and lives until the destructor has called \<open>quit\<close>; a \<open>quit\<close> that finds
  the thread inside \<open>loop()\<close> lets the destructor finish, and one that comes before \<open>loop()\<close> has cleared its flag can leave
  the destructor joined to the thread for ever.\<close>
theorem startLoop_handshake:
  assumes "(lt_step False here)\<^sup>*\<^sup>* EventLoopThread_new s"
  shows "(\<forall>a. lt_owner s = Got a \<or> lt_owner s = Quitting a \<longrightarrow>
      a = here \<and> lt_called s \<and> lt_loop s = Some here \<and> lt_pc s \<noteq> Finished) \<and>
    (lt_owner s = Waiting \<longrightarrow> (\<exists>t. (lt_step False here)\<^sup>*\<^sup>* s t \<and> lt_owner t = Got here)) \<and>
    (lt_owner s = Quitting here \<and> lt_pc s = Looping \<longrightarrow>
      (\<exists>t. (lt_step False here)\<^sup>*\<^sup>* s t \<and> lt_owner t = Destroyed)) \<and>
    (lt_owner s = Quitting here \<and> lt_pc s = Entering \<longrightarrow>
      (\<exists>t. (lt_step False here)\<^sup>*\<^sup>* s t \<and> lt_owner t = Joining \<and> (\<forall>u. \<not> lt_step False here t u)))"
proof -
  have inv: "handshake_inv here s" using handshake.reachable_inv [OF refl assms] .
  show ?thesis
    using owner_has_loop [OF inv] startLoop_returns [OF inv, of False] quit_looping_ends [of s here False]
      quit_entering_hangs [of s here] by blast
qed

theorem startLoop_handshake_witness:
  "\<exists>t. (lt_step False 8)\<^sup>*\<^sup>* EventLoopThread_new t \<and> lt_owner t = Got 8"
proof -
  let ?s = "EventLoopThread_new\<lparr>lt_owner := Waiting, lt_pc := In_Callback\<rparr>"
  have r: "(lt_step False 8)\<^sup>*\<^sup>* EventLoopThread_new ?s"
    by (intro r_into_rtranclp start_step) (simp add: startLoop_def EventLoopThread_new_def)
  from startLoop_handshake [OF r] have "\<exists>t. (lt_step False 8)\<^sup>*\<^sup>* ?s t \<and> lt_owner t = Got 8" by simp
  with r show ?thesis by (meson rtranclp_trans)
qed

text \<open>
  When a functor of the loop quits it, the loop can be gone before the owner looks: \<open>startLoop\<close> then waits for ever, and
  the destructor can call \<open>quit\<close> on a loop that no longer exists.
\<close>

lemma early_quit_hangs:
  assumes "lt_owner s = Waiting" and "lt_pc s = Looping"
  shows "\<exists>t. (lt_step True here)\<^sup>*\<^sup>* s t \<and> lt_owner t = Waiting \<and> (\<forall>u. \<not> lt_step True here t u)"
proof -
  let ?a = "s\<lparr>lt_quit := True\<rparr>"
  let ?b = "?a\<lparr>lt_pc := Clearing\<rparr>"
  let ?c = "?b\<lparr>lt_loop := None, lt_pc := Finished\<rparr>"
  have q: "lt_step True here s ?a" using assms by (intro functor_quits) simp_all
  have e: "threadFunc here ?a = Some ?b" "threadFunc here ?b = Some ?c" using assms by (simp_all add: lt_defs)
  have "(lt_step True here)\<^sup>*\<^sup>* ?a ?c" by (rule thread_runs [OF e(1) thread_runs [OF e(2) rtranclp.rtrancl_refl]])
  with q have "(lt_step True here)\<^sup>*\<^sup>* s ?c" by (rule converse_rtranclp_into_rtranclp)
  moreover have "\<not> lt_step True here ?c u" for u using assms by (auto elim!: lt_step.cases simp: lt_defs)
  ultimately show ?thesis using assms(1) by (intro exI [of _ ?c]) simp
qed

lemma stale_quit:
  assumes "lt_owner s = Quitting here" and "lt_pc s = Looping"
  shows "\<exists>t. (lt_step True here)\<^sup>*\<^sup>* s t \<and> lt_owner t = Quitting here \<and> lt_pc t = Finished"
proof -
  let ?a = "s\<lparr>lt_quit := True\<rparr>"
  let ?b = "?a\<lparr>lt_pc := Clearing\<rparr>"
  let ?c = "?b\<lparr>lt_loop := None, lt_pc := Finished\<rparr>"
  have q: "lt_step True here s ?a" using assms by (intro functor_quits) simp_all
  have e: "threadFunc here ?a = Some ?b" "threadFunc here ?b = Some ?c" using assms by (simp_all add: lt_defs)
  have "(lt_step True here)\<^sup>*\<^sup>* ?a ?c" by (rule thread_runs [OF e(1) thread_runs [OF e(2) rtranclp.rtrancl_refl]])
  with q have "(lt_step True here)\<^sup>*\<^sup>* s ?c" by (rule converse_rtranclp_into_rtranclp)
  then show ?thesis using assms(1) by (intro exI [of _ ?c]) simp
qed

end
