(* ===== verification/Memory_PageCache.thy ===== *)
theory Memory_PageCache
  imports Prelude
begin

text \<open>
  The page cache of memory-mgkl (PageCache.hpp, PageCache.cpp): \<open>Span\<close> objects in a heap,
  \<open>freeSpans_\<close> as the key-sorted association list of a \<open>std::map\<close> whose values are heads of span
  lists (possibly \<open>nullptr\<close>), \<open>spanMap_\<close> as a map. The addresses \<open>new Span\<close> and \<open>mmap\<close> answer
  with are arguments.
\<close>

section \<open>\<open>std::map\<close> with ordered keys\<close>

fun map_put :: "nat \<Rightarrow> 'a \<Rightarrow> (nat \<times> 'a) list \<Rightarrow> (nat \<times> 'a) list" where
  "map_put k v [] = [(k, v)]"
| "map_put k v ((k', v') # xs) =
     (if k < k' then (k, v) # (k', v') # xs
      else if k = k' then (k, v) # xs
      else (k', v') # map_put k v xs)"

definition map_erase :: "nat \<Rightarrow> (nat \<times> 'a) list \<Rightarrow> (nat \<times> 'a) list" where
  "map_erase k xs = filter (\<lambda>(k', _). k' \<noteq> k) xs"

text \<open>\<open>operator[]\<close> reads a missing key as \<open>nullptr\<close> and creates it.\<close>

definition map_ref :: "nat \<Rightarrow> (nat \<times> addr) list \<Rightarrow> addr" where
  "map_ref k xs = (case map_of xs k of None \<Rightarrow> 0 | Some v \<Rightarrow> v)"

definition map_touch :: "nat \<Rightarrow> (nat \<times> addr) list \<Rightarrow> (nat \<times> addr) list" where
  "map_touch k xs = map_put k (map_ref k xs) xs"

fun lower_bound :: "nat \<Rightarrow> (nat \<times> 'a) list \<Rightarrow> (nat \<times> 'a) option" where
  "lower_bound n [] = None"
| "lower_bound n ((k, v) # xs) = (if n \<le> k then Some (k, v) else lower_bound n xs)"

lemma map_of_put [simp]: "map_of (map_put k v xs) = (map_of xs)(k \<mapsto> v)"
  by (induction k v xs rule: map_put.induct) auto

lemma map_of_erase [simp]: "map_of (map_erase k xs) = (map_of xs)(k := None)"
  by (induction xs) (auto simp: map_erase_def)

lemma lower_bound_Some: "lower_bound n xs = Some (k, v) \<Longrightarrow> n \<le> k \<and> map_of xs k = Some v"
  by (induction n xs rule: lower_bound.induct) (auto split: if_splits)

lemma sorted_put:
  "sorted_wrt (<) (map fst xs) \<Longrightarrow> sorted_wrt (<) (map fst (map_put k v xs))
     \<and> set (map fst (map_put k v xs)) = insert k (set (map fst xs))"
  by (induction k v xs rule: map_put.induct) auto

lemma lower_bound_least:
  "sorted_wrt (<) (map fst xs) \<Longrightarrow> lower_bound n xs = Some (k, v) \<Longrightarrow>
   j \<in> set (map fst xs) \<Longrightarrow> n \<le> j \<Longrightarrow> k \<le> j"
  by (induction n xs rule: lower_bound.induct) (auto split: if_splits)

section \<open>State and operations\<close>

definition PAGE_SIZE :: nat where
  "PAGE_SIZE = 4096"

record span =
  pageAddr :: addr
  numPages :: nat
  sp_next :: addr

record page_cache =
  pc_heap :: "addr \<rightharpoonup> span"
  freeSpans :: "(nat \<times> addr) list"
  spanMap :: "addr \<rightharpoonup> addr"

definition PageCache_new :: page_cache where
  "PageCache_new = \<lparr>pc_heap = Map.empty, freeSpans = [], spanMap = Map.empty\<rparr>"

definition systemAlloc :: "(nat \<Rightarrow> addr) \<Rightarrow> nat \<Rightarrow> addr" where
  "systemAlloc mmap n = mmap (sz_mul n PAGE_SIZE)"

definition page_offset :: "addr \<Rightarrow> nat \<Rightarrow> addr" where
  "page_offset p n = sz_add p (sz_mul n PAGE_SIZE)"

text \<open>Head insertion of a span into the list of its size.\<close>

definition push_span :: "addr \<Rightarrow> page_cache \<Rightarrow> page_cache res" where
  "push_span s pc = (case pc_heap pc s of
       None \<Rightarrow> Inl Undefined
     | Some sp \<Rightarrow> Inr (pc\<lparr>pc_heap := (pc_heap pc)(s \<mapsto> sp\<lparr>sp_next := map_ref (numPages sp) (freeSpans pc)\<rparr>),
                         freeSpans := map_put (numPages sp) s (freeSpans pc)\<rparr>))"

definition pop_span :: "nat \<Rightarrow> addr \<Rightarrow> page_cache \<Rightarrow> page_cache res" where
  "pop_span k s pc = (case pc_heap pc s of
       None \<Rightarrow> Inl Undefined
     | Some sp \<Rightarrow> Inr (pc\<lparr>freeSpans := (if sp_next sp \<noteq> 0 then map_put k (sp_next sp) (freeSpans pc)
                                       else map_erase k (freeSpans pc))\<rparr>))"

definition split_span :: "addr \<Rightarrow> nat \<Rightarrow> addr \<Rightarrow> page_cache \<Rightarrow> page_cache res" where
  "split_span s n new pc = (case pc_heap pc s of
       None \<Rightarrow> Inl Undefined
     | Some sp \<Rightarrow>
         if n < numPages sp
         then res_bind (push_span new
                (pc\<lparr>pc_heap := (pc_heap pc)(new \<mapsto> \<lparr>pageAddr = page_offset (pageAddr sp) n,
                      numPages = numPages sp - n, sp_next = 0\<rparr>)\<rparr>))
                (\<lambda>pc2. Inr (pc2\<lparr>pc_heap := (pc_heap pc2)(s \<mapsto> sp\<lparr>numPages := n\<rparr>)\<rparr>))
         else Inr pc)"

definition allocateSpan :: "(nat \<Rightarrow> addr) \<Rightarrow> addr \<Rightarrow> nat \<Rightarrow> page_cache \<Rightarrow> (addr \<times> page_cache) res" where
  "allocateSpan mmap new n pc =
     (case lower_bound n (freeSpans pc) of
        Some (k, s) \<Rightarrow>
          res_bind (pop_span k s pc) (\<lambda>pc1.
          res_bind (split_span s n new pc1) (\<lambda>pc2.
            case pc_heap pc2 s of
              None \<Rightarrow> Inl Undefined
            | Some sp \<Rightarrow> Inr (pageAddr sp, pc2\<lparr>spanMap := (spanMap pc2)(pageAddr sp \<mapsto> s)\<rparr>)))
      | None \<Rightarrow>
          (let memory = systemAlloc mmap n
           in if memory = 0 then Inr (0, pc)
              else Inr (memory, pc\<lparr>pc_heap := (pc_heap pc)
                                     (new \<mapsto> \<lparr>pageAddr = memory, numPages = n, sp_next = 0\<rparr>),
                                   spanMap := (spanMap pc)(memory \<mapsto> new)\<rparr>)))"

text \<open>
  The search for \<open>target\<close> behind \<open>prev\<close>; \<open>Inr None\<close> says it was not found. The fuel bounds the
  number of iterations and running out of it is the error \<open>Diverges\<close>.
\<close>

fun unlink_span :: "nat \<Rightarrow> addr \<Rightarrow> addr \<Rightarrow> (addr \<rightharpoonup> span) \<Rightarrow> (addr \<rightharpoonup> span) option res" where
  "unlink_span 0 target prev h = Inl Diverges"
| "unlink_span (Suc fuel) target prev h =
     (case h prev of
        None \<Rightarrow> Inl Undefined
      | Some pv \<Rightarrow>
          if sp_next pv = 0 then Inr None
          else if sp_next pv = target
          then (case h target of
                  None \<Rightarrow> Inl Undefined
                | Some t \<Rightarrow> Inr (Some (h(prev \<mapsto> pv\<lparr>sp_next := sp_next t\<rparr>))))
          else unlink_span fuel target (sp_next pv) h)"

text \<open>
  The attempt to take the span \<open>t\<close> that begins where the freed one ends out of the free list of
  its size; \<open>operator[]\<close> creates that list when there is none.
\<close>

definition take_span :: "nat \<Rightarrow> addr \<Rightarrow> page_cache \<Rightarrow> (bool \<times> page_cache) res" where
  "take_span fuel t pc =
     (case pc_heap pc t of
        None \<Rightarrow> Inl Undefined
      | Some tp \<Rightarrow>
          (let k = numPages tp; head = map_ref k (freeSpans pc);
               pc1 = pc\<lparr>freeSpans := map_touch k (freeSpans pc)\<rparr>
           in if head = t then Inr (True, pc1\<lparr>freeSpans := map_put k (sp_next tp) (freeSpans pc1)\<rparr>)
              else if head \<noteq> 0
              then res_bind (unlink_span fuel t head (pc_heap pc1)) (\<lambda>r.
                     case r of None \<Rightarrow> Inr (False, pc1)
                     | Some h \<Rightarrow> Inr (True, pc1\<lparr>pc_heap := h\<rparr>))
              else Inr (False, pc1)))"

definition join_span :: "addr \<Rightarrow> addr \<Rightarrow> addr \<Rightarrow> page_cache \<Rightarrow> page_cache res" where
  "join_span s t next_addr pc =
     (case (pc_heap pc s, pc_heap pc t) of
        (Some sp, Some tp) \<Rightarrow>
          Inr (pc\<lparr>pc_heap := (pc_heap pc)(s \<mapsto> sp\<lparr>numPages := sz_add (numPages sp) (numPages tp)\<rparr>, t := None),
                  spanMap := (spanMap pc)(next_addr := None)\<rparr>)
      | _ \<Rightarrow> Inl Undefined)"

definition deallocateSpan :: "nat \<Rightarrow> addr \<Rightarrow> nat \<Rightarrow> page_cache \<Rightarrow> page_cache res" where
  "deallocateSpan fuel p n pc =
     (case spanMap pc p of
        None \<Rightarrow> Inr pc
      | Some s \<Rightarrow>
          (let next_addr = page_offset p n
           in case spanMap pc next_addr of
                None \<Rightarrow> push_span s pc
              | Some t \<Rightarrow>
                  res_bind (take_span fuel t pc) (\<lambda>(found, pc1).
                    if found then res_bind (join_span s t next_addr pc1) (push_span s)
                    else push_span s pc1)))"

section \<open>The invariant\<close>

text \<open>
  \<open>F k\<close> lists the free spans of \<open>k\<close> pages and \<open>U\<close> the spans in no free list. Every span is in
  exactly one of them, the spans' page ranges are disjoint, and \<open>spanMap_\<close> leads from an address
  to a span that begins there.
\<close>

definition nxt :: "(addr \<rightharpoonup> span) \<Rightarrow> addr \<Rightarrow> addr" where
  "nxt h s = (case h s of None \<Rightarrow> 0 | Some sp \<Rightarrow> sp_next sp)"

definition region :: "span \<Rightarrow> nat set" where
  "region sp = {pageAddr sp ..< pageAddr sp + numPages sp * PAGE_SIZE}"

definition span_ok :: "span \<Rightarrow> bool" where
  "span_ok sp \<longleftrightarrow> 0 < pageAddr sp \<and> 0 < numPages sp \<and> pageAddr sp + numPages sp * PAGE_SIZE < 2 ^ 64"

definition heap_ok :: "(addr \<rightharpoonup> span) \<Rightarrow> bool" where
  "heap_ok h \<longleftrightarrow> h 0 = None \<and> (\<forall>s sp. h s = Some sp \<longrightarrow> span_ok sp) \<and>
     (\<forall>s t sp tp. h s = Some sp \<longrightarrow> h t = Some tp \<longrightarrow> s \<noteq> t \<longrightarrow> region sp \<inter> region tp = {})"

definition free_ok :: "(nat \<Rightarrow> addr list) \<Rightarrow> (addr \<rightharpoonup> span) \<Rightarrow> (nat \<times> addr) list \<Rightarrow> bool" where
  "free_ok F h fr \<longleftrightarrow> (\<forall>k. hlist (nxt h) (map_ref k fr) (F k)) \<and>
     (\<forall>k. \<forall>s \<in> set (F k). \<exists>sp. h s = Some sp \<and> numPages sp = k)"

definition loose :: "(nat \<Rightarrow> addr list) \<Rightarrow> addr \<Rightarrow> bool" where
  "loose F s \<longleftrightarrow> (\<forall>k. s \<notin> set (F k))"

definition map_ok :: "(addr \<rightharpoonup> span) \<Rightarrow> (addr \<rightharpoonup> addr) \<Rightarrow> bool" where
  "map_ok h m \<longleftrightarrow> (\<forall>a s. m a = Some s \<longrightarrow> (\<exists>sp. h s = Some sp \<and> pageAddr sp = a))"

definition pc_ok :: "(nat \<Rightarrow> addr list) \<Rightarrow> page_cache \<Rightarrow> bool" where
  "pc_ok F pc \<longleftrightarrow> heap_ok (pc_heap pc) \<and> free_ok F (pc_heap pc) (freeSpans pc) \<and>
     map_ok (pc_heap pc) (spanMap pc)"

text \<open>The spans the caller holds: allocated at \<open>a\<close> with \<open>n\<close> pages and not returned.\<close>

definition holds :: "(nat \<Rightarrow> addr list) \<Rightarrow> page_cache \<Rightarrow> (addr \<rightharpoonup> nat) \<Rightarrow> bool" where
  "holds F pc used \<longleftrightarrow> (\<forall>a n. used a = Some n \<longrightarrow>
     (\<exists>s sp. spanMap pc a = Some s \<and> pc_heap pc s = Some sp \<and> pageAddr sp = a \<and> numPages sp = n \<and> loose F s))"

lemma map_ref_put [simp]: "map_ref j (map_put k v xs) = (if j = k then v else map_ref j xs)"
  by (simp add: map_ref_def)

lemma map_ref_erase [simp]: "map_ref j (map_erase k xs) = (if j = k then 0 else map_ref j xs)"
  by (simp add: map_ref_def)

lemma map_ref_touch [simp]: "map_ref j (map_touch k xs) = map_ref j xs"
  by (simp add: map_touch_def)

lemma nxt_upd [simp]: "nxt (h(s \<mapsto> sp)) = (nxt h)(s := sp_next sp)"
  by (auto simp: nxt_def)

lemma free_ok_hlist: "free_ok F h fr \<Longrightarrow> hlist (nxt h) (map_ref k fr) (F k)"
  by (simp add: free_ok_def)

lemma free_ok_span: "free_ok F h fr \<Longrightarrow> s \<in> set (F k) \<Longrightarrow> \<exists>sp. h s = Some sp \<and> numPages sp = k"
  by (simp add: free_ok_def)

lemma free_ok_one_list: "free_ok F h fr \<Longrightarrow> s \<in> set (F k) \<Longrightarrow> s \<in> set (F j) \<Longrightarrow> j = k"
  using free_ok_span [of F h fr s k] free_ok_span [of F h fr s j] by auto

lemma free_ok_nonnull: "free_ok F h fr \<Longrightarrow> 0 \<notin> set (F k)"
  by (metis free_ok_hlist hpath_nonzero)

lemma span_region: "span_ok sp \<Longrightarrow> pageAddr sp \<in> region sp"
  by (simp add: span_ok_def region_def PAGE_SIZE_def)

lemma heap_okD:
  assumes "heap_ok h" and "h s = Some sp"
  shows "s \<noteq> 0 \<and> span_ok sp"
proof -
  have "s \<noteq> 0" using assms unfolding heap_ok_def by (metis option.distinct(1))
  with assms show ?thesis by (simp add: heap_ok_def)
qed

lemma heap_ok_disjoint:
  "heap_ok h \<Longrightarrow> h s = Some sp \<Longrightarrow> h t = Some tp \<Longrightarrow> s \<noteq> t \<Longrightarrow> region sp \<inter> region tp = {}"
  by (simp add: heap_ok_def)

lemma heap_ok_upd:
  assumes "heap_ok h" and "s \<noteq> 0" and "span_ok sp"
    and "\<And>t tp. h t = Some tp \<Longrightarrow> t \<noteq> s \<Longrightarrow> region sp \<inter> region tp = {}"
  shows "heap_ok (h(s \<mapsto> sp))"
proof -
  have "region a \<inter> region b = {}"
    if "(h(s \<mapsto> sp)) u = Some a" "(h(s \<mapsto> sp)) v = Some b" "u \<noteq> v" for u v a b
    using that assms(4) [of v] assms(4) [of u] heap_ok_disjoint [OF assms(1), of u a v b]
    by (cases "u = s"; cases "v = s") (auto simp: Int_commute)
  moreover have "span_ok a" if "(h(s \<mapsto> sp)) u = Some a" for u a
    using that assms(3) heap_okD [OF assms(1)] by (cases "u = s") auto
  moreover have "(h(s \<mapsto> sp)) 0 = None" using assms(1,2) by (simp add: heap_ok_def)
  ultimately show ?thesis unfolding heap_ok_def by blast
qed

text \<open>A span is determined by its address.\<close>

lemma heap_ok_addr:
  assumes "heap_ok h" and "h s = Some sp" and "h t = Some tp" and "pageAddr sp = pageAddr tp"
  shows "s = t"
proof (rule ccontr)
  assume "s \<noteq> t"
  with assms have "region sp \<inter> region tp = {}" "span_ok sp" "span_ok tp"
    unfolding heap_ok_def by blast+
  with assms(4) show False using span_region [of sp] span_region [of tp] by auto
qed

subsection \<open>Pushing a span\<close>

lemma push_span_ok:
  assumes "pc_ok F pc" and "loose F s" and s: "pc_heap pc s = Some sp"
  shows "\<exists>pc'. push_span s pc = Inr pc' \<and> pc_ok (F(numPages sp := s # F (numPages sp))) pc'
    \<and> pc_heap pc' = (pc_heap pc)(s \<mapsto> sp\<lparr>sp_next := map_ref (numPages sp) (freeSpans pc)\<rparr>)
    \<and> spanMap pc' = spanMap pc"
proof -
  let ?k = "numPages sp" and ?h = "pc_heap pc"
  let ?h' = "?h(s \<mapsto> sp\<lparr>sp_next := map_ref ?k (freeSpans pc)\<rparr>)"
  let ?F = "F(?k := s # F ?k)"
  have ok: "heap_ok ?h" "free_ok F ?h (freeSpans pc)" "map_ok ?h (spanMap pc)"
    using assms(1) by (simp_all add: pc_ok_def)
  have heap: "heap_ok ?h'"
    using heap_okD [OF ok(1) s] heap_ok_disjoint [OF ok(1) s]
    by (intro heap_ok_upd [OF ok(1)]) (simp_all add: span_ok_def region_def)
  have "hlist (nxt ?h') (map_ref k (map_put ?k s (freeSpans pc))) (?F k)" for k
    using free_ok_hlist [OF ok(2), of k] assms(2) heap_okD [OF ok(1) s]
    by (auto simp: loose_def)
  moreover have "\<exists>tp. ?h' t = Some tp \<and> numPages tp = k" if "t \<in> set (?F k)" for t k
    using that free_ok_span [OF ok(2)] s by (cases "t = s"; cases "k = ?k") (auto dest: assms(2) [unfolded loose_def, rule_format, THEN notE])
  ultimately have free: "free_ok ?F ?h' (map_put ?k s (freeSpans pc))" unfolding free_ok_def by blast
  have "map_ok ?h' (spanMap pc)"
    using ok(3) s by (fastforce simp: map_ok_def)
  with heap free show ?thesis by (simp add: push_span_def s pc_ok_def)
qed

subsection \<open>Popping the head of a list\<close>

lemma set_mono_tl: "set (tl xs) \<subseteq> set xs"
  by (cases xs) auto

lemma map_ref_lower_bound:
  "lower_bound n xs = Some (k, v) \<Longrightarrow> map_ref k xs = v \<and> n \<le> k"
  using lower_bound_Some [of n xs k v] by (simp add: map_ref_def)

lemma pop_span_ok:
  assumes "pc_ok F pc" and s: "map_ref k (freeSpans pc) = s" "s \<noteq> 0"
  shows "\<exists>pc' sp. pop_span k s pc = Inr pc' \<and> pc_ok (F(k := tl (F k))) pc'
    \<and> pc_heap pc' = pc_heap pc \<and> spanMap pc' = spanMap pc
    \<and> pc_heap pc s = Some sp \<and> numPages sp = k \<and> s \<in> set (F k) \<and> loose (F(k := tl (F k))) s"
proof -
  let ?h = "pc_heap pc" and ?F = "F(k := tl (F k))"
  have ok: "heap_ok ?h" "free_ok F ?h (freeSpans pc)" "map_ok ?h (spanMap pc)"
    using assms(1) by (simp_all add: pc_ok_def)
  obtain bs where Fk: "F k = s # bs" "hlist (nxt ?h) (nxt ?h s) bs"
    using hlist_nonnull free_ok_hlist [OF ok(2), of k] s by metis
  then obtain sp where sp: "?h s = Some sp" "numPages sp = k" using free_ok_span [OF ok(2), of s k] by auto
  have "s \<notin> set bs" using hlist_distinct [OF free_ok_hlist [OF ok(2), of k]] Fk by simp
  then have loose: "loose ?F s"
    using Fk free_ok_one_list [OF ok(2), of s k] by (auto simp: loose_def)
  let ?fr = "if sp_next sp \<noteq> 0 then map_put k (sp_next sp) (freeSpans pc) else map_erase k (freeSpans pc)"
  have "nxt ?h s = sp_next sp" by (simp add: nxt_def sp)
  then have "hlist (nxt ?h) (map_ref j ?fr) (?F j)" for j
    using Fk free_ok_hlist [OF ok(2), of j] by (auto split: if_splits)
  moreover have "\<exists>tp. ?h t = Some tp \<and> numPages tp = j" if "t \<in> set (?F j)" for t j
    using that free_ok_span [OF ok(2), of t j] set_mono_tl [of "F k"] by (auto split: if_splits)
  ultimately have "free_ok ?F ?h ?fr" unfolding free_ok_def by blast
  with ok loose sp Fk show ?thesis
    by (simp add: pop_span_def pc_ok_def)
qed

subsection \<open>New, split and joined spans\<close>

lemma new_span_ok:
  assumes "pc_ok F pc" and "pc_heap pc s = None" and "s \<noteq> 0" and "span_ok sp"
    and "\<And>t tp. pc_heap pc t = Some tp \<Longrightarrow> region sp \<inter> region tp = {}"
  shows "pc_ok F (pc\<lparr>pc_heap := (pc_heap pc)(s \<mapsto> sp)\<rparr>) \<and> loose F s"
proof -
  let ?h = "pc_heap pc" and ?h' = "(pc_heap pc)(s \<mapsto> sp)"
  have ok: "heap_ok ?h" "free_ok F ?h (freeSpans pc)" "map_ok ?h (spanMap pc)"
    using assms(1) by (simp_all add: pc_ok_def)
  have notin: "s \<notin> set (F k)" for k using free_ok_span [OF ok(2), of s k] assms(2) by auto
  have heap: "heap_ok ?h'" using assms(3-5) by (intro heap_ok_upd [OF ok(1)]) auto
  have "hlist (nxt ?h') (map_ref k (freeSpans pc)) (F k)" for k
    using free_ok_hlist [OF ok(2), of k] notin by simp
  moreover have "\<exists>tp. ?h' t = Some tp \<and> numPages tp = k" if "t \<in> set (F k)" for t k
    using that notin free_ok_span [OF ok(2), of t k] by auto
  ultimately have "free_ok F ?h' (freeSpans pc)" unfolding free_ok_def by blast
  moreover have "map_ok ?h' (spanMap pc)" using ok(3) assms(2) by (fastforce simp: map_ok_def)
  ultimately show ?thesis using heap notin by (simp add: pc_ok_def loose_def)
qed

text \<open>Changing the size of a span that is in no list, to a region inside or beside its old one.\<close>

lemma resize_span_ok:
  assumes "pc_ok F pc" and "loose F s" and "pc_heap pc s = Some sp"
    and "span_ok (sp\<lparr>numPages := n\<rparr>)"
    and "\<And>t tp. pc_heap pc t = Some tp \<Longrightarrow> t \<noteq> s \<Longrightarrow> region (sp\<lparr>numPages := n\<rparr>) \<inter> region tp = {}"
  shows "pc_ok F (pc\<lparr>pc_heap := (pc_heap pc)(s \<mapsto> sp\<lparr>numPages := n\<rparr>)\<rparr>)"
proof -
  let ?h = "pc_heap pc" and ?h' = "(pc_heap pc)(s \<mapsto> sp\<lparr>numPages := n\<rparr>)"
  have ok: "heap_ok ?h" "free_ok F ?h (freeSpans pc)" "map_ok ?h (spanMap pc)"
    using assms(1) by (simp_all add: pc_ok_def)
  have notin: "s \<notin> set (F k)" for k using assms(2) by (simp add: loose_def)
  have heap: "heap_ok ?h'" using assms(4,5) heap_okD [OF ok(1) assms(3)] by (intro heap_ok_upd [OF ok(1)]) auto
  have "hlist (nxt ?h') (map_ref k (freeSpans pc)) (F k)" for k
    using free_ok_hlist [OF ok(2), of k] notin by simp
  moreover have "\<exists>tp. ?h' t = Some tp \<and> numPages tp = k" if "t \<in> set (F k)" for t k
    using that notin free_ok_span [OF ok(2), of t k] by auto
  ultimately have "free_ok F ?h' (freeSpans pc)" unfolding free_ok_def by blast
  moreover have "map_ok ?h' (spanMap pc)" using ok(3) assms(3) by (fastforce simp: map_ok_def)
  ultimately show ?thesis using heap by (simp add: pc_ok_def)
qed

lemma region_split:
  assumes "span_ok sp" and "0 < n" and "n < numPages sp"
  shows "page_offset (pageAddr sp) n = pageAddr sp + n * PAGE_SIZE"
    and "span_ok (sp\<lparr>numPages := n\<rparr>)"
    and "span_ok \<lparr>pageAddr = page_offset (pageAddr sp) n, numPages = numPages sp - n, sp_next = 0\<rparr>"
    and "region (sp\<lparr>numPages := n\<rparr>) \<inter>
         region \<lparr>pageAddr = page_offset (pageAddr sp) n, numPages = numPages sp - n, sp_next = 0\<rparr> = {}"
    and "region (sp\<lparr>numPages := n\<rparr>) \<subseteq> region sp"
    and "region \<lparr>pageAddr = page_offset (pageAddr sp) n, numPages = numPages sp - n, sp_next = 0\<rparr>
           \<subseteq> region sp"
proof -
  show *: "page_offset (pageAddr sp) n = pageAddr sp + n * PAGE_SIZE"
    using assms by (simp add: page_offset_def span_ok_def size_arith PAGE_SIZE_def)
  have "n * PAGE_SIZE + (numPages sp - n) * PAGE_SIZE = numPages sp * PAGE_SIZE"
    using assms(3) by (simp add: add_mult_distrib [symmetric])
  with assms show "span_ok (sp\<lparr>numPages := n\<rparr>)"
    "span_ok \<lparr>pageAddr = page_offset (pageAddr sp) n, numPages = numPages sp - n, sp_next = 0\<rparr>"
    "region (sp\<lparr>numPages := n\<rparr>) \<inter>
         region \<lparr>pageAddr = page_offset (pageAddr sp) n, numPages = numPages sp - n, sp_next = 0\<rparr> = {}"
    "region (sp\<lparr>numPages := n\<rparr>) \<subseteq> region sp"
    "region \<lparr>pageAddr = page_offset (pageAddr sp) n, numPages = numPages sp - n, sp_next = 0\<rparr> \<subseteq> region sp"
    by (auto simp: * span_ok_def region_def)
qed

lemma split_span_ok:
  assumes ok: "pc_ok F pc" and loose: "loose F s" and s: "pc_heap pc s = Some sp"
    and new: "pc_heap pc new = None" "new \<noteq> 0" and n: "0 < n" "n \<le> numPages sp"
  shows "\<exists>pc' F' sp'. split_span s n new pc = Inr pc' \<and> pc_ok F' pc' \<and> spanMap pc' = spanMap pc
    \<and> pc_heap pc' s = Some sp' \<and> pageAddr sp' = pageAddr sp \<and> numPages sp' = n \<and> loose F' s
    \<and> (\<forall>t. t \<noteq> s \<longrightarrow> t \<noteq> new \<longrightarrow> pc_heap pc' t = pc_heap pc t \<and> (loose F t \<longrightarrow> loose F' t))
    \<and> (\<forall>k. length (F' k) \<le> Suc (length (F k)))"
proof (cases "n < numPages sp")
  case False
  with n have "n = numPages sp" by simp
  with ok loose s show ?thesis
    by (intro exI [of _ pc] exI [of _ F] exI [of _ sp]) (simp add: split_span_def)
next
  case True
  let ?rest = "\<lparr>pageAddr = page_offset (pageAddr sp) n, numPages = numPages sp - n, sp_next = 0\<rparr>"
  have heap: "heap_ok (pc_heap pc)" using ok by (simp add: pc_ok_def)
  then have sok: "span_ok sp" using heap_okD s by blast
  note r = region_split [OF sok n(1) True]
  have ne: "s \<noteq> new" using s new by auto
  define pc1 where "pc1 = pc\<lparr>pc_heap := (pc_heap pc)(s \<mapsto> sp\<lparr>numPages := n\<rparr>)\<rparr>"
  have ok1: "pc_ok F pc1"
    unfolding pc1_def using r(2,5) heap_ok_disjoint [OF heap s]
    by (intro resize_span_ok [OF ok loose s]) blast+
  define pc2 where "pc2 = pc1\<lparr>pc_heap := (pc_heap pc1)(new \<mapsto> ?rest)\<rparr>"
  have "region ?rest \<inter> region tp = {}" if "pc_heap pc1 t = Some tp" for t tp
    using that r(4,6) heap_ok_disjoint [OF heap s, of t tp]
    by (cases "t = s") (auto simp: pc1_def Int_commute)
  then have ok2: "pc_ok F pc2" "loose F new"
    using new_span_ok [OF ok1, of new ?rest] new ne r(3) by (auto simp: pc2_def pc1_def)
  have at: "pc_heap pc2 new = Some ?rest" by (simp add: pc2_def)
  obtain pc3 where pc3: "push_span new pc2 = Inr pc3" "pc_ok (F(numPages sp - n := new # F (numPages sp - n))) pc3"
    "pc_heap pc3 = (pc_heap pc2)(new \<mapsto> ?rest\<lparr>sp_next := map_ref (numPages sp - n) (freeSpans pc2)\<rparr>)"
    "spanMap pc3 = spanMap pc2"
    using push_span_ok [OF ok2 at] by auto
  have "split_span s n new pc = Inr pc3"
    using pc3(1) True s ne
    by (auto simp: split_span_def push_span_def pc2_def pc1_def fun_upd_twist)
  moreover have "pc_heap pc3 s = Some (sp\<lparr>numPages := n\<rparr>)"
    using pc3(3) ne by (simp add: pc2_def pc1_def)
  moreover have "loose (F(numPages sp - n := new # F (numPages sp - n))) s"
    using loose ne by (simp add: loose_def)
  moreover have "pc_heap pc3 t = pc_heap pc t \<and>
      (loose F t \<longrightarrow> loose (F(numPages sp - n := new # F (numPages sp - n))) t)" if "t \<noteq> s" "t \<noteq> new" for t
    using that pc3(3) by (simp add: pc2_def pc1_def loose_def)
  moreover have "\<forall>k. length ((F(numPages sp - n := new # F (numPages sp - n))) k) \<le> Suc (length (F k))" by simp
  moreover have "spanMap pc3 = spanMap pc" using pc3(4) by (simp add: pc2_def pc1_def)
  moreover have "pageAddr (sp\<lparr>numPages := n\<rparr>) = pageAddr sp" "numPages (sp\<lparr>numPages := n\<rparr>) = n" by simp_all
  ultimately show ?thesis using pc3(2) by blast
qed

subsection \<open>Taking a span out of the middle of a list\<close>

lemma unlink_missing:
  assumes "hlist (nxt h) prev (prev # rest)" and "\<forall>x \<in> set (prev # rest). h x \<noteq> None"
    and "target \<notin> set rest" and "target \<noteq> 0" and "length rest < fuel"
  shows "unlink_span fuel target prev h = Inr None"
  using assms
proof (induction rest arbitrary: prev fuel)
  case Nil
  then show ?case by (cases fuel) (auto simp: nxt_def)
next
  case (Cons a rest)
  then obtain f where "fuel = Suc f" by (cases fuel) auto
  moreover obtain pv where "h prev = Some pv" "sp_next pv = a"
    using Cons.prems(1,2) by (auto simp: nxt_def)
  ultimately show ?case using Cons by auto
qed

lemma unlink_found:
  assumes "hlist (nxt h) prev (prev # rest)" and "\<forall>x \<in> set (prev # rest). h x \<noteq> None"
    and "target \<in> set rest" and "target \<noteq> 0" and "length rest < fuel"
  shows "\<exists>p pv tp. unlink_span fuel target prev h = Inr (Some (h(p \<mapsto> pv\<lparr>sp_next := sp_next tp\<rparr>)))
    \<and> p \<in> set (prev # rest) \<and> h p = Some pv \<and> h target = Some tp
    \<and> hlist (nxt (h(p \<mapsto> pv\<lparr>sp_next := sp_next tp\<rparr>))) prev (prev # remove1 target rest)"
  using assms
proof (induction rest arbitrary: prev fuel)
  case Nil
  then show ?case by simp
next
  case (Cons a rest)
  then obtain f where f: "fuel = Suc f" by (cases fuel) auto
  obtain pv where pv: "h prev = Some pv" "sp_next pv = a"
    using Cons.prems(1,2) by (auto simp: nxt_def)
  have dist: "prev \<notin> set (a # rest)" "a \<noteq> 0" "prev \<noteq> 0"
    using hlist_distinct [OF Cons.prems(1)] Cons.prems(1) by auto
  show ?case
  proof (cases "a = target")
    case True
    obtain tp where tp: "h target = Some tp" using Cons.prems(2) True by auto
    have "nxt h target = sp_next tp" by (simp add: nxt_def tp)
    then have "hlist (nxt h) (sp_next tp) rest" using Cons.prems(1) True by simp
    then have "hlist (nxt (h(prev \<mapsto> pv\<lparr>sp_next := sp_next tp\<rparr>))) prev (prev # remove1 target (a # rest))"
      using dist True by simp
    moreover have "unlink_span fuel target prev h = Inr (Some (h(prev \<mapsto> pv\<lparr>sp_next := sp_next tp\<rparr>)))"
      using f pv tp True Cons.prems(4) by simp
    moreover have "prev \<in> set (prev # a # rest)" by simp
    ultimately show ?thesis using pv(1) tp by blast
  next
    case False
    then have "hlist (nxt h) a (a # rest)" "\<forall>x \<in> set (a # rest). h x \<noteq> None" "target \<in> set rest"
      "length rest < f" using Cons.prems f by auto
    from Cons.IH [OF this(1-3) Cons.prems(4) this(4)] obtain p qv tp where
      u: "unlink_span f target a h = Inr (Some (h(p \<mapsto> qv\<lparr>sp_next := sp_next tp\<rparr>)))"
      "p \<in> set (a # rest)" "h p = Some qv"
      "hlist (nxt (h(p \<mapsto> qv\<lparr>sp_next := sp_next tp\<rparr>))) a (a # remove1 target rest)"
      "h target = Some tp" by blast
    then have "p \<noteq> prev" using dist by auto
    moreover have "unlink_span fuel target prev h = Inr (Some (h(p \<mapsto> qv\<lparr>sp_next := sp_next tp\<rparr>)))"
      using u(1) f pv dist False by simp
    moreover have "nxt h prev = a" by (simp add: nxt_def pv)
    ultimately have "hlist (nxt (h(p \<mapsto> qv\<lparr>sp_next := sp_next tp\<rparr>))) prev (prev # remove1 target (a # rest))"
      using u(4) False dist by simp
    moreover have "p \<in> set (prev # a # rest)" using u(2) by simp
    ultimately show ?thesis using \<open>unlink_span fuel target prev h = _\<close> u(3,5) by blast
  qed
qed

lemma take_span_ok:
  assumes ok: "pc_ok F pc" and t: "pc_heap pc t = Some tp" and fuel: "length (F (numPages tp)) \<le> fuel"
  shows "\<exists>pc' found tp'. take_span fuel t pc = Inr (found, pc')
    \<and> pc_ok (F(numPages tp := remove1 t (F (numPages tp)))) pc' \<and> spanMap pc' = spanMap pc
    \<and> found = (t \<in> set (F (numPages tp)))
    \<and> loose (F(numPages tp := remove1 t (F (numPages tp)))) t
    \<and> pc_heap pc' t = Some tp' \<and> pageAddr tp' = pageAddr tp \<and> numPages tp' = numPages tp
    \<and> (\<forall>u. loose F u \<longrightarrow> pc_heap pc' u = pc_heap pc u)"
proof -
  let ?h = "pc_heap pc" and ?k = "numPages tp" and ?fr = "freeSpans pc"
  let ?F = "F(?k := remove1 t (F ?k))" and ?head = "map_ref (numPages tp) (freeSpans pc)"
  have oks: "heap_ok ?h" "free_ok F ?h ?fr" "map_ok ?h (spanMap pc)"
    using ok by (simp_all add: pc_ok_def)
  note list = free_ok_hlist [OF oks(2), of ?k]
  have t0: "t \<noteq> 0" using heap_okD [OF oks(1) t] by simp
  have loose: "loose ?F t"
    using hlist_distinct [OF list] free_ok_span [OF oks(2), of t] t by (auto simp: loose_def)
  have keep: "pc_ok F (pc\<lparr>freeSpans := map_touch ?k ?fr\<rparr>)"
    using ok by (simp add: pc_ok_def free_ok_def)
  consider (none) "?head = 0" | (head) "?head = t" "?head \<noteq> 0" | (walk) "?head \<noteq> t" "?head \<noteq> 0" by blast
  then show ?thesis
  proof cases
    case none
    then have "F ?k = []" using list by simp
    then have "?F = F" "t \<notin> set (F ?k)" by auto
    moreover have "take_span fuel t pc = Inr (False, pc\<lparr>freeSpans := map_touch ?k ?fr\<rparr>)"
      using none t t0 by (simp add: take_span_def Let_def)
    ultimately show ?thesis using keep loose t by fastforce
  next
    case head
    then obtain bs where bs: "F ?k = t # bs" "hlist (nxt ?h) (nxt ?h t) bs"
      using hlist_nonnull list by metis
    let ?pc = "pc\<lparr>freeSpans := map_put ?k (sp_next tp) (map_touch ?k ?fr)\<rparr>"
    have "nxt ?h t = sp_next tp" by (simp add: nxt_def t)
    then have "hlist (nxt ?h) (map_ref j (map_put ?k (sp_next tp) (map_touch ?k ?fr))) (?F j)" for j
      using bs free_ok_hlist [OF oks(2), of j] by simp
    moreover have "\<exists>sp. ?h u = Some sp \<and> numPages sp = j" if "u \<in> set (?F j)" for u j
      using that free_ok_span [OF oks(2), of u j] bs by (auto split: if_splits)
    ultimately have "free_ok ?F ?h (map_put ?k (sp_next tp) (map_touch ?k ?fr))" unfolding free_ok_def by blast
    then have "pc_ok ?F ?pc" using oks by (simp add: pc_ok_def)
    moreover have "take_span fuel t pc = Inr (True, ?pc)"
      using head t by (simp add: take_span_def Let_def)
    ultimately show ?thesis using t loose bs by fastforce
  next
    case walk
    then obtain bs where bs: "F ?k = ?head # bs" using hlist_nonnull list by metis
    have path: "hlist (nxt ?h) ?head (?head # bs)" using list bs by simp
    have alive: "\<forall>x \<in> set (?head # bs). ?h x \<noteq> None"
      using free_ok_span [OF oks(2), of _ ?k] bs by force
    have len: "length bs < fuel" using fuel bs by simp
    show ?thesis
    proof (cases "t \<in> set bs")
      case False
      then have "remove1 t (F ?k) = F ?k" "t \<notin> set (F ?k)" using walk bs by (simp_all add: remove1_idem)
      then have "?F = F" "t \<notin> set (F ?k)" by simp_all
      moreover have "take_span fuel t pc = Inr (False, pc\<lparr>freeSpans := map_touch ?k ?fr\<rparr>)"
        using unlink_missing [OF path alive False t0 len] walk t by (simp add: take_span_def Let_def)
      ultimately show ?thesis using keep loose t by fastforce
    next
      case True
      from unlink_found [OF path alive True t0 len] obtain p pv tq where
        u1: "unlink_span fuel t ?head ?h = Inr (Some (?h(p \<mapsto> pv\<lparr>sp_next := sp_next tq\<rparr>)))"
        "p \<in> set (?head # bs)" "?h p = Some pv"
        "hlist (nxt (?h(p \<mapsto> pv\<lparr>sp_next := sp_next tq\<rparr>))) ?head (?head # remove1 t bs)"
        "?h t = Some tq" by blast
      moreover have "?F ?k = ?head # remove1 t bs" using walk bs by simp
      ultimately have u: "p \<in> set (F ?k)" "?h p = Some pv"
        "hlist (nxt (?h(p \<mapsto> pv\<lparr>sp_next := sp_next tq\<rparr>))) ?head (?F ?k)"
        using bs by simp_all
      let ?h' = "?h(p \<mapsto> pv\<lparr>sp_next := sp_next tq\<rparr>)"
      let ?pc = "pc\<lparr>freeSpans := map_touch ?k ?fr, pc_heap := ?h'\<rparr>"
      have heap: "heap_ok ?h'"
        using heap_okD [OF oks(1) u(2)] heap_ok_disjoint [OF oks(1) u(2)]
        by (intro heap_ok_upd [OF oks(1)]) (simp_all add: span_ok_def region_def)
      have "hlist (nxt ?h') (map_ref j (map_touch ?k ?fr)) (?F j)" for j
      proof (cases "j = ?k")
        case False
        then have "p \<notin> set (F j)" using free_ok_one_list [OF oks(2) u(1), of j] by auto
        with False free_ok_hlist [OF oks(2), of j] show ?thesis by simp
      qed (use u(3) in simp)
      moreover have "\<exists>sp. ?h' v = Some sp \<and> numPages sp = j" if "v \<in> set (?F j)" for v j
        using that free_ok_span [OF oks(2), of v j] u(2) set_remove1_subset [of t "F ?k"] by (auto split: if_splits)
      ultimately have "free_ok ?F ?h' (map_touch ?k ?fr)" unfolding free_ok_def by blast
      moreover have "map_ok ?h' (spanMap pc)" using oks(3) u(2) by (fastforce simp: map_ok_def)
      ultimately have "pc_ok ?F ?pc" using heap by (simp add: pc_ok_def)
      moreover have "take_span fuel t pc = Inr (True, ?pc)"
        using walk t u1(1) by (simp add: take_span_def Let_def)
      moreover have "\<forall>v. loose F v \<longrightarrow> ?h' v = ?h v" using u(1) by (auto simp: loose_def)
      moreover have "\<exists>tp'. ?h' t = Some tp' \<and> pageAddr tp' = pageAddr tp \<and> numPages tp' = ?k"
        using t u(2) by auto
      ultimately show ?thesis using loose True bs by auto
    qed
  qed
qed

lemma join_span_ok:
  assumes ok: "pc_ok F pc" and loose: "loose F s" "loose F t"
    and s: "pc_heap pc s = Some sp" and t: "pc_heap pc t = Some tp" and "s \<noteq> t"
    and adj: "pageAddr tp = pageAddr sp + numPages sp * PAGE_SIZE"
  shows "\<exists>pc'. join_span s t (pageAddr tp) pc = Inr pc' \<and> pc_ok F pc'
    \<and> pc_heap pc' = (pc_heap pc)(s \<mapsto> sp\<lparr>numPages := numPages sp + numPages tp\<rparr>, t := None)
    \<and> spanMap pc' = (spanMap pc)(pageAddr tp := None)"
proof -
  let ?h = "pc_heap pc" and ?m = "numPages sp + numPages tp"
  let ?h' = "?h(s \<mapsto> sp\<lparr>numPages := ?m\<rparr>, t := None)"
  have oks: "heap_ok ?h" "free_ok F ?h (freeSpans pc)" "map_ok ?h (spanMap pc)"
    using ok by (simp_all add: pc_ok_def)
  have sok: "span_ok sp" "span_ok tp" "s \<noteq> 0" using heap_okD [OF oks(1)] s t by blast+
  have both: "region (sp\<lparr>numPages := ?m\<rparr>) = region sp \<union> region tp"
    using adj by (auto simp: region_def add_mult_distrib)
  have bound: "span_ok (sp\<lparr>numPages := ?m\<rparr>)"
    using sok adj by (simp add: span_ok_def add_mult_distrib)
  then have sum: "sz_add (numPages sp) (numPages tp) = ?m"
    by (intro size_arith) (simp add: span_ok_def PAGE_SIZE_def)
  have base: "heap_ok (?h(t := None))" using oks(1) by (auto simp: heap_ok_def)
  have "heap_ok ((?h(t := None))(s \<mapsto> sp\<lparr>numPages := ?m\<rparr>))"
    using sok bound heap_ok_disjoint [OF oks(1)] s t
    by (intro heap_ok_upd [OF base]) (auto simp only: both fun_upd_apply Int_Un_distrib2 Un_empty split: if_splits)
  then have heap: "heap_ok ?h'" using assms(6) by (simp add: fun_upd_twist)
  have notin: "s \<notin> set (F k)" "t \<notin> set (F k)" for k using loose by (simp_all add: loose_def)
  have "nxt ?h' u = nxt ?h u" if "u \<noteq> t" "u \<noteq> s" for u using that by (simp add: nxt_def)
  then have "hlist (nxt ?h') (map_ref k (freeSpans pc)) (F k)" for k
    using free_ok_hlist [OF oks(2), of k] notin [of k] hpath_cong [of "F k" "nxt ?h'" "nxt ?h"] by metis
  moreover have "\<exists>tp. ?h' u = Some tp \<and> numPages tp = k" if "u \<in> set (F k)" for u k
    using that notin [of k] free_ok_span [OF oks(2), of u k] by auto
  ultimately have free: "free_ok F ?h' (freeSpans pc)" unfolding free_ok_def by blast
  have "\<exists>up. ?h' u = Some up \<and> pageAddr up = a" if "((spanMap pc)(pageAddr tp := None)) a = Some u" for a u
  proof -
    from that have a: "a \<noteq> pageAddr tp" "spanMap pc a = Some u" by (auto split: if_splits)
    with oks(3) obtain up where "?h u = Some up" "pageAddr up = a" by (auto simp: map_ok_def)
    with a(1) s t show ?thesis by auto
  qed
  then have "map_ok ?h' ((spanMap pc)(pageAddr tp := None))" by (simp add: map_ok_def)
  with heap free show ?thesis by (simp add: join_span_def s t sum pc_ok_def)
qed

section \<open>The operations keep the invariant\<close>

text \<open>What \<open>new\<close> and \<open>mmap\<close> promise: an address not in use, and no page of a known span.\<close>

definition fresh_answer :: "page_cache \<Rightarrow> nat \<Rightarrow> addr \<Rightarrow> addr \<Rightarrow> bool" where
  "fresh_answer pc n new mem \<longleftrightarrow> new \<noteq> 0 \<and> pc_heap pc new = None \<and>
     (mem \<noteq> 0 \<longrightarrow> span_ok \<lparr>pageAddr = mem, numPages = n, sp_next = 0\<rparr> \<and>
        (\<forall>t tp. pc_heap pc t = Some tp \<longrightarrow>
           region \<lparr>pageAddr = mem, numPages = n, sp_next = 0\<rparr> \<inter> region tp = {}))"

lemma holds_at: "holds F pc used \<Longrightarrow> used a = Some n \<Longrightarrow> \<exists>s sp. spanMap pc a = Some s \<and>
    pc_heap pc s = Some sp \<and> pageAddr sp = a \<and> numPages sp = n \<and> loose F s"
  by (simp add: holds_def)

lemma register_span_ok:
  assumes "pc_ok F pc" and "pc_heap pc s = Some sp"
  shows "pc_ok F (pc\<lparr>spanMap := (spanMap pc)(pageAddr sp \<mapsto> s)\<rparr>)"
  using assms by (auto simp: pc_ok_def map_ok_def)

lemma allocateSpan_reuse:
  assumes ok: "pc_ok F pc" and held: "holds F pc used" and n: "0 < n"
    and fresh: "fresh_answer pc n new mem" and lb: "lower_bound n (freeSpans pc) = Some (k, s)" "s \<noteq> 0"
  shows "\<exists>F' a pc'. allocateSpan (\<lambda>_. mem) new n pc = Inr (a, pc') \<and> a \<noteq> 0 \<and> used a = None
    \<and> pc_ok F' pc' \<and> holds F' pc' (used(a \<mapsto> n)) \<and> (\<forall>k. length (F' k) \<le> Suc (length (F k)))"
proof -
  have k: "map_ref k (freeSpans pc) = s" "n \<le> k" using map_ref_lower_bound [OF lb(1)] by simp_all
  obtain pc1 sp where p: "pop_span k s pc = Inr pc1" "pc_ok (F(k := tl (F k))) pc1" "pc_heap pc1 = pc_heap pc"
    "spanMap pc1 = spanMap pc" "pc_heap pc s = Some sp" "numPages sp = k" "s \<in> set (F k)"
    "loose (F(k := tl (F k))) s"
    using pop_span_ok [OF ok k(1) lb(2)] by blast
  have new: "pc_heap pc1 new = None" "new \<noteq> 0" using fresh p(3) by (simp_all add: fresh_answer_def)
  have at: "pc_heap pc1 s = Some sp" "n \<le> numPages sp" using p k by simp_all
  from split_span_ok [OF p(2,8) at(1) new n at(2)] obtain pc2 F' sp' where q:
    "split_span s n new pc1 = Inr pc2" "pc_ok F' pc2" "spanMap pc2 = spanMap pc1"
    "pc_heap pc2 s = Some sp'" "pageAddr sp' = pageAddr sp" "numPages sp' = n" "loose F' s"
    "\<And>t. t \<noteq> s \<Longrightarrow> t \<noteq> new \<Longrightarrow> pc_heap pc2 t = pc_heap pc1 t"
    "\<And>t. t \<noteq> s \<Longrightarrow> t \<noteq> new \<Longrightarrow> loose (F(k := tl (F k))) t \<Longrightarrow> loose F' t"
    "\<And>j. length (F' j) \<le> Suc (length ((F(k := tl (F k))) j))" by blast
  define pc3 where "pc3 = pc2\<lparr>spanMap := (spanMap pc2)(pageAddr sp' \<mapsto> s)\<rparr>"
  have run: "allocateSpan (\<lambda>_. mem) new n pc = Inr (pageAddr sp, pc3)"
    using lb p(1) q(1,4,5) by (simp add: allocateSpan_def pc3_def)
  have heap: "heap_ok (pc_heap pc)" using ok by (simp add: pc_ok_def)
  have other: "t \<noteq> s \<and> t \<noteq> new \<and> a \<noteq> pageAddr sp \<and> loose (F(k := tl (F k))) t"
    if "pc_heap pc t = Some tp" "pageAddr tp = a" "loose F t" for t tp a
  proof -
    have "t \<noteq> s" using that(3) p(7) by (auto simp: loose_def)
    moreover have "loose (F(k := tl (F k))) t" using that(3) set_mono_tl [of "F k"] by (auto simp: loose_def)
    ultimately show ?thesis
      using heap_ok_addr [OF heap p(5) that(1)] that(1,2) new p(3) by auto
  qed
  have used: "used (pageAddr sp) = None"
  proof (cases "used (pageAddr sp)")
    case (Some m)
    with holds_at [OF held] other show ?thesis by blast
  qed
  have "\<exists>t tp. spanMap pc3 a = Some t \<and> pc_heap pc3 t = Some tp \<and> pageAddr tp = a \<and> numPages tp = m \<and> loose F' t"
    if "(used(pageAddr sp \<mapsto> n)) a = Some m" for a m
  proof (cases "a = pageAddr sp")
    case True
    with that q show ?thesis by (simp add: pc3_def)
  next
    case False
    with that holds_at [OF held, of a m] obtain t tp where t: "spanMap pc a = Some t" "pc_heap pc t = Some tp"
      "pageAddr tp = a" "numPages tp = m" "loose F t" by auto
    with other [OF t(2,3,5)] q p False show ?thesis by (simp add: pc3_def)
  qed
  then have "holds F' pc3 (used(pageAddr sp \<mapsto> n))" by (simp add: holds_def)
  moreover have "pc_ok F' pc3" using register_span_ok [OF q(2,4)] by (simp add: pc3_def)
  moreover have "pageAddr sp \<noteq> 0" using heap_okD [OF heap p(5)] by (simp add: span_ok_def)
  moreover have "length (F' j) \<le> Suc (length (F j))" for j
    using q(10) [of j] by (auto split: if_splits)
  ultimately show ?thesis using run used by blast
qed

lemma allocateSpan_system:
  assumes ok: "pc_ok F pc" and held: "holds F pc used" and n: "0 < n"
    and fresh: "fresh_answer pc n new mem" and lb: "lower_bound n (freeSpans pc) = None" "mem \<noteq> 0"
  shows "\<exists>pc'. allocateSpan (\<lambda>_. mem) new n pc = Inr (mem, pc') \<and> used mem = None
    \<and> pc_ok F pc' \<and> holds F pc' (used(mem \<mapsto> n))"
proof -
  let ?sp = "\<lparr>pageAddr = mem, numPages = n, sp_next = 0\<rparr>"
  have f: "pc_heap pc new = None" "new \<noteq> 0" "span_ok ?sp"
    "\<And>t tp. pc_heap pc t = Some tp \<Longrightarrow> region ?sp \<inter> region tp = {}"
    using fresh lb(2) by (auto simp: fresh_answer_def)
  define pc1 where "pc1 = pc\<lparr>pc_heap := (pc_heap pc)(new \<mapsto> ?sp)\<rparr>"
  define pc2 where "pc2 = pc1\<lparr>spanMap := (spanMap pc)(mem \<mapsto> new)\<rparr>"
  have ok1: "pc_ok F pc1" "loose F new"
    using new_span_ok [OF ok f] by (simp_all add: pc1_def)
  have "pc_ok F pc2" using register_span_ok [OF ok1(1), of new ?sp] by (simp add: pc1_def pc2_def)
  moreover have "allocateSpan (\<lambda>_. mem) new n pc = Inr (mem, pc2)"
    using lb by (simp add: allocateSpan_def systemAlloc_def Let_def pc1_def pc2_def)
  moreover have other: "t \<noteq> new \<and> a \<noteq> mem" if "pc_heap pc t = Some tp" "pageAddr tp = a" for t tp a
  proof -
    have "span_ok tp" using heap_okD that(1) ok by (auto simp: pc_ok_def)
    with f(4) [OF that(1)] that(2) span_region [of tp] span_region [OF f(3)] have "a \<noteq> mem" by auto
    with f(1) that(1) show ?thesis by auto
  qed
  moreover have "used mem = None"
  proof (cases "used mem")
    case (Some m)
    with holds_at [OF held] other show ?thesis by blast
  qed
  moreover have "\<exists>t tp. spanMap pc2 a = Some t \<and> pc_heap pc2 t = Some tp \<and> pageAddr tp = a \<and> numPages tp = m \<and> loose F t"
    if "(used(mem \<mapsto> n)) a = Some m" for a m
  proof (cases "a = mem")
    case True
    with that ok1 show ?thesis by (simp add: pc1_def pc2_def)
  next
    case False
    with that holds_at [OF held, of a m] obtain t tp where t: "spanMap pc a = Some t" "pc_heap pc t = Some tp"
      "pageAddr tp = a" "numPages tp = m" "loose F t" by auto
    with other [OF t(2,3)] show ?thesis by (simp add: pc1_def pc2_def)
  qed
  ultimately show ?thesis by (auto simp: holds_def)
qed

lemma return_span_ok:
  assumes ok: "pc_ok F pc" and loose: "loose F s" and s: "pc_heap pc s = Some sp" "spanMap pc a = Some s"
    and held: "holds F pc used"
  shows "\<exists>pc'. push_span s pc = Inr pc' \<and> pc_ok (F(numPages sp := s # F (numPages sp))) pc'
    \<and> holds (F(numPages sp := s # F (numPages sp))) pc' (used(a := None))"
proof -
  from push_span_ok [OF ok loose s(1)] obtain pc' where p: "push_span s pc = Inr pc'"
    "pc_ok (F(numPages sp := s # F (numPages sp))) pc'"
    "pc_heap pc' = (pc_heap pc)(s \<mapsto> sp\<lparr>sp_next := map_ref (numPages sp) (freeSpans pc)\<rparr>)"
    "spanMap pc' = spanMap pc" by auto
  have addr: "pageAddr sp = a" using ok s by (fastforce simp: pc_ok_def map_ok_def)
  have "\<exists>t tp. spanMap pc' b = Some t \<and> pc_heap pc' t = Some tp \<and> pageAddr tp = b \<and> numPages tp = m \<and>
      loose (F(numPages sp := s # F (numPages sp))) t"
    if "(used(a := None)) b = Some m" for b m
  proof -
    have b: "b \<noteq> a" "used b = Some m" using that by (auto split: if_splits)
    from holds_at [OF held b(2)] obtain t tp where t: "spanMap pc b = Some t" "pc_heap pc t = Some tp"
      "pageAddr tp = b" "numPages tp = m" "loose F t" by blast
    have "t \<noteq> s" using t(2,3) s(1) addr b(1) by auto
    with t p show ?thesis by (auto simp: loose_def)
  qed
  with p show ?thesis by (auto simp: holds_def)
qed

lemma length_push:
  "(\<And>k. length (F k) \<le> length (G k)) \<Longrightarrow> length ((F(j := s # F j)) k) \<le> Suc (length (G k))"
  by (cases "k = j") (auto intro: le_SucI)

lemma deallocateSpan_ok:
  assumes ok: "pc_ok F pc" and held: "holds F pc used" and a: "used a = Some n"
    and fuel: "\<And>k. length (F k) \<le> fuel"
  shows "\<exists>F' pc'. deallocateSpan fuel a n pc = Inr pc' \<and> pc_ok F' pc' \<and> holds F' pc' (used(a := None))
    \<and> (\<forall>k. length (F' k) \<le> Suc (length (F k)))"
proof -
  obtain s sp where s: "spanMap pc a = Some s" "pc_heap pc s = Some sp" "pageAddr sp = a" "numPages sp = n" "loose F s"
    using holds_at [OF held a] by blast
  have heap: "heap_ok (pc_heap pc)" using ok by (simp add: pc_ok_def)
  have sok: "span_ok sp" using heap_okD [OF heap s(2)] by simp
  have off: "page_offset a n = a + n * PAGE_SIZE"
    using sok s(3,4) by (simp add: page_offset_def span_ok_def size_arith PAGE_SIZE_def)
  show ?thesis
  proof (cases "spanMap pc (page_offset a n)")
    case None
    with return_span_ok [OF ok s(5,2,1) held] s show ?thesis
      by (fastforce simp: deallocateSpan_def Let_def)
  next
    case (Some t)
    obtain tp where t: "pc_heap pc t = Some tp" "pageAddr tp = a + n * PAGE_SIZE"
      using ok Some off by (fastforce simp: pc_ok_def map_ok_def)
    have ne: "s \<noteq> t" using s t sok by (auto simp: span_ok_def PAGE_SIZE_def)
    let ?F = "F(numPages tp := remove1 t (F (numPages tp)))"
    from take_span_ok [OF ok t(1) fuel] obtain pc1 found tp' where q:
      "take_span fuel t pc = Inr (found, pc1)" "pc_ok ?F pc1" "spanMap pc1 = spanMap pc"
      "found = (t \<in> set (F (numPages tp)))" "loose ?F t" "pc_heap pc1 t = Some tp'"
      "pageAddr tp' = pageAddr tp" "\<And>u. loose F u \<Longrightarrow> pc_heap pc1 u = pc_heap pc u" by blast
    have keep: "loose ?F u" if "loose F u" for u
      using that set_remove1_subset [of t "F (numPages tp)"] by (auto simp: loose_def)
    have len: "length (?F k) \<le> length (F k)" for k by (auto simp: length_remove1)
    have held1: "holds ?F pc1 used"
      using holds_at [OF held] q(3,8) keep unfolding holds_def by metis
    have s1: "pc_heap pc1 s = Some sp" "spanMap pc1 a = Some s" "loose ?F s" using s q(3,8) keep by simp_all
    show ?thesis
    proof (cases found)
      case False
      from return_span_ok [OF q(2) s1(3,1,2) held1] obtain pc' where r: "push_span s pc1 = Inr pc'"
        "pc_ok (?F(numPages sp := s # ?F (numPages sp))) pc'"
        "holds (?F(numPages sp := s # ?F (numPages sp))) pc' (used(a := None))" by blast
      have "deallocateSpan fuel a n pc = Inr pc'"
        using s(1) Some q(1) False r(1) by (simp add: deallocateSpan_def)
      moreover have "length ((?F(numPages sp := s # ?F (numPages sp))) k) \<le> Suc (length (F k))" for k
        using length_push [of ?F F, OF len] .
      ultimately show ?thesis using r(2,3) by blast
    next
      case True
      from join_span_ok [OF q(2) s1(3) q(5) s1(1) q(6) ne] obtain pc2 where j:
        "join_span s t (pageAddr tp') pc1 = Inr pc2" "pc_ok ?F pc2"
        "pc_heap pc2 = (pc_heap pc1)(s \<mapsto> sp\<lparr>numPages := numPages sp + numPages tp'\<rparr>, t := None)"
        "spanMap pc2 = (spanMap pc1)(pageAddr tp' := None)"
        using q(7) t(2) s(3,4) by auto
      let ?sp = "sp\<lparr>numPages := numPages sp + numPages tp'\<rparr>"
      have at2: "pc_heap pc2 s = Some ?sp" "spanMap pc2 a = Some s"
        using j(3,4) ne s1 q(7) t(2) sok s(3,4) by (auto simp: span_ok_def PAGE_SIZE_def)
      have notloose: "\<not> loose F t" using True q(4) by (auto simp: loose_def)
      have "\<exists>u up. spanMap pc2 b = Some u \<and> pc_heap pc2 u = Some up \<and> pageAddr up = b \<and> numPages up = m \<and> loose ?F u"
        if b: "(used(a := None)) b = Some m" for b m
      proof -
        have "b \<noteq> a" "used b = Some m" using b by (auto split: if_splits)
        from holds_at [OF held this(2)] obtain u up where u: "spanMap pc b = Some u" "pc_heap pc u = Some up"
          "pageAddr up = b" "numPages up = m" "loose F u" by blast
        have us: "u \<noteq> s" using u(2,3) s(2,3) \<open>b \<noteq> a\<close> by auto
        have ut: "u \<noteq> t" using notloose u(5) by auto
        then have "b \<noteq> pageAddr tp'" using heap_ok_addr [OF heap u(2) t(1)] u(3) q(7) by auto
        with u us ut j(3,4) q(3,8) keep show ?thesis by simp
      qed
      then have "holds ?F pc2 (used(a := None))" by (simp add: holds_def)
      from return_span_ok [OF j(2) s1(3) at2 this] obtain pc' where r: "push_span s pc2 = Inr pc'"
        "pc_ok (?F(numPages ?sp := s # ?F (numPages ?sp))) pc'"
        "holds (?F(numPages ?sp := s # ?F (numPages ?sp))) pc' ((used(a := None))(a := None))" by blast
      have "deallocateSpan fuel a n pc = Inr pc'"
        using s(1) Some q(1) True r(1) j(1) q(7) t(2) off by (simp add: deallocateSpan_def)
      moreover have "length ((?F(numPages ?sp := s # ?F (numPages ?sp))) k) \<le> Suc (length (F k))" for k
        using length_push [of ?F F, OF len] .
      moreover have "(used(a := None))(a := None) = used(a := None)" by simp
      ultimately show ?thesis using r(2,3) by metis
    qed
  qed
qed

section \<open>Runs\<close>

text \<open>
  A client allocates and returns what it holds. \<open>held\<close> lists its allocations, one entry for every answer: an address
  handed out twice is in it twice. A failed \<open>mmap\<close> leaves it unchanged, and a return of something that is not held is
  not part of a run.
\<close>

datatype page_op = Alloc_Pages nat addr addr | Free_Pages addr

definition add_held :: "addr \<Rightarrow> nat \<Rightarrow> (addr \<times> nat) list \<Rightarrow> (addr \<times> nat) list" where
  "add_held a n held = (if a = 0 then held else (a, n) # held)"

fun page_run :: "nat \<Rightarrow> page_op list \<Rightarrow> page_cache \<times> (addr \<times> nat) list \<Rightarrow> (page_cache \<times> (addr \<times> nat) list) res" where
  "page_run fuel [] s = Inr s"
| "page_run fuel (Alloc_Pages n new mem # ops) (pc, held) =
     res_bind (allocateSpan (\<lambda>_. mem) new n pc) (\<lambda>(a, pc'). page_run fuel ops (pc', add_held a n held))"
| "page_run fuel (Free_Pages a # ops) (pc, held) =
     (case map_of held a of
        None \<Rightarrow> page_run fuel ops (pc, held)
      | Some n \<Rightarrow> res_bind (deallocateSpan fuel a n pc) (\<lambda>pc'. page_run fuel ops (pc', remove1 (a, n) held)))"

text \<open>Every answer of \<open>new\<close> and \<open>mmap\<close> along the run is fresh, and no request is for nothing.\<close>

fun fresh_run :: "nat \<Rightarrow> page_op list \<Rightarrow> page_cache \<times> (addr \<times> nat) list \<Rightarrow> bool" where
  "fresh_run fuel [] s = True"
| "fresh_run fuel (Alloc_Pages n new mem # ops) (pc, held) =
     (0 < n \<and> fresh_answer pc n new mem \<and>
      (case allocateSpan (\<lambda>_. mem) new n pc of
         Inl e \<Rightarrow> True
       | Inr (a, pc') \<Rightarrow> fresh_run fuel ops (pc', add_held a n held)))"
| "fresh_run fuel (Free_Pages a # ops) (pc, held) =
     (case map_of held a of
        None \<Rightarrow> fresh_run fuel ops (pc, held)
      | Some n \<Rightarrow> (case deallocateSpan fuel a n pc of
                     Inl e \<Rightarrow> True
                   | Inr pc' \<Rightarrow> fresh_run fuel ops (pc', remove1 (a, n) held)))"

text \<open>The ranges of any two entries have no byte in common; an entry that is twice in the list is not apart from itself.\<close>

definition pages_apart :: "(addr \<times> nat) list \<Rightarrow> bool" where
  "pages_apart held \<longleftrightarrow> (\<forall>(a, n) \<in> set held. a \<noteq> 0 \<and> 0 < n) \<and>
     sorted_wrt (\<lambda>(a, m) (b, n). {a ..< a + m * PAGE_SIZE} \<inter> {b ..< b + n * PAGE_SIZE} = {}) held"

text \<open>An allocation that fails: the first list that is long enough has a null head, which \<open>allocateSpan\<close> dereferences.\<close>

definition null_head :: "page_cache \<Rightarrow> nat \<Rightarrow> bool" where
  "null_head pc n \<longleftrightarrow> (\<exists>k. lower_bound n (freeSpans pc) = Some (k, 0))"

lemma map_of_remove1:
  assumes "distinct (map fst xs)" and "map_of xs a = Some n"
  shows "map_of (remove1 (a, n) xs) = (map_of xs)(a := None)"
  using assms
proof (induction xs)
  case (Cons x xs)
  then show ?case by (cases x) (auto simp: fun_eq_iff map_of_eq_None_iff image_iff split: if_splits)
qed simp

lemma distinct_fst_remove1: "distinct (map fst xs) \<Longrightarrow> distinct (map fst (remove1 x xs))"
proof (induction xs)
  case (Cons y xs)
  have "set (remove1 x xs) \<subseteq> set xs" by (rule set_remove1_subset)
  then have "fst ` set (remove1 x xs) \<subseteq> fst ` set xs" by blast
  with Cons show ?case by auto
qed simp

lemma map_of_add_held: "map_of (add_held a n held) = (if a = 0 then map_of held else (map_of held)(a \<mapsto> n))"
  by (simp add: add_held_def)

lemma allocateSpan_cases:
  assumes ok: "pc_ok F pc" and held: "holds F pc used" and n: "0 < n"
    and fresh: "fresh_answer pc n new mem"
  shows "allocateSpan (\<lambda>_. mem) new n pc = Inl Undefined \<and> (\<exists>k. lower_bound n (freeSpans pc) = Some (k, 0))
    \<or> (\<exists>F' a pc'. allocateSpan (\<lambda>_. mem) new n pc = Inr (a, pc') \<and> pc_ok F' pc'
        \<and> holds F' pc' (if a = 0 then used else used(a \<mapsto> n)) \<and> (a \<noteq> 0 \<longrightarrow> used a = None) \<and> (\<forall>k. length (F' k) \<le> Suc (length (F k))))"
proof (cases "lower_bound n (freeSpans pc)")
  case None
  show ?thesis
  proof (cases "mem = 0")
    case True
    with None have "allocateSpan (\<lambda>_. mem) new n pc = Inr (0, pc)"
      by (simp add: allocateSpan_def systemAlloc_def)
    with ok held show ?thesis
      by (intro disjI2 exI [of _ F] exI [of _ 0] exI [of _ pc]) simp
  next
    case False
    from allocateSpan_system [OF ok held n fresh None False] obtain pc' where
      "allocateSpan (\<lambda>_. mem) new n pc = Inr (mem, pc')" "pc_ok F pc'" "holds F pc' (used(mem \<mapsto> n))" "used mem = None"
      by blast
    with False show ?thesis
      by (intro disjI2 exI [of _ F] exI [of _ mem] exI [of _ pc']) simp
  qed
next
  case (Some p)
  obtain k s where ks: "p = (k, s)" by fastforce
  show ?thesis
  proof (cases "s = 0")
    case True
    have "pc_heap pc 0 = None" using ok by (simp add: pc_ok_def heap_ok_def)
    with Some ks True show ?thesis by (simp add: allocateSpan_def pop_span_def)
  next
    case False
    from Some ks allocateSpan_reuse [OF ok held n fresh _ False] obtain F' a pc' where
      "allocateSpan (\<lambda>_. mem) new n pc = Inr (a, pc')" "a \<noteq> 0" "pc_ok F' pc'"
      "holds F' pc' (used(a \<mapsto> n))" "used a = None" "\<forall>k. length (F' k) \<le> Suc (length (F k))" by blast
    then show ?thesis
      by (intro disjI2 exI [of _ F'] exI [of _ a] exI [of _ pc']) simp
  qed
qed

lemma page_run_ok:
  assumes "pc_ok F pc" and "holds F pc (map_of held)" and "distinct (map fst held)" and "\<And>k. length (F k) + length ops \<le> fuel"
    and "fresh_run fuel ops (pc, held)"
  shows "(\<exists>ps n new mem qs pc1 held1. ops = ps @ Alloc_Pages n new mem # qs \<and> page_run fuel ps (pc, held) = Inr (pc1, held1) \<and>
      null_head pc1 n \<and> allocateSpan (\<lambda>_. mem) new n pc1 = Inl Undefined \<and> page_run fuel ops (pc, held) = Inl Undefined) \<or>
    (\<exists>F' pc' held'. page_run fuel ops (pc, held) = Inr (pc', held') \<and> pc_ok F' pc' \<and> holds F' pc' (map_of held') \<and>
      distinct (map fst held'))"
  using assms
proof (induction ops arbitrary: F pc held)
  case Nil
  then show ?case by auto
next
  case (Cons op ops)
  have step: ?case if run: "\<And>os. page_run fuel (op # os) (pc, held) = page_run fuel os (pc2, held2)"
    and ok2: "pc_ok F2 pc2" "holds F2 pc2 (map_of held2)" "distinct (map fst held2)" "\<And>k. length (F2 k) + length ops \<le> fuel"
      "fresh_run fuel ops (pc2, held2)" for F2 pc2 held2
    using Cons.IH [OF ok2]
  proof (elim disjE exE conjE)
    fix ps n new mem qs pc1 held1
    assume "ops = ps @ Alloc_Pages n new mem # qs" "page_run fuel ps (pc2, held2) = Inr (pc1, held1)"
      "null_head pc1 n" "allocateSpan (\<lambda>_. mem) new n pc1 = Inl Undefined" "page_run fuel ops (pc2, held2) = Inl Undefined"
    then show ?case using run [of ops] run [of ps]
      by (intro disjI1 exI [of _ "op # ps"] exI [of _ n] exI [of _ new] exI [of _ mem] exI [of _ qs] exI [of _ pc1] exI [of _ held1]) simp
  next
    fix F' pc' held'
    assume "page_run fuel ops (pc2, held2) = Inr (pc', held')" "pc_ok F' pc'" "holds F' pc' (map_of held')" "distinct (map fst held')"
    then show ?case using run [of ops] by (intro disjI2 exI [of _ F'] exI [of _ pc'] exI [of _ held']) simp
  qed
  show ?case
  proof (cases op)
    case (Alloc_Pages n new mem)
    with Cons.prems(5) have pre: "0 < n" "fresh_answer pc n new mem" by simp_all
    from allocateSpan_cases [OF Cons.prems(1,2) pre] show ?thesis
    proof (elim disjE exE conjE)
      fix k
      assume "allocateSpan (\<lambda>_. mem) new n pc = Inl Undefined" "lower_bound n (freeSpans pc) = Some (k, 0)"
      with Alloc_Pages show ?thesis
        by (intro disjI1 exI [of _ "[]"] exI [of _ n] exI [of _ new] exI [of _ mem] exI [of _ ops] exI [of _ pc] exI [of _ held])
          (auto simp: null_head_def)
    next
      fix F' a pc'
      assume r: "allocateSpan (\<lambda>_. mem) new n pc = Inr (a, pc')" "pc_ok F' pc'"
        "holds F' pc' (if a = 0 then map_of held else (map_of held)(a \<mapsto> n))" "a \<noteq> 0 \<longrightarrow> map_of held a = None"
        "\<forall>k. length (F' k) \<le> Suc (length (F k))"
      have "length (F' k) + length ops \<le> fuel" for k
        using Cons.prems(4) [of k] spec [OF r(5), of k] by simp
      moreover have "fresh_run fuel ops (pc', add_held a n held)"
        using Cons.prems(5) Alloc_Pages r(1) by simp
      moreover have "page_run fuel (op # os) (pc, held) = page_run fuel os (pc', add_held a n held)" for os
        by (simp add: Alloc_Pages r(1))
      moreover have "distinct (map fst (add_held a n held))"
        using r(4) Cons.prems(3) by (auto simp: add_held_def map_of_eq_None_iff)
      moreover have "holds F' pc' (map_of (add_held a n held))" using r(3) by (simp add: map_of_add_held)
      ultimately show ?thesis using step r(2) by blast
    qed
  next
    case (Free_Pages a)
    show ?thesis
    proof (cases "map_of held a")
      case None
      have "length (F k) + length ops \<le> fuel" for k using Cons.prems(4) [of k] by simp
      moreover have "page_run fuel (op # os) (pc, held) = page_run fuel os (pc, held)" for os by (simp add: Free_Pages None)
      moreover have "fresh_run fuel ops (pc, held)" using Cons.prems(5) Free_Pages None by simp
      ultimately show ?thesis using step Cons.prems(1-3) by blast
    next
      case (Some n)
      have "length (F k) \<le> fuel" for k using Cons.prems(4) [of k] by simp
      from deallocateSpan_ok [OF Cons.prems(1,2) Some this] obtain F' pc' where r:
        "deallocateSpan fuel a n pc = Inr pc'" "pc_ok F' pc'" "holds F' pc' ((map_of held)(a := None))"
        "\<And>k. length (F' k) \<le> Suc (length (F k))" by blast
      have "length (F' k) + length ops \<le> fuel" for k
        using Cons.prems(4) [of k] r(4) [of k] by simp
      moreover have "fresh_run fuel ops (pc', remove1 (a, n) held)"
        using Cons.prems(5) Free_Pages Some r(1) by simp
      moreover have "page_run fuel (op # os) (pc, held) = page_run fuel os (pc', remove1 (a, n) held)" for os
        by (simp add: Free_Pages Some r(1))
      moreover have "holds F' pc' (map_of (remove1 (a, n) held))" using r(3) map_of_remove1 [OF Cons.prems(3) Some] by simp
      ultimately show ?thesis using step r(2) distinct_fst_remove1 [OF Cons.prems(3)] by blast
    qed
  qed
qed

lemma PageCache_new_ok: "pc_ok (\<lambda>_. []) PageCache_new" "holds (\<lambda>_. []) PageCache_new (map_of [])"
  by (simp_all add: pc_ok_def PageCache_new_def heap_ok_def free_ok_def map_ok_def map_ref_def holds_def)

lemma held_disjoint:
  assumes "pc_ok F pc" and "holds F pc used" and "used a = Some m" and "used b = Some n" and "a \<noteq> b"
  shows "{a ..< a + m * PAGE_SIZE} \<inter> {b ..< b + n * PAGE_SIZE} = {}"
proof -
  obtain s sp where s: "pc_heap pc s = Some sp" "pageAddr sp = a" "numPages sp = m"
    using holds_at [OF assms(2,3)] by blast
  obtain t tp where t: "pc_heap pc t = Some tp" "pageAddr tp = b" "numPages tp = n"
    using holds_at [OF assms(2,4)] by blast
  have "s \<noteq> t" using s t assms(5) by auto
  with s t assms(1) heap_ok_disjoint [of "pc_heap pc" s sp t tp] show ?thesis
    by (simp add: pc_ok_def region_def)
qed

lemma held_apart:
  assumes "pc_ok F pc" and "holds F pc (map_of held)" and "distinct (map fst held)"
  shows "pages_apart held"
  unfolding pages_apart_def
proof
  have at: "map_of held a = Some n" if "(a, n) \<in> set held" for a n using that assms(3) by simp
  have "heap_ok (pc_heap pc)" using assms(1) by (simp add: pc_ok_def)
  then show "\<forall>(a, n) \<in> set held. a \<noteq> 0 \<and> 0 < n"
    using holds_at [OF assms(2) at] by (fastforce simp: span_ok_def dest: heap_okD)
  show "sorted_wrt (\<lambda>(a, m) (b, n). {a ..< a + m * PAGE_SIZE} \<inter> {b ..< b + n * PAGE_SIZE} = {}) held"
    unfolding sorted_wrt_iff_nth_less
  proof (intro allI impI)
    fix i j assume ij: "i < j" "j < length held"
    obtain a m b n where p: "held ! i = (a, m)" "held ! j = (b, n)" by (metis surj_pair)
    have "map fst held ! i \<noteq> map fst held ! j" using ij assms(3) nth_eq_iff_index_eq [of "map fst held" i j] by simp
    then have "a \<noteq> b" using p ij by simp
    moreover have "(a, m) \<in> set held" "(b, n) \<in> set held" using p ij nth_mem [of i held] nth_mem [of j held] by auto
    ultimately show "(case held ! i of (a, m) \<Rightarrow> \<lambda>(b, n). {a ..< a + m * PAGE_SIZE} \<inter> {b ..< b + n * PAGE_SIZE} = {}) (held ! j)"
      using held_disjoint [OF assms(1,2) at at] p by simp
  qed
qed

text \<open>C4: The page cache never hands out a page twice: in every run of allocations and returns, with
  fresh answers of \<open>new\<close> and \<open>mmap\<close>, the page ranges of all the answers the client has not returned are pairwise
  disjoint (with one entry for every answer), and no list walk outlives fuel equal to the number of operations. The only
  way a run can fail is at an allocation, by the null dereference of \<open>allocateSpan\<close>: the first entry of \<open>freeSpans_\<close> that
  is large enough is a null pointer. Up to there the run succeeds.\<close>
theorem pages_never_overlap:
  assumes "length ops \<le> fuel" and "fresh_run fuel ops (PageCache_new, [])"
  shows "(\<exists>pc held. page_run fuel ops (PageCache_new, []) = Inr (pc, held) \<and> pages_apart held) \<or>
    (\<exists>ps n new mem qs pc held. ops = ps @ Alloc_Pages n new mem # qs \<and>
      page_run fuel ps (PageCache_new, []) = Inr (pc, held) \<and> null_head pc n \<and>
      allocateSpan (\<lambda>_. mem) new n pc = Inl Undefined \<and> page_run fuel ops (PageCache_new, []) = Inl Undefined)"
  using page_run_ok [OF PageCache_new_ok _ _ assms(2)] assms(1) held_apart by simp blast

text \<open>A concrete run: a span of eight pages is returned and split into three and five.\<close>

definition demo_run :: "page_op list" where
  "demo_run = [Alloc_Pages 8 100 4096, Free_Pages 4096, Alloc_Pages 3 101 0, Alloc_Pages 5 102 0]"

lemmas page_eval = PageCache_new_def allocateSpan_def systemAlloc_def deallocateSpan_def
  push_span_def pop_span_def split_span_def page_offset_def sz_add_def sz_mul_def PAGE_SIZE_def
  map_ref_def map_erase_def map_touch_def

definition demo1 :: page_cache where
  "demo1 = \<lparr>pc_heap = [100 \<mapsto> \<lparr>pageAddr = 4096, numPages = 8, sp_next = 0\<rparr>], freeSpans = [],
            spanMap = [4096 \<mapsto> 100]\<rparr>"

definition demo2 :: page_cache where
  "demo2 = demo1\<lparr>freeSpans := [(8, 100)]\<rparr>"

definition demo3 :: page_cache where
  "demo3 = \<lparr>pc_heap = [101 \<mapsto> \<lparr>pageAddr = 16384, numPages = 5, sp_next = 0\<rparr>,
                       100 \<mapsto> \<lparr>pageAddr = 4096, numPages = 3, sp_next = 0\<rparr>],
            freeSpans = [(5, 101)], spanMap = [4096 \<mapsto> 100]\<rparr>"

definition demo4 :: page_cache where
  "demo4 = demo3\<lparr>freeSpans := [], spanMap := [4096 \<mapsto> 100, 16384 \<mapsto> 101]\<rparr>"

lemma demo_steps:
  "allocateSpan (\<lambda>_. 4096) 100 8 PageCache_new = Inr (4096, demo1)"
  "deallocateSpan f 4096 8 demo1 = Inr demo2"
  "allocateSpan (\<lambda>_. 0) 101 3 demo2 = Inr (4096, demo3)"
  "allocateSpan (\<lambda>_. 0) 102 5 demo3 = Inr (16384, demo4)"
  by (auto simp: page_eval demo1_def demo2_def demo3_def demo4_def fun_eq_iff)

lemma demo_fresh: "fresh_run f demo_run (PageCache_new, [])"
  by (simp add: demo_run_def demo_steps add_held_def)
    (simp add: fresh_answer_def span_ok_def PAGE_SIZE_def demo1_def demo2_def demo3_def PageCache_new_def)

theorem pages_never_overlap_witness:
  "\<exists>pc. page_run 4 demo_run (PageCache_new, []) = Inr (pc, [(16384, 5), (4096, 3)]) \<and>
     pages_apart [(16384, 5), (4096, 3)]"
proof -
  have run: "page_run 4 demo_run (PageCache_new, []) = Inr (demo4, [(16384, 5), (4096, 3)])"
    by (simp add: demo_run_def demo_steps add_held_def)
  have "length demo_run \<le> 4" by (simp add: demo_run_def)
  from pages_never_overlap [OF this demo_fresh] have "pages_apart [(16384, 5), (4096, 3)]"
    unfolding run by simp
  with run show ?thesis by blast
qed

text \<open>A returned span can make a later allocation crash: looking for the neighbour of the returned
  span, \<open>deallocateSpan\<close> reads \<open>freeSpans_\<close> with \<open>operator[]\<close> and leaves a null entry for the size
  of a neighbour that is in use, which \<open>allocateSpan\<close> dereferences when it is the first entry that is
  large enough.\<close>

lemma null_entry_crash:
  "page_run 6 (demo_run @ [Free_Pages 4096, Alloc_Pages 4 103 1048576]) (PageCache_new, [])
     = Inl Undefined"
proof -
  define pc where "pc = demo4\<lparr>pc_heap := (pc_heap demo4)(100 \<mapsto> \<lparr>pageAddr = 4096, numPages = 3, sp_next = 0\<rparr>),
                       freeSpans := [(3, 100), (5, 0)]\<rparr>"
  have "deallocateSpan 6 4096 3 demo4 = Inr pc"
    by (simp add: page_eval take_span_def Let_def demo4_def demo3_def pc_def)
  moreover have "allocateSpan (\<lambda>_. 1048576) 103 4 pc = Inl Undefined"
    by (simp add: page_eval pc_def demo4_def demo3_def)
  ultimately show ?thesis by (simp add: demo_run_def demo_steps add_held_def)
qed

end
