(* ===== verification/Memory_Cache.thy ===== *)
theory Memory_Cache
  imports Memory_PageCache
begin

unbundle bit_operations_syntax

text \<open>
  The size classes and the two upper layers of memory-mgkl (Common.hpp, CentralCache.hpp/cpp,
  ThreadCache.hpp/cpp): per-thread and central free lists that are threaded through the first word
  of the free blocks, above the page cache of \<open>Memory_PageCache\<close>. A central list is only touched
  under its spin lock and a thread's lists only by the thread, so operations are atomic steps.
\<close>

section \<open>Size classes\<close>

definition ALIGNMENT :: "64 word" where
  "ALIGNMENT = 8"

definition MAX_BYTES :: "64 word" where
  "MAX_BYTES = 256 * 1024"

definition FREE_LIST_SIZE :: "64 word" where
  "FREE_LIST_SIZE = MAX_BYTES div ALIGNMENT"

definition SizeClass_ceil :: "64 word \<Rightarrow> 64 word" where
  "SizeClass_ceil bytes = (bytes + ALIGNMENT - 1) AND NOT (ALIGNMENT - 1)"

definition getIndex :: "64 word \<Rightarrow> 64 word" where
  "getIndex bytes = (let b = max bytes ALIGNMENT in (b + ALIGNMENT - 1) div ALIGNMENT - 1)"

lemma unat_MAX_BYTES: "unat MAX_BYTES = 262144"
  by (simp add: MAX_BYTES_def)

lemma unat_FREE_LIST_SIZE: "unat FREE_LIST_SIZE = 32768"
  by (simp add: FREE_LIST_SIZE_def MAX_BYTES_def ALIGNMENT_def unat_div)

lemma unat_getIndex:
  assumes "b \<le> MAX_BYTES"
  shows "unat (getIndex b) = (max (unat b) 8 + 7) div 8 - 1"
proof -
  have b: "unat b \<le> 262144" using assms unat_MAX_BYTES by (simp add: word_le_nat_alt)
  have m: "unat (max b 8) = max (unat b) 8" by (simp add: max_def word_le_nat_alt)
  have s: "unat (max b 8 + 8 - 1) = max (unat b) 8 + 7"
    using b m by (simp add: unat_plus_if' unat_sub_if_size word_size)
  then have d: "unat ((max b 8 + 8 - 1) div 8) = (max (unat b) 8 + 7) div 8" by (simp add: unat_div)
  have "1 \<le> (max (unat b) 8 + 7) div 8" by simp
  then show ?thesis using d by (simp add: getIndex_def ALIGNMENT_def Let_def unat_sub word_le_nat_alt)
qed

lemma SizeClass_ceil_nat:
  assumes "b \<le> MAX_BYTES"
  shows "unat (SizeClass_ceil b) = (unat b + 7) div 8 * 8"
proof -
  have b: "unat b \<le> 262144" using assms unat_MAX_BYTES by (simp add: word_le_nat_alt)
  have s: "unat (b + 7) = unat b + 7" using b by (simp add: unat_plus_if')
  have "(b + 7) AND NOT 7 = (b + 7) AND NOT (mask 3)" by (simp add: mask_eq_exp_minus_1)
  also have "\<dots> = push_bit 3 (drop_bit 3 (b + 7))"
    by (rule bit_word_eqI) (auto simp: bit_simps)
  finally have "unat ((b + 7) AND NOT 7) = unat (push_bit 3 (drop_bit 3 (b + 7)))" by simp
  also have "\<dots> = (unat b + 7) div 8 * 8"
    using b by (simp add: push_bit_eq_mult drop_bit_eq_div unat_word_ariths(2) unat_div s)
  finally have *: "unat ((b + 7) AND NOT 7) = (unat b + 7) div 8 * 8" .
  have "SizeClass_ceil b = (b + 7) AND NOT 7" by (simp add: SizeClass_ceil_def ALIGNMENT_def add.commute)
  with * show ?thesis by simp
qed

lemma size_class_fits:
  assumes "b \<le> MAX_BYTES"
  shows "unat (getIndex b) < 32768" and "unat b \<le> Suc (unat (getIndex b)) * 8"
    and "0 < unat b \<Longrightarrow> Suc (unat (getIndex b)) * 8 < unat b + 8"
  using assms unat_MAX_BYTES by (simp_all add: unat_getIndex word_le_nat_alt max_def) linarith+

text \<open>C29: Size classes: a request of \<open>b\<close> bytes, up to 256 KB, is served from a free list that exists,
  with blocks large enough for it and less than 8 bytes larger, and \<open>SizeClass::ceil\<close> is the size of
  that list's blocks.\<close>
theorem size_class_correct:
  assumes "0 < b" and "b \<le> MAX_BYTES"
  shows "getIndex b < FREE_LIST_SIZE \<and> unat (SizeClass_ceil b) = Suc (unat (getIndex b)) * 8
    \<and> unat b \<le> unat (SizeClass_ceil b) \<and> unat (SizeClass_ceil b) < unat b + 8"
proof -
  have b: "0 < unat b" using assms(1) by (simp add: word_less_nat_alt)
  have "(unat b + 7) div 8 * 8 = Suc (unat (getIndex b)) * 8"
    using b by (simp add: unat_getIndex [OF assms(2)] max_def) arith
  then show ?thesis
    using size_class_fits [OF assms(2)] b SizeClass_ceil_nat [OF assms(2)]
    by (simp add: word_less_nat_alt unat_FREE_LIST_SIZE)
qed

theorem size_class_correct_witness:
  "unat (SizeClass_ceil 20) = 24 \<and> unat (getIndex 20) = 2"
proof -
  have "(20 :: 64 word) \<le> MAX_BYTES" by (simp add: MAX_BYTES_def)
  moreover from this have "unat (getIndex 20) = 2" by (simp add: unat_getIndex)
  ultimately show ?thesis using size_class_correct [of 20] by simp
qed

section \<open>State\<close>

record caches =
  ms_word :: "addr \<Rightarrow> addr"
  ms_pages :: page_cache
  centralFreeList :: "nat \<Rightarrow> addr"
  freeList :: "nat \<Rightarrow> nat \<Rightarrow> addr"
  freeListSize :: "nat \<Rightarrow> nat \<Rightarrow> nat"

definition caches_new :: "(addr \<Rightarrow> addr) \<Rightarrow> caches" where
  "caches_new w = \<lparr>ms_word = w, ms_pages = PageCache_new, centralFreeList = (\<lambda>_. 0),
     freeList = (\<lambda>_ _. 0), freeListSize = (\<lambda>_ _. 0)\<rparr>"

section \<open>CentralCache\<close>

definition SPAN_PAGES :: nat where
  "SPAN_PAGES = 8"

text \<open>
  \<open>mem\<close> and \<open>new\<close> are the answers of \<open>mmap\<close> and \<open>new Span\<close>, should the page cache ask for them.
  \<open>systemAlloc\<close> fills the memory it gets from \<open>mmap\<close> with zeros.
\<close>

definition span_pages_for :: "nat \<Rightarrow> nat" where
  "span_pages_for bytes = (if bytes \<le> SPAN_PAGES * PAGE_SIZE then SPAN_PAGES
                          else (bytes + PAGE_SIZE - 1) div PAGE_SIZE)"

definition zero_region :: "addr \<Rightarrow> nat \<Rightarrow> (addr \<Rightarrow> addr) \<Rightarrow> addr \<Rightarrow> addr" where
  "zero_region p bytes w = (\<lambda>a. if p \<le> a \<and> a < p + bytes then 0 else w a)"

definition fetchFromPageCache :: "addr \<Rightarrow> addr \<Rightarrow> nat \<Rightarrow> caches \<Rightarrow> (addr \<times> caches) res" where
  "fetchFromPageCache mem new bytes s =
     (let n = span_pages_for bytes in
      res_bind (allocateSpan (\<lambda>_. mem) new n (ms_pages s)) (\<lambda>(p, pc).
        Inr (p, s\<lparr>ms_pages := pc,
                  ms_word := (if p \<noteq> 0 \<and> lower_bound n (freeSpans (ms_pages s)) = None
                              then zero_region p (n * PAGE_SIZE) (ms_word s) else ms_word s)\<rparr>)))"

text \<open>The loop that links the blocks of a fresh span; pointer arithmetic stays inside the span.\<close>

definition carve_links :: "addr \<Rightarrow> nat \<Rightarrow> nat \<Rightarrow> (addr \<Rightarrow> addr) \<Rightarrow> addr \<Rightarrow> addr" where
  "carve_links start bytes blockNum w =
     fold (\<lambda>i w. w(start + (i - 1) * bytes := start + i * bytes)) [1..<blockNum] w"

definition fetchRange :: "addr \<Rightarrow> addr \<Rightarrow> nat \<Rightarrow> caches \<Rightarrow> (addr \<times> caches) res" where
  "fetchRange mem new index s =
     (if unat FREE_LIST_SIZE \<le> index then Inr (0, s)
      else if centralFreeList s index = 0 then
        (let bytes = (index + 1) * 8 in
         res_bind (fetchFromPageCache mem new bytes s) (\<lambda>(res, s1).
           if res = 0 then Inr (0, s1)
           else
             (let blockNum = (SPAN_PAGES * PAGE_SIZE) div bytes in
              if 1 < blockNum then
                (let w1 = (carve_links res bytes blockNum (ms_word s1))(res + (blockNum - 1) * bytes := 0);
                     nxt = w1 res
                 in Inr (res, s1\<lparr>ms_word := w1(res := 0),
                                 centralFreeList := (centralFreeList s1)(index := nxt)\<rparr>))
              else Inr (res, s1))))
      else
        (let res = centralFreeList s index; nxt = ms_word s res
         in Inr (res, s\<lparr>ms_word := (ms_word s)(res := 0),
                        centralFreeList := (centralFreeList s)(index := nxt)\<rparr>)))"

text \<open>The end of the chain that begins at \<open>end\<close>, at most \<open>k\<close> steps away.\<close>

fun chain_end :: "(addr \<Rightarrow> addr) \<Rightarrow> nat \<Rightarrow> addr \<Rightarrow> addr" where
  "chain_end w 0 e = e"
| "chain_end w (Suc k) e = (if w e \<noteq> 0 then chain_end w k (w e) else e)"

definition returnRange :: "addr \<Rightarrow> nat \<Rightarrow> nat \<Rightarrow> caches \<Rightarrow> caches" where
  "returnRange start bytes index s =
     (if start = 0 \<or> unat FREE_LIST_SIZE \<le> index then s
      else (let e = chain_end (ms_word s) (bytes - 1) start
            in s\<lparr>ms_word := (ms_word s)(e := centralFreeList s index),
                 centralFreeList := (centralFreeList s)(index := start)\<rparr>))"

section \<open>ThreadCache\<close>

abbreviation set_free :: "nat \<Rightarrow> nat \<Rightarrow> addr \<Rightarrow> caches \<Rightarrow> caches" where
  "set_free t i p s \<equiv> s\<lparr>freeList := (freeList s)(t := (freeList s t)(i := p))\<rparr>"

abbreviation set_fsize :: "nat \<Rightarrow> nat \<Rightarrow> nat \<Rightarrow> caches \<Rightarrow> caches" where
  "set_fsize t i n s \<equiv> s\<lparr>freeListSize := (freeListSize s)(t := (freeListSize s t)(i := n))\<rparr>"

fun count_blocks :: "nat \<Rightarrow> (addr \<Rightarrow> addr) \<Rightarrow> addr \<Rightarrow> nat res" where
  "count_blocks 0 w cur = Inl Diverges"
| "count_blocks (Suc fuel) w cur =
     (if cur = 0 then Inr 0 else res_bind (count_blocks fuel w (w cur)) (\<lambda>n. Inr (Suc n)))"

definition fetchFromCentralCache ::
  "nat \<Rightarrow> addr \<Rightarrow> addr \<Rightarrow> nat \<Rightarrow> nat \<Rightarrow> caches \<Rightarrow> (addr \<times> caches) res" where
  "fetchFromCentralCache fuel mem new t index s =
     res_bind (fetchRange mem new index s) (\<lambda>(start, s1).
       if start = 0 then Inr (0, s1)
       else (let s2 = set_free t index (ms_word s1 start) s1 in
             res_bind (count_blocks fuel (ms_word s2) start) (\<lambda>batchNum.
               Inr (start, set_fsize t index (sz_add (freeListSize s2 t index) batchNum) s2))))"

text \<open>\<open>big\<close> is the answer of \<open>malloc\<close> for requests above \<open>MAX_BYTES\<close>.\<close>

definition tc_allocate ::
  "nat \<Rightarrow> addr \<Rightarrow> addr \<Rightarrow> addr \<Rightarrow> nat \<Rightarrow> 64 word \<Rightarrow> caches \<Rightarrow> (addr \<times> caches) res" where
  "tc_allocate fuel big mem new t bytes s =
     (let bytes = (if bytes = 0 then ALIGNMENT else bytes) in
      if MAX_BYTES < bytes then Inr (big, s)
      else
        (let index = unat (getIndex bytes);
             s1 = set_fsize t index (sz_sub (freeListSize s t index) 1) s;
             p = freeList s1 t index
         in if p \<noteq> 0 then Inr (p, set_free t index (ms_word s1 p) s1)
            else fetchFromCentralCache fuel mem new t index s1))"

definition shouldReturnToCentralCache :: "nat \<Rightarrow> nat \<Rightarrow> caches \<Rightarrow> bool" where
  "shouldReturnToCentralCache t index s = (64 < freeListSize s t index)"

text \<open>\<open>keepNum\<close> steps down the list, or \<open>nullptr\<close> when it ends before.\<close>

fun split_node :: "(addr \<Rightarrow> addr) \<Rightarrow> nat \<Rightarrow> addr \<Rightarrow> addr" where
  "split_node w 0 p = p"
| "split_node w (Suc k) p = (if w p = 0 then 0 else split_node w k (w p))"

definition returnToCentralCache :: "nat \<Rightarrow> addr \<Rightarrow> 64 word \<Rightarrow> caches \<Rightarrow> caches" where
  "returnToCentralCache t start bytes s =
     (let index = unat (getIndex bytes); alignedSize = unat (SizeClass_ceil bytes);
          batchNum = freeListSize s t index
      in if batchNum \<le> 1 then s
         else
           (let keepNum = max (batchNum div 4) 1; returnNum = batchNum - keepNum;
                splitNode = split_node (ms_word s) keepNum start
            in if splitNode \<noteq> 0 then
                 (let nextNode = ms_word s splitNode;
                      s1 = set_fsize t index keepNum (s\<lparr>ms_word := (ms_word s)(splitNode := 0)\<rparr>)
                  in if 0 < returnNum \<and> nextNode \<noteq> 0
                     then returnRange nextNode (sz_mul returnNum alignedSize) index s1 else s1)
               else s))"

definition tc_deallocate :: "nat \<Rightarrow> addr \<Rightarrow> 64 word \<Rightarrow> caches \<Rightarrow> caches res" where
  "tc_deallocate t p bytes s =
     (if MAX_BYTES < bytes then Inr s
      else if p = 0 then Inl Undefined
      else
        (let index = unat (getIndex bytes);
             s1 = set_free t index p (s\<lparr>ms_word := (ms_word s)(p := freeList s t index)\<rparr>);
             s2 = set_fsize t index (sz_add (freeListSize s1 t index) 1) s1
         in if shouldReturnToCentralCache t index s2
            then Inr (returnToCentralCache t (freeList s2 t index) bytes s2) else Inr s2))"

section \<open>Where a block is\<close>

text \<open>
  A block is in the central list of its class, in the list of a thread, with the client, or lost:
  cut off from every list although nobody holds it. \<open>L\<close> gives
  the blocks of every list in order, \<open>h\<close> the list heads and \<open>w\<close> the first words of the blocks.
\<close>

datatype place = Nowhere | Central nat | Cache nat nat | Client nat | Lost nat

fun cls :: "place \<Rightarrow> nat option" where
  "cls Nowhere = None"
| "cls (Central i) = Some i"
| "cls (Cache t i) = Some i"
| "cls (Client i) = Some i"
| "cls (Lost i) = Some i"

fun listed :: "place \<Rightarrow> bool" where
  "listed (Central i) = True"
| "listed (Cache t i) = True"
| "listed _ = False"

definition lists_ok ::
  "(place \<Rightarrow> addr list) \<Rightarrow> (addr \<Rightarrow> place) \<Rightarrow> (addr \<Rightarrow> addr) \<Rightarrow> (place \<Rightarrow> addr) \<Rightarrow> bool" where
  "lists_ok L loc w h \<longleftrightarrow> (\<forall>p. listed p \<longrightarrow> hlist w (h p) (L p) \<and> (\<forall>x. x \<in> set (L p) \<longleftrightarrow> loc x = p))"

lemma lists_ok_list: "lists_ok L loc w h \<Longrightarrow> listed p \<Longrightarrow> hlist w (h p) (L p)"
  by (simp add: lists_ok_def)

lemma lists_ok_iff: "lists_ok L loc w h \<Longrightarrow> listed p \<Longrightarrow> x \<in> set (L p) \<longleftrightarrow> loc x = p"
  by (simp add: lists_ok_def)

lemma lists_ok_word:
  assumes "lists_ok L loc w h" and "\<And>x. listed (loc x) \<Longrightarrow> w' x = w x"
  shows "lists_ok L loc w' h"
proof -
  have "hlist w' (h p) (L p)" if "listed p" for p
    using lists_ok_list [OF assms(1) that] lists_ok_iff [OF assms(1) that] assms(2) that
      hpath_cong [of "L p" w' w] by metis
  with assms(1) show ?thesis by (simp add: lists_ok_def)
qed

lemma lists_ok_pop:
  assumes ok: "lists_ok L loc w h" and p: "listed p" "h p \<noteq> 0" and q: "\<not> listed q"
  shows "lists_ok (L(p := tl (L p))) (loc(h p := q)) w (h(p := w (h p)))" and "loc (h p) = p"
proof -
  obtain xs where xs: "L p = h p # xs" "hlist w (w (h p)) xs"
    using hlist_nonnull [OF p(2) lists_ok_list [OF ok p(1)]] by blast
  then show loc: "loc (h p) = p" using lists_ok_iff [OF ok p(1), of "h p"] by simp
  have notin: "h p \<notin> set xs" using hlist_distinct [OF lists_ok_list [OF ok p(1)]] xs by simp
  have "hlist w ((h(p := w (h p))) r) ((L(p := tl (L p))) r) \<and>
      (\<forall>x. x \<in> set ((L(p := tl (L p))) r) \<longleftrightarrow> (loc(h p := q)) x = r)" if r: "listed r" for r
  proof (cases "r = p")
    case True
    have "x \<in> set xs \<longleftrightarrow> (loc(h p := q)) x = p" for x
      using lists_ok_iff [OF ok p(1), of x] xs(1) notin p(1) q by auto
    with True xs show ?thesis by simp
  next
    case False
    with lists_ok_list [OF ok r] lists_ok_iff [OF ok r] loc r q show ?thesis by auto
  qed
  then show "lists_ok (L(p := tl (L p))) (loc(h p := q)) w (h(p := w (h p)))" by (simp add: lists_ok_def)
qed

lemma lists_ok_push:
  assumes ok: "lists_ok L loc w h" and p: "listed p" and x: "\<not> listed (loc x)" "x \<noteq> 0"
  shows "lists_ok (L(p := x # L p)) (loc(x := p)) (w(x := h p)) (h(p := x))"
proof -
  have ok': "lists_ok L loc (w(x := h p)) h" using x by (intro lists_ok_word [OF ok]) auto
  have "hlist (w(x := h p)) ((h(p := x)) r) ((L(p := x # L p)) r) \<and>
      (\<forall>y. y \<in> set ((L(p := x # L p)) r) \<longleftrightarrow> (loc(x := p)) y = r)" if r: "listed r" for r
    using lists_ok_list [OF ok' r] lists_ok_iff [OF ok' r] x p r by (cases "r = p") auto
  then show ?thesis by (simp add: lists_ok_def)
qed

lemma hpath_last_upd:
  assumes "hpath w p xs q" and "xs \<noteq> []" and "distinct xs"
  shows "hpath (w(last xs := v)) p xs v"
  using assms
proof (induction xs arbitrary: p)
  case Nil
  then show ?case by simp
next
  case (Cons a xs)
  then show ?case by (cases xs) auto
qed

lemma lists_ok_transfer:
  assumes ok: "lists_ok L loc w h" and p: "listed p" and q: "listed q" "q \<noteq> p"
    and split: "L p = xs @ ys @ zs" "xs \<noteq> []" "ys \<noteq> []"
  shows "lists_ok (L(p := xs, q := ys @ L q))
    (\<lambda>x. if x \<in> set ys then q else if x \<in> set zs then Lost i else loc x)
    (w(last xs := 0, last ys := h q)) (h(q := hd ys))"
proof -
  have dist: "distinct xs" "distinct ys" "set xs \<inter> set ys = {}" "set zs \<inter> (set xs \<union> set ys) = {}"
    using hlist_distinct [OF lists_ok_list [OF ok p]] split by auto
  have at: "loc x = p" if "x \<in> set xs \<union> set ys \<union> set zs" for x
    using that lists_ok_iff [OF ok p, of x] split by auto
  obtain m m2 where m: "hpath w (h p) xs m" "hpath w m ys m2"
    using lists_ok_list [OF ok p] split(1) by auto
  have m': "m = hd ys" using m(2) split(3) by (cases ys) auto
  have lost: "p \<noteq> Lost i" using p by auto
  have in_set: "last xs \<in> set xs" "last ys \<in> set ys" using split by auto
  let ?w = "w(last xs := 0, last ys := h q)"
  have apart: "last ys \<notin> set xs" "last xs \<notin> set ys" "last xs \<noteq> last ys" using dist(3) in_set by auto
  have xs: "hlist ?w (h p) xs"
    using hpath_last_upd [OF m(1) split(2) dist(1), of 0] apart(1) by (simp only: hpath_upd not_False_eq_True)
  have "hpath ?w (hd ys) ys (h q)"
    using hpath_last_upd [OF m(2) split(3) dist(2), of "h q"] apart(2) m'
    by (simp only: fun_upd_twist [OF apart(3)] hpath_upd not_False_eq_True)
  moreover have other: "hlist ?w (h r) (L r)" if "listed r" "r \<noteq> p" for r
  proof -
    have "last xs \<notin> set (L r)" "last ys \<notin> set (L r)"
      using lists_ok_iff [OF ok that(1)] at in_set that(2) by auto
    with lists_ok_list [OF ok that(1)] show ?thesis by simp
  qed
  ultimately have ysq: "hlist ?w (hd ys) (ys @ L q)" using q by auto
  have "hlist ?w ((h(q := hd ys)) r) ((L(p := xs, q := ys @ L q)) r) \<and>
     (\<forall>x. x \<in> set ((L(p := xs, q := ys @ L q)) r) \<longleftrightarrow> 
       (if x \<in> set ys then q else if x \<in> set zs then Lost i else loc x) = r)"
    if r: "listed r" for r
  proof -
    consider "r = p" | "r = q" | "r \<noteq> p" "r \<noteq> q" by blast
    then show ?thesis
    proof cases
      case 1
      have "x \<in> set xs \<longleftrightarrow> (if x \<in> set ys then q else if x \<in> set zs then Lost i else loc x) = p" for x
        using lists_ok_iff [OF ok p, of x] split(1) dist(3,4) q(2) lost by auto
      with 1 q(2) xs show ?thesis by simp
    next
      case 2
      have "x \<in> set ys \<union> set (L q) \<longleftrightarrow>
          (if x \<in> set ys then q else if x \<in> set zs then Lost i else loc x) = q" for x
        using lists_ok_iff [OF ok q(1), of x] at [of x] q by auto
      with 2 ysq q(2) show ?thesis by simp
    next
      case 3
      have "x \<in> set (L r) \<longleftrightarrow> (if x \<in> set ys then q else if x \<in> set zs then Lost i else loc x) = r" for x
        using lists_ok_iff [OF ok r, of x] at [of x] 3 r by auto
      with 3 other [OF r] show ?thesis by simp
    qed
  qed
  then show ?thesis by (simp add: lists_ok_def)
qed

lemma lists_ok_carve:
  assumes ok: "lists_ok L loc w h" and p: "listed p" "h p = 0"
    and xs: "hlist w' v xs" "\<And>x. x \<in> set xs \<Longrightarrow> \<not> listed (loc x)"
    and same: "\<And>x. listed (loc x) \<Longrightarrow> w' x = w x"
  shows "lists_ok (L(p := xs)) (\<lambda>x. if x \<in> set xs then p else loc x) w' (h(p := v))"
proof -
  have ok': "lists_ok L loc w' h" by (rule lists_ok_word [OF ok same])
  have none: "loc x \<noteq> p" for x
    using lists_ok_list [OF ok p(1)] lists_ok_iff [OF ok p(1), of x] p(2) by simp
  have "hlist w' ((h(p := v)) r) ((L(p := xs)) r) \<and>
     (\<forall>x. x \<in> set ((L(p := xs)) r) \<longleftrightarrow> (if x \<in> set xs then p else loc x) = r)" if r: "listed r" for r
    using lists_ok_list [OF ok' r] lists_ok_iff [OF ok' r] none xs r by (cases "r = p") auto
  then show ?thesis by (simp add: lists_ok_def)
qed

section \<open>The invariant of the caches\<close>

fun head_of :: "caches \<Rightarrow> place \<Rightarrow> addr" where
  "head_of s (Central i) = centralFreeList s i"
| "head_of s (Cache t i) = freeList s t i"
| "head_of s _ = 0"

definition block :: "addr \<Rightarrow> nat \<Rightarrow> addr set" where
  "block x i = {x ..< x + Suc i * 8}"

definition pages :: "addr \<Rightarrow> nat \<Rightarrow> addr set" where
  "pages a n = {a ..< a + n * PAGE_SIZE}"

definition blocks_ok :: "(addr \<Rightarrow> place) \<Rightarrow> (addr \<rightharpoonup> nat) \<Rightarrow> bool" where
  "blocks_ok loc U \<longleftrightarrow>
     (\<forall>x i. cls (loc x) = Some i \<longrightarrow> x \<noteq> 0 \<and> i < 32768 \<and> (\<exists>a n. U a = Some n \<and> block x i \<subseteq> pages a n)) \<and>
     (\<forall>x y i j. cls (loc x) = Some i \<longrightarrow> cls (loc y) = Some j \<longrightarrow> x \<noteq> y \<longrightarrow> block x i \<inter> block y j = {})"

definition caches_ok ::
  "(place \<Rightarrow> addr list) \<Rightarrow> (addr \<Rightarrow> place) \<Rightarrow> (addr \<rightharpoonup> nat) \<Rightarrow> caches \<Rightarrow> bool" where
  "caches_ok L loc U s \<longleftrightarrow> pc_ok (\<lambda>_. []) (ms_pages s) \<and> freeSpans (ms_pages s) = [] \<and>
     holds (\<lambda>_. []) (ms_pages s) U \<and> lists_ok L loc (ms_word s) (head_of s) \<and> blocks_ok loc U"

lemma block_self: "x \<in> block x i"
  by (simp add: block_def)

lemma listed_cls: "listed p \<Longrightarrow> \<exists>i. cls p = Some i"
  by (cases p) auto

lemma blocks_ok_move:
  "(\<And>x. cls (loc' x) = cls (loc x)) \<Longrightarrow> blocks_ok loc' U = blocks_ok loc U"
  by (simp add: blocks_ok_def)

lemma blocks_ok_in: "blocks_ok loc U \<Longrightarrow> cls (loc x) = Some i \<Longrightarrow>
    x \<noteq> 0 \<and> i < 32768 \<and> (\<exists>a n. U a = Some n \<and> block x i \<subseteq> pages a n)"
  by (simp add: blocks_ok_def)

lemma blocks_ok_disjoint: "blocks_ok loc U \<Longrightarrow> cls (loc x) = Some i \<Longrightarrow> cls (loc y) = Some j \<Longrightarrow>
    x \<noteq> y \<Longrightarrow> block x i \<inter> block y j = {}"
  by (simp add: blocks_ok_def)

lemma caches_ok_head: "caches_ok L loc U s \<Longrightarrow> listed p \<Longrightarrow> head_of s p \<noteq> 0 \<Longrightarrow> loc (head_of s p) = p"
  using lists_ok_pop(2) [of L loc "ms_word s" "head_of s" p Nowhere] by (simp add: caches_ok_def)

lemma caches_ok_pop:
  assumes ok: "caches_ok L loc U s" and p: "listed p" "head_of s p = x" "x \<noteq> 0" "cls p = Some i"
    and s': "ms_pages s' = ms_pages s" "head_of s' = (head_of s)(p := ms_word s x)"
      "\<And>y. y \<noteq> x \<Longrightarrow> ms_word s' y = ms_word s y"
  shows "caches_ok (L(p := tl (L p))) (loc(x := Client i)) U s'"
proof -
  have loc: "loc x = p" using caches_ok_head [OF ok p(1)] p by simp
  have l: "lists_ok L loc (ms_word s) (head_of s)" using ok by (simp add: caches_ok_def)
  have "lists_ok (L(p := tl (L p))) (loc(x := Client i)) (ms_word s) ((head_of s)(p := ms_word s x))"
    using lists_ok_pop(1) [OF l p(1), of "Client i"] p(2,3) by simp
  then have "lists_ok (L(p := tl (L p))) (loc(x := Client i)) (ms_word s') (head_of s')"
    unfolding s'(2) by (rule lists_ok_word) (auto intro: s'(3) split: if_splits)
  moreover have "blocks_ok (loc(x := Client i)) U"
    using ok p(4) loc blocks_ok_move [of "loc(x := Client i)" loc U] by (simp add: caches_ok_def)
  ultimately show ?thesis using ok s'(1) by (simp add: caches_ok_def)
qed

section \<open>Fresh spans\<close>

lemma span_pages_pos: "0 < span_pages_for b"
  by (auto simp: span_pages_for_def SPAN_PAGES_def PAGE_SIZE_def)

lemma fetchFromPageCache_ok:
  assumes ok: "caches_ok L loc U s" and n: "n = span_pages_for b"
    and fresh: "fresh_answer (ms_pages s) n new mem" and mem: "mem \<noteq> 0"
  shows "\<exists>s1. fetchFromPageCache mem new b s = Inr (mem, s1) \<and> U mem = None
    \<and> caches_ok L loc (U(mem \<mapsto> n)) s1 \<and> (\<forall>x \<in> pages mem n. ms_word s1 x = 0)
    \<and> (\<forall>x i. cls (loc x) = Some i \<longrightarrow> block x i \<inter> pages mem n = {})
    \<and> head_of s1 = head_of s \<and> freeList s1 = freeList s \<and> freeListSize s1 = freeListSize s
    \<and> centralFreeList s1 = centralFreeList s"
proof -
  have o: "pc_ok (\<lambda>_. []) (ms_pages s)" "freeSpans (ms_pages s) = []" "holds (\<lambda>_. []) (ms_pages s) U"
    "lists_ok L loc (ms_word s) (head_of s)" "blocks_ok loc U" using ok by (simp_all add: caches_ok_def)
  have lb: "lower_bound n (freeSpans (ms_pages s)) = None" using o(2) by simp
  have n0: "0 < n" using n span_pages_pos by simp
  from allocateSpan_system [OF o(1,3) n0 fresh lb mem] obtain pc where pc:
    "allocateSpan (\<lambda>_. mem) new n (ms_pages s) = Inr (mem, pc)" "U mem = None"
    "pc_ok (\<lambda>_. []) pc" "holds (\<lambda>_. []) pc (U(mem \<mapsto> n))" by blast
  have free: "freeSpans pc = []"
    using pc(1) lb o(2) mem by (auto simp: allocateSpan_def systemAlloc_def Let_def)
  define s1 where "s1 = s\<lparr>ms_pages := pc, ms_word := zero_region mem (n * PAGE_SIZE) (ms_word s)\<rparr>"
  have run: "fetchFromPageCache mem new b s = Inr (mem, s1)"
    using pc(1) lb mem n by (simp add: fetchFromPageCache_def Let_def s1_def)
  have apart: "block x i \<inter> pages mem n = {}" if x: "cls (loc x) = Some i" for x i
  proof -
    obtain a m where a: "U a = Some m" "block x i \<subseteq> pages a m" using blocks_ok_in [OF o(5) x] by blast
    then obtain t tp where t: "pc_heap (ms_pages s) t = Some tp" "pageAddr tp = a" "numPages tp = m"
      using holds_at [OF o(3)] by blast
    have "region \<lparr>pageAddr = mem, numPages = n, sp_next = 0\<rparr> \<inter> region tp = {}"
      using fresh mem t(1) by (auto simp: fresh_answer_def)
    with a t show ?thesis by (auto simp: region_def pages_def)
  qed
  have heads: "head_of s1 = head_of s"
  proof
    show "head_of s1 p = head_of s p" for p by (cases p) (simp_all add: s1_def)
  qed
  have "ms_word s1 x = ms_word s x" if "listed (loc x)" for x
  proof -
    from that obtain i where "cls (loc x) = Some i" using listed_cls by blast
    then have "x \<notin> pages mem n" using apart block_self by blast
    then show ?thesis by (auto simp: s1_def zero_region_def pages_def)
  qed
  then have "lists_ok L loc (ms_word s1) (head_of s1)" unfolding heads by (rule lists_ok_word [OF o(4)])
  moreover have "blocks_ok loc (U(mem \<mapsto> n))"
    unfolding blocks_ok_def
  proof (intro conjI allI impI)
    fix x i assume x: "cls (loc x) = Some i"
    from blocks_ok_in [OF o(5) x] pc(2) show "x \<noteq> 0" "i < 32768"
      "\<exists>a m. (U(mem \<mapsto> n)) a = Some m \<and> block x i \<subseteq> pages a m"
      by (metis (no_types) fun_upd_other option.distinct(1))+
  qed (use blocks_ok_disjoint [OF o(5)] in blast)
  ultimately have "caches_ok L loc (U(mem \<mapsto> n)) s1" using pc free by (simp add: caches_ok_def s1_def)
  moreover have "\<forall>x \<in> pages mem n. ms_word s1 x = 0" by (simp add: s1_def zero_region_def pages_def)
  ultimately show ?thesis using run pc(2) apart heads by (simp add: s1_def)
qed

subsection \<open>Cutting a span into blocks\<close>

lemma carve_links_at:
  "0 < b \<Longrightarrow> carve_links p b n w a = (if \<exists>k. Suc k < n \<and> a = p + k * b then a + b else w a)"
proof (induction n)
  case 0
  then show ?case by (simp add: carve_links_def)
next
  case (Suc n)
  show ?case
  proof (cases n)
    case 0
    then show ?thesis by (simp add: carve_links_def)
  next
    case (Suc m)
    have "carve_links p b (Suc n) w = (carve_links p b n w)(p + m * b := p + n * b)"
      using Suc by (simp add: carve_links_def)
    moreover have "(\<exists>k. Suc k < Suc n \<and> a = p + k * b) \<longleftrightarrow> a = p + m * b \<or> (\<exists>k. Suc k < n \<and> a = p + k * b)"
      using Suc by (metis Suc_less_eq less_Suc_eq)
    ultimately show ?thesis using Suc.IH [OF Suc.prems] Suc by auto
  qed
qed

lemma hlist_map:
  assumes "\<And>k. k < n \<Longrightarrow> f k \<noteq> 0 \<and> w (f k) = f (Suc k)" and "f n = 0" and "j \<le> n"
  shows "hlist w (f j) (map f [j..<n])"
  using assms(3)
proof (induction "n - j" arbitrary: j)
  case 0
  then show ?case using assms(2) by simp
next
  case (Suc d)
  then have "j < n" "hlist w (f (Suc j)) (map f [Suc j..<n])" by simp_all
  then show ?case using assms(1) [of j] by (simp add: upt_conv_Cons)
qed

lemma carve_list:
  fixes p b n :: nat and w :: "addr \<Rightarrow> addr"
  assumes "0 < b" and "0 < p" and "1 < n"
  defines "w1 \<equiv> (carve_links p b n w)(p + (n - 1) * b := 0)"
  shows "w1 p = p + b" and "hlist (w1(p := 0)) (p + b) (map (\<lambda>k. p + k * b) [1..<n])"
    and "\<And>a. (\<forall>k < n. a \<noteq> p + k * b) \<Longrightarrow> w1 a = w a"
proof -
  let ?f = "\<lambda>k. if k < n then p + k * b else 0"
  have w1: "w1 a = (if a = p + (n - 1) * b then 0 else if \<exists>k. Suc k < n \<and> a = p + k * b then a + b else w a)" for a
    using carve_links_at [OF assms(1), of p n w a] by (simp add: w1_def)
  show "w1 p = p + b" using assms(1,3) by (auto simp: w1 intro!: exI [of _ 0])
  have step: "?f k \<noteq> 0 \<and> w1 (?f k) = ?f (Suc k)" if "k < n" for k
  proof (cases "Suc k < n")
    case True
    then have "p + k * b \<noteq> p + (n - 1) * b" using assms(1) by simp
    with True assms(2) show ?thesis by (auto simp: w1)
  next
    case False
    with that have "k = n - 1" by simp
    with assms(2) that show ?thesis by (simp add: w1)
  qed
  have "hlist w1 (?f 1) (map ?f [1..<n])" using assms(3) by (intro hlist_map [where f = ?f, OF step]) simp_all
  moreover have "map ?f [1..<n] = map (\<lambda>k. p + k * b) [1..<n]" by simp
  moreover have "?f 1 = p + b" using assms(3) by simp
  ultimately have "hlist w1 (p + b) (map (\<lambda>k. p + k * b) [1..<n])" by (simp only:)
  moreover have "p \<notin> set (map (\<lambda>k. p + k * b) [1..<n])" using assms(1) by auto
  ultimately show "hlist (w1(p := 0)) (p + b) (map (\<lambda>k. p + k * b) [1..<n])" by simp
  show "w1 a = w a" if "\<forall>k < n. a \<noteq> p + k * b" for a
  proof -
    have "a \<noteq> p + (n - 1) * b" using that assms(3) by (metis diff_less less_trans zero_less_one)
    moreover have "\<not> (\<exists>k. Suc k < n \<and> a = p + k * b)" using that Suc_lessD by blast
    ultimately show ?thesis by (simp only: w1 if_False)
  qed
qed

lemma span_bytes:
  assumes "n = span_pages_for b" and "0 < b"
  shows "b \<le> n * PAGE_SIZE" and "n * PAGE_SIZE < b + SPAN_PAGES * PAGE_SIZE + PAGE_SIZE"
    and "1 < (SPAN_PAGES * PAGE_SIZE) div b \<Longrightarrow> n = SPAN_PAGES"
proof -
  have "b \<le> (b + 4095) div 4096 * 4096" "(b + 4095) div 4096 * 4096 \<le> b + 4095"
    by (simp_all add: div_times_less_eq_dividend) arith?
  with assms(1) show "b \<le> n * PAGE_SIZE" "n * PAGE_SIZE < b + SPAN_PAGES * PAGE_SIZE + PAGE_SIZE"
    by (auto simp: span_pages_for_def SPAN_PAGES_def PAGE_SIZE_def)
  assume "1 < (SPAN_PAGES * PAGE_SIZE) div b"
  then have "b \<le> SPAN_PAGES * PAGE_SIZE" using div_less [of "SPAN_PAGES * PAGE_SIZE" b] by (cases "SPAN_PAGES * PAGE_SIZE < b") auto
  with assms(1) show "n = SPAN_PAGES" by (simp add: span_pages_for_def)
qed

lemma block_apart:
  assumes "b = Suc i * 8" and "j \<noteq> k"
  shows "block (p + j * b) i \<inter> block (p + k * b) i = {}"
proof -
  have "p + j * b + b \<le> p + k * b \<or> p + k * b + b \<le> p + j * b"
    using assms(2) mult_le_mono1 [of "Suc j" k b] mult_le_mono1 [of "Suc k" j b] by (cases "j < k") auto
  then show ?thesis using assms(1) by (auto simp: block_def)
qed

lemma blocks_ok_new:
  assumes ok: "blocks_ok loc U" and apart: "\<And>x i. cls (loc x) = Some i \<Longrightarrow> block x i \<inter> pages a n = {}"
    and a: "U a = Some n" "a \<noteq> 0" and b: "b = Suc i * 8" "i < 32768" "m * b \<le> n * PAGE_SIZE"
    and loc': "\<And>x. cls (loc' x) = (if \<exists>k < m. x = a + k * b then Some i else cls (loc x))"
  shows "blocks_ok loc' U"
proof -
  have inside: "block (a + k * b) i \<subseteq> pages a n" if "k < m" for k
  proof -
    have "Suc k * b \<le> m * b" using that by (intro mult_le_mono1) simp
    with b show ?thesis by (auto simp: block_def pages_def)
  qed
  have "x \<noteq> 0 \<and> j < 32768 \<and> (\<exists>a n. U a = Some n \<and> block x j \<subseteq> pages a n)" if "cls (loc' x) = Some j" for x j
    using that inside a b(2) blocks_ok_in [OF ok, of x j] unfolding loc' by (auto split: if_splits)
  moreover have "block x j \<inter> block y l = {}" if "cls (loc' x) = Some j" "cls (loc' y) = Some l" "x \<noteq> y" for x y j l
  proof (cases "(\<exists>k < m. x = a + k * b) \<or> (\<exists>k < m. y = a + k * b)")
    case False
    then have "cls (loc x) = Some j" "cls (loc y) = Some l" using that(1,2) unfolding loc' by (simp_all only: if_False de_Morgan_disj)
    with blocks_ok_disjoint [OF ok] that(3) show ?thesis by blast
  next
    case True
    show ?thesis
    proof (cases "(\<exists>k < m. x = a + k * b) \<and> (\<exists>k < m. y = a + k * b)")
      case True
      with that block_apart [OF b(1)] show ?thesis unfolding loc' by (metis option.inject)
    next
      case False
      with True that inside apart show ?thesis unfolding loc' by (auto split: if_splits) blast+
    qed
  qed
  ultimately show ?thesis unfolding blocks_ok_def by blast
qed

section \<open>Operations of the central cache\<close>

text \<open>What an allocation step does to the places: one block of class \<open>i\<close> goes to the client.\<close>

definition hands_out :: "nat \<Rightarrow> addr \<Rightarrow> (addr \<Rightarrow> place) \<Rightarrow> (addr \<Rightarrow> place) \<Rightarrow> bool" where
  "hands_out i r loc loc' \<longleftrightarrow> r \<noteq> 0 \<and> loc' r = Client i \<and> (\<forall>j. loc r \<noteq> Client j) \<and>
     (\<forall>x j. x \<noteq> r \<longrightarrow> (loc' x = Client j \<longleftrightarrow> loc x = Client j)) \<and>
     (\<forall>x j. cls (loc x) = Some j \<longrightarrow> cls (loc' x) = Some j)"

lemma fetchRange_hit:
  assumes ok: "caches_ok L loc U s" and i: "i < 32768" and hit: "centralFreeList s i \<noteq> 0"
  shows "\<exists>r s' L' loc'. fetchRange mem new i s = Inr (r, s') \<and> hands_out i r loc loc' \<and> caches_ok L' loc' U s'
    \<and> ms_word s' r = 0 \<and> freeList s' = freeList s \<and> freeListSize s' = freeListSize s"
proof -
  let ?r = "centralFreeList s i"
  let ?s = "s\<lparr>ms_word := (ms_word s)(?r := 0), centralFreeList := (centralFreeList s)(i := ms_word s ?r)\<rparr>"
  have heads: "head_of ?s = (head_of s)(Central i := ms_word s ?r)"
  proof
    show "head_of ?s p = ((head_of s)(Central i := ms_word s ?r)) p" for p by (cases p) simp_all
  qed
  have "caches_ok (L(Central i := tl (L (Central i)))) (loc(?r := Client i)) U ?s"
    using hit heads by (intro caches_ok_pop [OF ok, where p = "Central i"]) simp_all
  moreover have "loc ?r = Central i" using caches_ok_head [OF ok, of "Central i"] hit by simp
  then have "hands_out i ?r loc (loc(?r := Client i))" using hit by (simp add: hands_out_def)
  moreover have "fetchRange mem new i s = Inr (?r, ?s)"
    using i hit by (simp add: fetchRange_def unat_FREE_LIST_SIZE Let_def)
  ultimately show ?thesis by fastforce
qed

lemma fetchRange_miss:
  assumes ok: "caches_ok L loc U s" and i: "i < 32768" and miss: "centralFreeList s i = 0"
    and n: "n = span_pages_for (Suc i * 8)" and fresh: "fresh_answer (ms_pages s) n new mem" and mem: "mem \<noteq> 0"
  shows "\<exists>s' L' loc' U'. fetchRange mem new i s = Inr (mem, s') \<and> hands_out i mem loc loc' \<and> caches_ok L' loc' U' s'
    \<and> ms_word s' mem = 0 \<and> freeList s' = freeList s \<and> freeListSize s' = freeListSize s"
proof -
  let ?b = "Suc i * 8" and ?m = "(SPAN_PAGES * PAGE_SIZE) div (Suc i * 8)" and ?U = "U(mem \<mapsto> n)"
  from fetchFromPageCache_ok [OF ok n fresh mem] obtain s1 where s1:
    "fetchFromPageCache mem new ?b s = Inr (mem, s1)" "U mem = None" "caches_ok L loc ?U s1"
    "\<forall>x \<in> pages mem n. ms_word s1 x = 0" "\<And>x j. cls (loc x) = Some j \<Longrightarrow> block x j \<inter> pages mem n = {}"
    "head_of s1 = head_of s" "freeList s1 = freeList s" "freeListSize s1 = freeListSize s"
    "centralFreeList s1 = centralFreeList s" by blast
  have o: "lists_ok L loc (ms_word s1) (head_of s1)" "blocks_ok loc U" "blocks_ok loc ?U"
    using ok s1(3) by (simp_all add: caches_ok_def)
  have b: "0 < ?b" "?b \<le> n * PAGE_SIZE" using span_bytes [OF n] by simp_all
  have fresh_at: "cls (loc x) = None" if "x \<in> pages mem n" for x
    using that s1(5) [of x] block_self by (cases "cls (loc x)") blast+
  show ?thesis
  proof (cases "1 < ?m")
    case False
    have "0 < n * PAGE_SIZE" using b by linarith
    then have mem_in: "mem \<in> pages mem n" by (simp add: pages_def)
    have nl: "loc mem = Nowhere" using fresh_at [OF mem_in] by (cases "loc mem") auto
    have "fetchRange mem new i s = Inr (mem, s1)"
      using i miss mem s1(1) False by (simp add: fetchRange_def unat_FREE_LIST_SIZE Let_def)
    moreover have "lists_ok L (loc(mem := Client i)) (ms_word s1) (head_of s1)"
      using o(1) nl unfolding lists_ok_def by auto
    moreover have "blocks_ok (loc(mem := Client i)) ?U"
      by (rule blocks_ok_new [OF o(3), of mem n ?b i 1]) (use s1 mem b i in auto)
    moreover have "hands_out i mem loc (loc(mem := Client i))" using mem nl by (auto simp: hands_out_def)
    ultimately show ?thesis using s1 mem_in by (fastforce simp: caches_ok_def)
  next
    case True
    then have n8: "n = SPAN_PAGES" using span_bytes(3) [OF n] by simp
    have fit: "?m * ?b \<le> n * PAGE_SIZE" using n8 by (simp add: div_times_less_eq_dividend)
    let ?xs = "map (\<lambda>k. mem + k * ?b) [1..<?m]"
    let ?w = "(carve_links mem ?b ?m (ms_word s1))(mem + (?m - 1) * ?b := 0)"
    have p0: "0 < mem" using mem by simp
    note carve = carve_list [OF b(1) p0 True, where w = "ms_word s1"]
    have in_pages: "mem + k * ?b \<in> pages mem n" if "k < ?m" for k
    proof -
      have "k * ?b < ?m * ?b" using that b(1) by (intro mult_strict_right_mono) simp_all
      then have "k * ?b < n * PAGE_SIZE" using fit by (rule less_le_trans)
      then show ?thesis unfolding pages_def by simp
    qed
    have xs: "set ?xs \<subseteq> pages mem n" using in_pages by auto
    have mem_in: "mem \<in> pages mem n" using in_pages [of 0] True by simp
    define s2 where "s2 = s1\<lparr>ms_word := ?w(mem := 0), centralFreeList := (centralFreeList s1)(i := ?w mem)\<rparr>"
    define loc2 where "loc2 = (\<lambda>x. if x \<in> set ?xs then Central i else loc x)"
    have run: "fetchRange mem new i s = Inr (mem, s2)"
      using i miss mem s1(1) True by (simp add: fetchRange_def unat_FREE_LIST_SIZE Let_def s2_def)
    have heads: "head_of s2 = (head_of s1)(Central i := mem + ?b)"
    proof
      show "head_of s2 p = ((head_of s1)(Central i := mem + ?b)) p" for p
        using carve(1) by (cases p) (simp_all add: s2_def)
    qed
    have unlisted: "\<not> listed (loc x)" if "x \<in> pages mem n" for x
      using fresh_at [OF that] listed_cls [of "loc x"] by auto
    have same: "ms_word s2 x = ms_word s1 x" if "listed (loc x)" for x
    proof -
      have "x \<notin> pages mem n" using unlisted that by blast
      then have "x \<noteq> mem" "\<forall>k < ?m. x \<noteq> mem + k * ?b" using mem_in in_pages by blast+
      with carve(3) show ?thesis by (simp add: s2_def)
    qed
    have "lists_ok (L(Central i := ?xs)) loc2 (ms_word s2) (head_of s2)"
      unfolding heads loc2_def
    proof (rule lists_ok_carve [OF o(1)])
      show "head_of s1 (Central i) = 0" using miss s1(9) by simp
      show "hlist (ms_word s2) (mem + ?b) ?xs" using carve(2) by (simp add: s2_def)
    qed (use unlisted xs same in auto)
    moreover have mem_not: "mem \<notin> set ?xs" using b(1) by auto
    have nl: "loc mem = Nowhere" using fresh_at [OF mem_in] by (cases "loc mem") auto
    ultimately have "lists_ok (L(Central i := ?xs)) (loc2(mem := Client i)) (ms_word s2) (head_of s2)"
      unfolding lists_ok_def by (auto simp: loc2_def)
    moreover have "blocks_ok (loc2(mem := Client i)) ?U"
    proof (rule blocks_ok_new [OF o(3), of mem n ?b i ?m])
      fix x
      have "(\<exists>k < ?m. x = mem + k * ?b) \<longleftrightarrow> x = mem \<or> x \<in> set ?xs"
        using True by (auto simp: image_iff)
      then show "cls ((loc2(mem := Client i)) x) = (if \<exists>k < ?m. x = mem + k * ?b then Some i else cls (loc x))"
        by (simp add: loc2_def)
    qed (use s1 mem fit i in auto)
    moreover have "hands_out i mem loc (loc2(mem := Client i))"
    proof -
      have place: "loc x = Nowhere" if "x \<in> set ?xs" for x
        using fresh_at [of x] xs that by (cases "loc x") auto
      have "(loc2(mem := Client i)) x = Client j \<longleftrightarrow> loc x = Client j" if "x \<noteq> mem" for x j
      proof -
        have "loc2 x = (if x \<in> set ?xs then Central i else loc x)" by (simp only: loc2_def)
        with place [of x] have "loc2 x = Client j \<longleftrightarrow> loc x = Client j" by (metis place.simps)
        with that show ?thesis by simp
      qed
      moreover have "cls ((loc2(mem := Client i)) x) = Some j" if "cls (loc x) = Some j" for x j
        using that place [of x] nl by (cases "x \<in> set ?xs"; cases "x = mem") (simp_all add: loc2_def)
      ultimately show ?thesis using mem nl by (simp add: hands_out_def)
    qed
    ultimately show ?thesis using run s1 by (fastforce simp: caches_ok_def s2_def)
  qed
qed

section \<open>Operations of a thread's cache\<close>

text \<open>An allocation and what it may be answered with.\<close>

lemma head_of_update:
  "head_of (s\<lparr>freeListSize := z\<rparr>) = head_of s" "head_of (s\<lparr>ms_word := w\<rparr>) = head_of s"
  "freeList s = f \<Longrightarrow> head_of (s\<lparr>freeList := f(t := (f t)(i := v))\<rparr>) = (head_of s)(Cache t i := v)"
  "centralFreeList s = g \<Longrightarrow> head_of (s\<lparr>centralFreeList := g(i := v)\<rparr>) = (head_of s)(Central i := v)"
  by (rule ext, rename_tac p, case_tac p; auto)+

lemma caches_ok_fsize [simp]: "caches_ok L loc U (s\<lparr>freeListSize := z\<rparr>) = caches_ok L loc U s"
  by (simp add: caches_ok_def head_of_update)

lemma fetch_central_ok:
  assumes ok: "caches_ok L loc U s" and i: "i < 32768" and empty: "freeList s t i = 0"
    and fresh: "fresh_answer (ms_pages s) (span_pages_for (Suc i * 8)) new mem" and fuel: "2 \<le> fuel"
  shows "\<exists>r s' L' loc' U'. fetchFromCentralCache fuel mem new t i s = Inr (r, s') \<and> caches_ok L' loc' U' s'
    \<and> (if r = 0 then loc' = loc else hands_out i r loc loc')"
proof -
  have take: "\<exists>s' L' loc' U'. fetchFromCentralCache fuel mem new t i s = Inr (r, s') \<and> caches_ok L' loc' U' s'
      \<and> hands_out i r loc loc'"
    if f: "fetchRange mem new i s = Inr (r, s1)" "hands_out i r loc loc1" "caches_ok L1 loc1 U1 s1"
      "ms_word s1 r = 0" "freeList s1 = freeList s" for r s1 L1 loc1 U1
  proof -
    obtain f' where fuel': "fuel = Suc (Suc f')" using fuel by (metis Suc_le_D numeral_2_eq_2 add_2_eq_Suc le_Suc_ex)
    have r: "r \<noteq> 0" using f(2) by (simp add: hands_out_def)
    have "set_free t i 0 s1 = s1" using f(5) empty by (simp add: fun_upd_idem)
    then have "fetchFromCentralCache fuel mem new t i s
        = Inr (r, set_fsize t i (sz_add (freeListSize s1 t i) 1) s1)"
      using f(1,4) r by (simp add: fetchFromCentralCache_def fuel')
    with f(2,3) show ?thesis by fastforce
  qed
  show ?thesis
  proof (cases "centralFreeList s i = 0")
    case False
    from fetchRange_hit [OF ok i False, of mem new] obtain r s1 L1 loc1 where
      "fetchRange mem new i s = Inr (r, s1)" "hands_out i r loc loc1" "caches_ok L1 loc1 U s1"
      "ms_word s1 r = 0" "freeList s1 = freeList s" by blast
    from take [OF this] this(2) show ?thesis by (metis hands_out_def)
  next
    case True
    show ?thesis
    proof (cases "mem = 0")
      case False
      from fetchRange_miss [OF ok i True refl fresh False] obtain s1 L1 loc1 U1 where
        "fetchRange mem new i s = Inr (mem, s1)" "hands_out i mem loc loc1" "caches_ok L1 loc1 U1 s1"
        "ms_word s1 mem = 0" "freeList s1 = freeList s" by blast
      from take [OF this] this(2) show ?thesis by (metis hands_out_def)
    next
      case mem: True
      have "freeSpans (ms_pages s) = []" using ok by (simp add: caches_ok_def)
      then have "fetchRange mem new i s = Inr (0, s)"
        using i True mem by (simp add: fetchRange_def unat_FREE_LIST_SIZE Let_def fetchFromPageCache_def
            allocateSpan_def systemAlloc_def)
      then have "fetchFromCentralCache fuel mem new t i s = Inr (0, s)" by (simp add: fetchFromCentralCache_def)
      with ok show ?thesis by fastforce
    qed
  qed
qed

definition class_of :: "64 word \<Rightarrow> nat" where
  "class_of b = unat (getIndex (if b = 0 then ALIGNMENT else b))"

lemma class_of_less: "b \<le> MAX_BYTES \<Longrightarrow> class_of b < 32768"
  using size_class_fits(1) [of b] size_class_fits(1) [of ALIGNMENT]
  by (auto simp: class_of_def ALIGNMENT_def MAX_BYTES_def)

lemma class_of_getIndex: "class_of b = unat (getIndex b)"
  by (simp add: class_of_def getIndex_def ALIGNMENT_def)

lemma tc_allocate_ok:
  assumes ok: "caches_ok L loc U s" and b: "b \<le> MAX_BYTES"
    and fresh: "fresh_answer (ms_pages s) (span_pages_for (Suc (class_of b) * 8)) new mem" and fuel: "2 \<le> fuel"
  shows "\<exists>r s' L' loc' U'. tc_allocate fuel big mem new t b s = Inr (r, s') \<and> caches_ok L' loc' U' s'
    \<and> (if r = 0 then loc' = loc else hands_out (class_of b) r loc loc')"
proof -
  let ?i = "class_of b" and ?p = "freeList s t (class_of b)"
  let ?s = "set_fsize t ?i (sz_sub (freeListSize s t ?i) 1) s"
  have small: "\<not> MAX_BYTES < (if b = 0 then ALIGNMENT else b)"
    using b by (auto simp: ALIGNMENT_def MAX_BYTES_def not_less)
  show ?thesis
  proof (cases "?p = 0")
    case True
    then have run: "tc_allocate fuel big mem new t b s = fetchFromCentralCache fuel mem new t ?i ?s"
      using small by (simp add: tc_allocate_def Let_def class_of_def)
    have "caches_ok L loc U ?s" using ok by simp
    from fetch_central_ok [OF this class_of_less [OF b], of t new mem fuel] True fresh fuel show ?thesis
      unfolding run by simp
  next
    case False
    let ?s' = "set_free t ?i (ms_word s ?p) ?s"
    have run: "tc_allocate fuel big mem new t b s = Inr (?p, ?s')"
      using small False by (simp add: tc_allocate_def Let_def class_of_def)
    have "caches_ok (L(Cache t ?i := tl (L (Cache t ?i)))) (loc(?p := Client ?i)) U ?s'"
      using False by (intro caches_ok_pop [OF ok, where p = "Cache t ?i"]) (simp_all add: head_of_update)
    moreover have "loc ?p = Cache t ?i" using caches_ok_head [OF ok, of "Cache t ?i"] False by simp
    then have "hands_out ?i ?p loc (loc(?p := Client ?i))" using False by (simp add: hands_out_def)
    ultimately show ?thesis using run False by fastforce
  qed
qed

lemma split_node_nth:
  "hlist w p as \<Longrightarrow> p \<noteq> 0 \<Longrightarrow> split_node w k p = (if k < length as then as ! k else 0)"
proof (induction k arbitrary: p as)
  case 0
  then show ?case by (cases as) auto
next
  case (Suc k)
  then obtain bs where "as = p # bs" "hlist w (w p) bs" by (metis hlist_nonnull)
  with Suc.IH [of "w p" bs] show ?case by (cases "w p = 0") auto
qed

lemma chain_end_last:
  "hlist w p as \<Longrightarrow> p \<noteq> 0 \<Longrightarrow> chain_end w k p = last (take (Suc k) as)"
proof (induction k arbitrary: p as)
  case 0
  then show ?case by (cases as) auto
next
  case (Suc k)
  then obtain bs where bs: "as = p # bs" "hlist w (w p) bs" by (metis hlist_nonnull)
  show ?case
  proof (cases "w p = 0")
    case True
    with bs show ?thesis by simp
  next
    case False
    with bs Suc.IH [OF bs(2)] show ?thesis by (cases bs) auto
  qed
qed

text \<open>
  What \<open>returnToCentralCache\<close> does to a list of \<open>n\<close> blocks when the counter says \<open>c\<close>: it keeps the
  first \<open>c div 4 + 1\<close>, gives the next ones to the central list, and cuts off those that lie more than
  \<open>(c - c div 4) * bytes\<close> further down.
\<close>

lemma returnToCentralCache_lists:
  assumes lo: "lists_ok L loc (ms_word s) (head_of s)"
    and i: "i = unat (getIndex b)" "i < 32768" and c: "1 < freeListSize s t i"
    and k: "k = max (freeListSize s t i div 4) 1" and len: "Suc k < length (L (Cache t i))"
    and m: "m = sz_mul (freeListSize s t i - k) (unat (SizeClass_ceil b)) - 1"
  defines "ys \<equiv> drop (Suc k) (L (Cache t i))"
    and "s' \<equiv> returnToCentralCache t (freeList s t i) b s"
  shows "lists_ok (L(Cache t i := take (Suc k) (L (Cache t i)), Central i := take (Suc m) ys @ L (Central i)))
     (\<lambda>x. if x \<in> set (take (Suc m) ys) then Central i else if x \<in> set (drop (Suc m) ys) then Lost i else loc x)
     (ms_word s') (head_of s')"
    and "freeListSize s' t i = k" and "ms_pages s' = ms_pages s"
proof -
  let ?p = "Cache t i" and ?q = "Central i" and ?w = "ms_word s" and ?c = "freeListSize s t i"
  let ?xs = "take (Suc k) (L ?p)" and ?ys = "take (Suc m) ys" and ?zs = "drop (Suc m) ys"
  have list: "hlist ?w (freeList s t i) (L ?p)" using lists_ok_list [OF lo, of ?p] by simp
  have p0: "freeList s t i \<noteq> 0"
  proof
    assume "freeList s t i = 0"
    with list len show False by simp
  qed
  have node: "split_node ?w k (freeList s t i) = last ?xs"
    using split_node_nth [OF list p0, of k] len by (simp add: take_Suc_conv_app_nth)
  have parts: "L ?p = ?xs @ ?ys @ ?zs" by (simp only: ys_def append_take_drop_id)
  have ne: "?xs \<noteq> []" "?ys \<noteq> []" "ys \<noteq> []" using len by (auto simp: ys_def)
  obtain n where n: "hpath ?w (freeList s t i) ?xs n" "hlist ?w n ys"
    using list parts by (metis append_take_drop_id hpath_append)
  have n_hd: "n = hd ys" "n \<noteq> 0" using n(2) ne(3) by (cases ys; auto)+
  have next_node: "?w (last ?xs) = n"
    using n(1) ne(1) by (metis append_butlast_last_id hpath.simps hpath_append)
  have last_in: "last ?xs \<in> set ?xs" using ne(1) last_in_set by blast
  have last0: "last ?xs \<noteq> 0" using hpath_nonzero [OF n(1)] last_in by metis
  have "last ?xs \<notin> set ys"
    using hlist_distinct [OF list] last_in unfolding ys_def by (metis append_take_drop_id disjoint_iff distinct_append)
  then have "hlist (?w(last ?xs := 0)) n ys" using n(2) by simp
  then have chain: "chain_end (?w(last ?xs := 0)) m n = last ?ys" using chain_end_last n_hd(2) by blast
  have ret: "0 < ?c - k" using c k by auto
  have hdy: "hd ?ys = n" using n_hd ne(3) by simp
  let ?s1 = "set_fsize t i k (s\<lparr>ms_word := ?w(last ?xs := 0)\<rparr>)"
  let ?s2 = "?s1\<lparr>ms_word := (?w(last ?xs := 0))(last ?ys := centralFreeList s i),
                centralFreeList := (centralFreeList s)(i := n)\<rparr>"
  have not_few: "\<not> ?c \<le> 1" "\<not> (n = 0 \<or> 32768 \<le> i)" using c n_hd(2) i(2) by simp_all
  have range: "returnRange n (sz_mul (?c - k) (unat (SizeClass_ceil b))) i ?s1 = ?s2"
    unfolding returnRange_def unat_FREE_LIST_SIZE m [symmetric] if_not_P [OF not_few(2)] Let_def
    by (simp add: chain)
  have run: "returnToCentralCache t (freeList s t i) b s = ?s2"
    unfolding returnToCentralCache_def Let_def i(1) [symmetric] k [symmetric] if_not_P [OF not_few(1)]
      node next_node if_P [OF last0] using ret n_hd(2) range by simp
  have heads: "head_of ?s2 = (head_of s)(?q := hd ?ys)" unfolding hdy by (simp add: head_of_update)
  have w: "ms_word ?s2 = ?w(last ?xs := 0, last ?ys := head_of s ?q)" by simp
  have "lists_ok (L(?p := ?xs, ?q := ?ys @ L ?q))
     (\<lambda>x. if x \<in> set ?ys then ?q else if x \<in> set ?zs then Lost i else loc x) (ms_word ?s2) (head_of ?s2)"
    unfolding heads w by (rule lists_ok_transfer [OF lo _ _ _ parts ne(1,2)]) simp_all
  then show "lists_ok (L(?p := ?xs, ?q := ?ys @ L ?q))
     (\<lambda>x. if x \<in> set ?ys then ?q else if x \<in> set ?zs then Lost i else loc x) (ms_word s') (head_of s')"
    by (simp only: s'_def run)
  show "freeListSize s' t i = k" "ms_pages s' = ms_pages s" by (simp_all add: s'_def run)
qed

lemma returnToCentralCache_cut:
  assumes ok: "caches_ok L loc U s" and i: "i = unat (getIndex b)" "i < 32768" and c: "1 < freeListSize s t i"
    and k: "k = max (freeListSize s t i div 4) 1" and len: "Suc k < length (L (Cache t i))"
  shows "\<exists>L' loc'. caches_ok L' loc' U (returnToCentralCache t (freeList s t i) b s)
    \<and> (\<forall>x j. loc' x = Client j \<longleftrightarrow> loc x = Client j)"
proof -
  define m where "m = sz_mul (freeListSize s t i - k) (unat (SizeClass_ceil b)) - 1"
  define ys where "ys = drop (Suc k) (L (Cache t i))"
  define loc' where "loc' = (\<lambda>x. if x \<in> set (take (Suc m) ys) then Central i
      else if x \<in> set (drop (Suc m) ys) then Lost i else loc x)"
  have lo: "lists_ok L loc (ms_word s) (head_of s)" and bo: "blocks_ok loc U"
    using ok by (simp_all add: caches_ok_def)
  note r = returnToCentralCache_lists [OF lo i c k len m_def, folded ys_def, folded loc'_def]
  have ys: "loc x = Cache t i" if "x \<in> set ys" for x
    using lists_ok_iff [OF lo, of "Cache t i" x] that by (auto simp: ys_def dest: in_set_dropD)
  have at: "loc' x = loc x \<or> loc x = Cache t i \<and> (loc' x = Central i \<or> loc' x = Lost i)" for x
    using ys [of x] by (auto simp: loc'_def dest: in_set_takeD in_set_dropD)
  then have "cls (loc' x) = cls (loc x)" for x by (metis cls.simps(2,3,5))
  then have "blocks_ok loc' U" using blocks_ok_move [of loc' loc U] bo by simp
  moreover have "loc' x = Client j \<longleftrightarrow> loc x = Client j" for x j
    using at [of x] by auto
  ultimately show ?thesis using ok r(1,3) by (fastforce simp: caches_ok_def)
qed

lemma returnToCentralCache_ok:
  assumes ok: "caches_ok L loc U s" and i: "i = unat (getIndex b)" "i < 32768" and start: "freeList s t i \<noteq> 0"
  shows "\<exists>L' loc'. caches_ok L' loc' U (returnToCentralCache t (freeList s t i) b s)
    \<and> (\<forall>x j. loc' x = Client j \<longleftrightarrow> loc x = Client j)"
proof -
  let ?w = "ms_word s" and ?c = "freeListSize s t i" and ?p = "Cache t i"
  define k where "k = max (?c div 4) 1"
  have lo: "lists_ok L loc ?w (head_of s)" using ok by (simp add: caches_ok_def)
  have list: "hlist ?w (freeList s t i) (L ?p)" using lists_ok_list [OF lo, of ?p] by simp
  consider (few) "?c \<le> 1" | (short) "1 < ?c" "length (L ?p) \<le> k" | (exact) "1 < ?c" "length (L ?p) = Suc k"
    | (cut) "1 < ?c" "Suc k < length (L ?p)" by linarith
  then show ?thesis
  proof cases
    case few
    then have "returnToCentralCache t (freeList s t i) b s = s"
      by (simp add: returnToCentralCache_def Let_def i(1) [symmetric])
    with ok show ?thesis by metis
  next
    case short
    have "split_node ?w k (freeList s t i) = 0"
      using split_node_nth [OF list start] short by simp
    then have "returnToCentralCache t (freeList s t i) b s = s"
      by (simp add: returnToCentralCache_def Let_def i(1) [symmetric] k_def)
    with ok show ?thesis by metis
  next
    case exact
    note p0 = start
    have xs: "L ?p ! k \<in> set (L ?p)" "L ?p \<noteq> []" using exact by auto
    have node: "split_node ?w k (freeList s t i) = L ?p ! k"
      using split_node_nth [OF list p0, of k] exact by simp
    have last: "L ?p ! k = last (L ?p)" using exact by (simp add: last_conv_nth xs(2))
    have node0: "L ?p ! k \<noteq> 0" using hpath_nonzero [OF list] xs(1) by metis
    have "?w (last (L ?p)) = 0"
      using list xs(2) by (metis append_butlast_last_id hpath.simps hpath_append)
    then have "returnToCentralCache t (freeList s t i) b s = set_fsize t i k s"
      using exact node node0 last
      by (simp add: returnToCentralCache_def Let_def i(1) [symmetric] k_def fun_upd_idem)
    with ok show ?thesis by (metis caches_ok_fsize)
  next
    case cut
    from returnToCentralCache_cut [OF ok i cut(1) k_def cut(2)] show ?thesis .
  qed
qed

lemma tc_deallocate_ok:
  assumes ok: "caches_ok L loc U s" and b: "b \<le> MAX_BYTES" and p: "loc p = Client (class_of b)"
  shows "\<exists>s' L' loc'. tc_deallocate t p b s = Inr s' \<and> caches_ok L' loc' U s'
    \<and> (\<forall>x j. loc' x = Client j \<longleftrightarrow> loc x = Client j \<and> x \<noteq> p)"
proof -
  let ?i = "class_of b"
  let ?s1 = "set_free t ?i p (s\<lparr>ms_word := (ms_word s)(p := freeList s t ?i)\<rparr>)"
  let ?s2 = "set_fsize t ?i (sz_add (freeListSize ?s1 t ?i) 1) ?s1"
  let ?loc = "loc(p := Cache t ?i)"
  have o: "lists_ok L loc (ms_word s) (head_of s)" "blocks_ok loc U" using ok by (simp_all add: caches_ok_def)
  have p0: "p \<noteq> 0" using blocks_ok_in [OF o(2), of p ?i] p by simp
  have heads: "head_of ?s2 = (head_of s)(Cache t ?i := p)" by (simp add: head_of_update)
  have "lists_ok (L(Cache t ?i := p # L (Cache t ?i))) ?loc
      ((ms_word s)(p := head_of s (Cache t ?i))) ((head_of s)(Cache t ?i := p))"
    using p p0 by (intro lists_ok_push [OF o(1)]) simp_all
  moreover have "blocks_ok ?loc U" using o(2) p blocks_ok_move [of ?loc loc U] by simp
  ultimately have ok2: "caches_ok (L(Cache t ?i := p # L (Cache t ?i))) ?loc U ?s2"
    using ok heads by (simp add: caches_ok_def)
  have client: "?loc x = Client j \<longleftrightarrow> loc x = Client j \<and> x \<noteq> p" for x j by simp
  have small: "\<not> MAX_BYTES < b" using b by simp
  show ?thesis
  proof (cases "shouldReturnToCentralCache t ?i ?s2")
    case False
    then have "tc_deallocate t p b s = Inr ?s2"
      using small p0 by (simp add: tc_deallocate_def Let_def class_of_getIndex [symmetric])
    with ok2 client show ?thesis by blast
  next
    case True
    then have "tc_deallocate t p b s = Inr (returnToCentralCache t (freeList ?s2 t ?i) b ?s2)"
      using small p0 by (simp add: tc_deallocate_def Let_def class_of_getIndex [symmetric])
    with returnToCentralCache_ok [OF ok2 class_of_getIndex class_of_less [OF b], of t] p0 client show ?thesis
      by simp
  qed
qed

section \<open>Runs\<close>

text \<open>
  Threads allocate and free; \<open>held\<close> lists the requests that are live, one
  entry for every answer, so that a block handed out twice is in it twice. A block may be freed by any
  thread, with the size it was requested with. Requests above \<open>MAX_BYTES\<close> go to \<open>malloc\<close>.
\<close>

datatype cache_op = Malloc nat "64 word" addr addr addr | Mfree nat addr

fun cache_run ::
  "nat \<Rightarrow> cache_op list \<Rightarrow> caches \<times> (addr \<times> 64 word) list \<Rightarrow> (caches \<times> (addr \<times> 64 word) list) res" where
  "cache_run fuel [] s = Inr s"
| "cache_run fuel (Malloc t b big mem new # ops) (s, held) =
     res_bind (tc_allocate fuel big mem new t b s) (\<lambda>(r, s').
       cache_run fuel ops (s', if r = 0 \<or> MAX_BYTES < b then held else (r, b) # held))"
| "cache_run fuel (Mfree t p # ops) (s, held) =
     (case map_of held p of
        None \<Rightarrow> cache_run fuel ops (s, held)
      | Some b \<Rightarrow> res_bind (tc_deallocate t p b s) (\<lambda>s'. cache_run fuel ops (s', remove1 (p, b) held)))"

fun fresh_memory :: "nat \<Rightarrow> cache_op list \<Rightarrow> caches \<times> (addr \<times> 64 word) list \<Rightarrow> bool" where
  "fresh_memory fuel [] s = True"
| "fresh_memory fuel (Malloc t b big mem new # ops) (s, held) =
     ((b \<le> MAX_BYTES \<longrightarrow> fresh_answer (ms_pages s) (span_pages_for (Suc (class_of b) * 8)) new mem) \<and>
      (case tc_allocate fuel big mem new t b s of
         Inl e \<Rightarrow> True
       | Inr (r, s') \<Rightarrow> fresh_memory fuel ops (s', if r = 0 \<or> MAX_BYTES < b then held else (r, b) # held)))"
| "fresh_memory fuel (Mfree t p # ops) (s, held) =
     (case map_of held p of
        None \<Rightarrow> fresh_memory fuel ops (s, held)
      | Some b \<Rightarrow> (case tc_deallocate t p b s of
                     Inl e \<Rightarrow> True
                   | Inr s' \<Rightarrow> fresh_memory fuel ops (s', remove1 (p, b) held)))"

definition held_ok :: "(addr \<times> 64 word) list \<Rightarrow> (addr \<Rightarrow> place) \<Rightarrow> bool" where
  "held_ok held loc \<longleftrightarrow> distinct (map fst held) \<and> (\<forall>(p, b) \<in> set held. b \<le> MAX_BYTES \<and> loc p = Client (class_of b))"

text \<open>No address is in the list twice, and the memory of any two requests has no byte in common.\<close>

definition requests_apart :: "(addr \<times> 64 word) list \<Rightarrow> bool" where
  "requests_apart held \<longleftrightarrow> distinct (map fst held) \<and>
     sorted_wrt (\<lambda>(p, b) (q, c). {p ..< p + unat b} \<inter> {q ..< q + unat c} = {}) held"

lemma held_ok_add: "held_ok held loc \<Longrightarrow> hands_out (class_of b) r loc loc' \<Longrightarrow> b \<le> MAX_BYTES \<Longrightarrow>
    held_ok ((r, b) # held) loc'"
proof -
  assume held: "held_ok held loc" and h: "hands_out (class_of b) r loc loc'" and b: "b \<le> MAX_BYTES"
  have new: "p \<noteq> r \<and> c \<le> MAX_BYTES \<and> loc' p = Client (class_of c)" if "(p, c) \<in> set held" for p c
  proof -
    have l: "loc p = Client (class_of c)" "c \<le> MAX_BYTES" using held that by (auto simp: held_ok_def)
    then have "p \<noteq> r" using h by (auto simp: hands_out_def)
    then show ?thesis using h l by (simp add: hands_out_def)
  qed
  then have "r \<notin> fst ` set held" by force
  then have "distinct (map fst ((r, b) # held))" using held by (simp add: held_ok_def)
  moreover have "loc' r = Client (class_of b)" using h by (simp add: hands_out_def)
  ultimately show ?thesis using new b unfolding held_ok_def by (intro conjI) auto
qed

lemma held_ok_remove:
  assumes "held_ok held loc" and "\<forall>x j. loc' x = Client j \<longleftrightarrow> loc x = Client j \<and> x \<noteq> p" and "map_of held p = Some b"
  shows "held_ok (remove1 (p, b) held) loc'"
proof -
  have d: "distinct (map fst held)" using assms(1) by (simp add: held_ok_def)
  have d': "distinct (map fst (remove1 (p, b) held))" using d by (rule distinct_fst_remove1)
  have "q \<noteq> p \<and> (q, c) \<in> set held" if "(q, c) \<in> set (remove1 (p, b) held)" for q c
  proof -
    have "map_of (remove1 (p, b) held) q = Some c" using that d' by simp
    then have m: "((map_of held)(p := None)) q = Some c" by (simp only: map_of_remove1 [OF d assms(3)])
    then have "q \<noteq> p" by (metis fun_upd_same option.distinct(1))
    with m show ?thesis by (simp add: map_of_SomeD)
  qed
  note in_held = this
  have old: "\<forall>(q, c) \<in> set held. c \<le> MAX_BYTES \<and> loc q = Client (class_of c)"
    using assms(1) unfolding held_ok_def by (rule conjunct2)
  have "c \<le> MAX_BYTES \<and> loc' q = Client (class_of c)" if "(q, c) \<in> set (remove1 (p, b) held)" for q c
  proof -
    have "q \<noteq> p" "c \<le> MAX_BYTES \<and> loc q = Client (class_of c)" using in_held [OF that] old by blast+
    then show ?thesis using assms(2) by blast
  qed
  then have "\<forall>(q, c) \<in> set (remove1 (p, b) held). c \<le> MAX_BYTES \<and> loc' q = Client (class_of c)" by blast
  with d' show ?thesis unfolding held_ok_def by (rule conjI)
qed

lemma malloc_big: "MAX_BYTES < b \<Longrightarrow> tc_allocate fuel big mem new t b s = Inr (big, s)"
  by (auto simp: tc_allocate_def Let_def)

lemma cache_run_ok:
  assumes "caches_ok L loc U s" and "held_ok held loc" and "2 \<le> fuel" and "fresh_memory fuel ops (s, held)"
  shows "\<exists>s' held' L' loc' U'. cache_run fuel ops (s, held) = Inr (s', held') \<and> caches_ok L' loc' U' s'
    \<and> held_ok held' loc'"
  using assms
proof (induction ops arbitrary: L loc U s held)
  case Nil
  then show ?case by auto
next
  case (Cons op ops)
  show ?case
  proof (cases op)
    case (Malloc t b big mem new)
    show ?thesis
    proof (cases "MAX_BYTES < b")
      case True
      with Cons.IH [OF Cons.prems(1-3)] Cons.prems(4) Malloc show ?thesis by (simp add: malloc_big)
    next
      case False
      then have b: "b \<le> MAX_BYTES" by simp
      have "fresh_answer (ms_pages s) (span_pages_for (Suc (class_of b) * 8)) new mem"
        using Cons.prems(4) Malloc b by simp
      from tc_allocate_ok [OF Cons.prems(1) b this Cons.prems(3), of big t] obtain r s1 L1 loc1 U1 where r:
        "tc_allocate fuel big mem new t b s = Inr (r, s1)" "caches_ok L1 loc1 U1 s1"
        "if r = 0 then loc1 = loc else hands_out (class_of b) r loc loc1" by blast
      let ?held = "if r = 0 \<or> MAX_BYTES < b then held else (r, b) # held"
      have "held_ok ?held loc1"
        using Cons.prems(2) r(3) b held_ok_add by (auto split: if_splits)
      moreover have "fresh_memory fuel ops (s1, ?held)" using Cons.prems(4) Malloc r(1) by simp
      moreover have "cache_run fuel (op # ops) (s, held) = cache_run fuel ops (s1, ?held)"
        using Malloc r(1) by simp
      ultimately show ?thesis using Cons.IH [OF r(2) _ Cons.prems(3)] by metis
    qed
  next
    case (Mfree t p)
    show ?thesis
    proof (cases "map_of held p")
      case None
      with Cons.IH [OF Cons.prems(1-3)] Cons.prems(4) Mfree show ?thesis by simp
    next
      case (Some b)
      then have b: "b \<le> MAX_BYTES" "loc p = Client (class_of b)" using Cons.prems(2) map_of_SomeD [OF Some] by (auto simp: held_ok_def)
      from tc_deallocate_ok [OF Cons.prems(1) b, of t] obtain s1 L1 loc1 where r:
        "tc_deallocate t p b s = Inr s1" "caches_ok L1 loc1 U s1"
        "\<forall>x j. loc1 x = Client j \<longleftrightarrow> loc x = Client j \<and> x \<noteq> p" by blast
      have "held_ok (remove1 (p, b) held) loc1" using Cons.prems(2) r(3) Some by (rule held_ok_remove)
      moreover have "fresh_memory fuel ops (s1, remove1 (p, b) held)" using Cons.prems(4) Mfree Some r(1) by simp
      moreover have "cache_run fuel (op # ops) (s, held) = cache_run fuel ops (s1, remove1 (p, b) held)"
        using Mfree Some r(1) by simp
      ultimately show ?thesis using Cons.IH [OF r(2) _ Cons.prems(3)] by metis
    qed
  qed
qed

lemma caches_new_ok: "caches_ok (\<lambda>_. []) (\<lambda>_. Nowhere) Map.empty (caches_new w)"
proof -
  have "head_of (caches_new w) p = 0" for p by (cases p) (simp_all add: caches_new_def)
  moreover have "freeSpans PageCache_new = []" by (simp add: PageCache_new_def)
  ultimately show ?thesis
    using PageCache_new_ok
    by (auto simp: caches_ok_def lists_ok_def blocks_ok_def caches_new_def)
qed

lemma held_blocks:
  assumes "caches_ok L loc U s" and "held_ok held loc"
  shows "requests_apart held"
proof -
  have d: "distinct (map fst held)" using assms(2) by (simp add: held_ok_def)
  have apart: "{p ..< p + unat b} \<inter> {q ..< q + unat c} = {}" if "(p, b) \<in> set held" "(q, c) \<in> set held" "p \<noteq> q" for p q b c
  proof -
    have at: "cls (loc p) = Some (class_of b)" "cls (loc q) = Some (class_of c)" "b \<le> MAX_BYTES" "c \<le> MAX_BYTES"
      using assms(2) that(1,2) by (auto simp: held_ok_def)
    have "{p ..< p + unat b} \<subseteq> block p (class_of b)" "{q ..< q + unat c} \<subseteq> block q (class_of c)"
      using size_class_fits(2) at(3,4) by (auto simp: block_def class_of_getIndex dest: order_less_le_trans)
    moreover have "block p (class_of b) \<inter> block q (class_of c) = {}"
      using blocks_ok_disjoint [of loc U] assms(1) that(3) at by (auto simp: caches_ok_def)
    ultimately show ?thesis by blast
  qed
  have "sorted_wrt (\<lambda>(p, b) (q, c). {p ..< p + unat b} \<inter> {q ..< q + unat c} = {}) xs"
    if "set xs \<subseteq> set held" "distinct (map fst xs)" for xs
    using that
  proof (induction xs)
    case (Cons x xs)
    obtain p b where x: "x = (p, b)" by fastforce
    have "{p ..< p + unat b} \<inter> {q ..< q + unat c} = {}" if "(q, c) \<in> set xs" for q c
      using apart [of p b q c] Cons.prems that x by force
    then have "\<forall>y \<in> set xs. case y of (q, c) \<Rightarrow> {p ..< p + unat b} \<inter> {q ..< q + unat c} = {}" by blast
    moreover have "set xs \<subseteq> set held" "distinct (map fst xs)" using Cons.prems by simp_all
    ultimately show ?case using Cons.IH by (simp only: sorted_wrt.simps x prod.case)
  qed simp
  with d show ?thesis by (auto simp: requests_apart_def)
qed

text \<open>C5: The allocator never hands out a byte twice: in every run of allocations and frees by any
  number of threads, a block freed by whatever thread, with fresh answers of \<open>mmap\<close> and \<open>new\<close>, every
  operation returns (two steps of fuel are enough for the counting loop), no answer is the address of a live request, and
  the memory of the live requests of up to 256 KB is pairwise disjoint.\<close>
theorem allocations_never_overlap:
  assumes "fresh_memory fuel ops (caches_new w, [])" and "2 \<le> fuel"
  shows "\<exists>s held. cache_run fuel ops (caches_new w, []) = Inr (s, held) \<and> requests_apart held"
proof -
  have "held_ok [] (\<lambda>_. Nowhere)" by (simp add: held_ok_def)
  from cache_run_ok [OF caches_new_ok this assms(2,1)] obtain s held L loc U where
    r: "cache_run fuel ops (caches_new w, []) = Inr (s, held)" "caches_ok L loc U s" "held_ok held loc"
    by blast
  with held_blocks [OF r(2,3)] show ?thesis by blast
qed

lemma demo_class: "unat (getIndex 20000) = 2499" "class_of 20000 = 2499" "(20000 :: 64 word) \<le> MAX_BYTES"
proof -
  show le: "(20000 :: 64 word) \<le> MAX_BYTES" by (simp add: MAX_BYTES_def)
  show "unat (getIndex 20000) = 2499" using unat_getIndex [OF le] by simp
  then show "class_of 20000 = 2499" by (simp add: class_of_getIndex)
qed

lemma demo_malloc:
  "\<exists>s. tc_allocate 2 0 4096 100 0 20000 (caches_new w) = Inr (4096, s) \<and>
     pc_heap (ms_pages s) = [100 \<mapsto> \<lparr>pageAddr = 4096, numPages = 8, sp_next = 0\<rparr>] \<and>
     freeSpans (ms_pages s) = [] \<and> centralFreeList s = (\<lambda>_. 0) \<and> freeList s 1 = (\<lambda>_. 0)"
proof -
  have small: "\<not> MAX_BYTES < 20000" using demo_class(3) by simp
  have count: "count_blocks 2 v 4096 = Inr 1" if "v 4096 = 0" for v
    using that by (simp add: numeral_2_eq_2)
  show ?thesis
    using small count by (simp add: tc_allocate_def demo_class(1) fetchFromCentralCache_def fetchRange_def
        unat_FREE_LIST_SIZE fetchFromPageCache_def allocateSpan_def systemAlloc_def caches_new_def
        PageCache_new_def span_pages_for_def SPAN_PAGES_def PAGE_SIZE_def zero_region_def Let_def)
qed

definition demo_mallocs :: "cache_op list" where
  "demo_mallocs = [Malloc 0 20000 0 4096 100, Malloc 1 20000 0 65536 101]"

text \<open>Requests by two threads: each gets a span of its own, and both are live at the end.\<close>

theorem allocations_never_overlap_witness:
  "\<exists>s r. cache_run 2 demo_mallocs (caches_new (\<lambda>_. 0), []) = Inr (s, [(r, 20000), (4096, 20000)]) \<and> r \<noteq> 0 \<and>
    requests_apart [(r, 20000), (4096, 20000)]"
proof -
  obtain s where s: "tc_allocate 2 0 4096 100 0 20000 (caches_new (\<lambda>_. 0)) = Inr (4096, s)"
    "pc_heap (ms_pages s) = [100 \<mapsto> \<lparr>pageAddr = 4096, numPages = 8, sp_next = 0\<rparr>]"
    "freeSpans (ms_pages s) = []" "centralFreeList s = (\<lambda>_. 0)" "freeList s 1 = (\<lambda>_. 0)"
    using demo_malloc by blast
  have n: "span_pages_for (8 + class_of 20000 * 8) = 8"
    by (simp add: demo_class span_pages_for_def SPAN_PAGES_def PAGE_SIZE_def)
  have small: "\<not> MAX_BYTES < 20000" using demo_class(3) by simp
  have count: "count_blocks 2 v 65536 = Inr 1" if "v 65536 = 0" for v
    using that by (simp add: numeral_2_eq_2)
  have "\<exists>s2. tc_allocate 2 0 65536 101 1 20000 s = Inr (65536, s2)"
    using small count by (simp add: tc_allocate_def demo_class(1) fetchFromCentralCache_def fetchRange_def
        unat_FREE_LIST_SIZE fetchFromPageCache_def allocateSpan_def systemAlloc_def s(3,4) s(5) [simplified]
        span_pages_for_def SPAN_PAGES_def PAGE_SIZE_def zero_region_def Let_def)
  then obtain s2 where s2: "tc_allocate 2 0 65536 101 1 20000 s = Inr (65536, s2)" ..
  note s2 = s2 s2 [simplified]
  have "fresh_answer (ms_pages (caches_new (\<lambda>_. 0))) 8 100 4096"
    by (simp add: fresh_answer_def caches_new_def PageCache_new_def span_ok_def PAGE_SIZE_def)
  moreover have "fresh_answer (ms_pages s) 8 101 65536"
    by (simp add: fresh_answer_def s(2) span_ok_def region_def PAGE_SIZE_def)
  ultimately have "fresh_memory 2 demo_mallocs (caches_new (\<lambda>_. 0), [])"
    using small by (simp add: demo_mallocs_def n s(1) s2(2))
  moreover have run: "cache_run 2 demo_mallocs (caches_new (\<lambda>_. 0), []) = Inr (s2, [(65536, 20000), (4096, 20000)])"
    using small by (simp add: demo_mallocs_def s(1) s2(2))
  ultimately have "requests_apart [(65536, 20000), (4096, 20000)]"
    using allocations_never_overlap [of 2 demo_mallocs "\<lambda>_. 0"] by simp
  with run show ?thesis by (intro exI [of _ s2] exI [of _ 65536]) simp
qed

section \<open>The counter and lost blocks\<close>

text \<open>The counter falls behind: after \<open>returnToCentralCache\<close> on a list whose counter was exact, the
  thread keeps one block more than \<open>freeListSize_\<close> says.\<close>

lemma counter_falls_behind:
  assumes "lists_ok L loc (ms_word s) (head_of s)" and "i = unat (getIndex b)" and "b \<le> MAX_BYTES"
    and "length (L (Cache t i)) = freeListSize s t i" and "2 < freeListSize s t i"
  shows "\<exists>L' loc'. lists_ok L' loc' (ms_word (returnToCentralCache t (freeList s t i) b s))
      (head_of (returnToCentralCache t (freeList s t i) b s))
    \<and> length (L' (Cache t i)) = Suc (freeListSize (returnToCentralCache t (freeList s t i) b s) t i)"
proof -
  have i: "i < 32768" using size_class_fits(1) [OF assms(3)] assms(2) by simp
  have c: "1 < freeListSize s t i" using assms(5) by simp
  have len: "Suc (max (freeListSize s t i div 4) 1) < length (L (Cache t i))" using assms(4,5) by auto
  from returnToCentralCache_lists(1,2) [OF assms(1,2) i c refl len refl] len show ?thesis
    by (intro exI conjI) (assumption, simp)
qed

text \<open>Blocks are lost: a thread's list that has outgrown its counter far enough is cut, and the
  blocks behind the part that \<open>returnRange\<close> walks end up in no free list although nobody holds them.\<close>

lemma returned_blocks_lost:
  assumes "lists_ok L loc (ms_word s) (head_of s)" and "i = unat (getIndex b)" and "b \<le> MAX_BYTES"
    and "1 < freeListSize s t i" and "k = max (freeListSize s t i div 4) 1"
    and "Suc k + max (sz_mul (freeListSize s t i - k) (unat (SizeClass_ceil b))) 1 < length (L (Cache t i))"
  shows "\<exists>L' loc'. lists_ok L' loc' (ms_word (returnToCentralCache t (freeList s t i) b s))
      (head_of (returnToCentralCache t (freeList s t i) b s))
    \<and> (\<exists>x \<in> set (L (Cache t i)). \<forall>p. listed p \<longrightarrow> x \<notin> set (L' p))"
proof -
  have i: "i < 32768" using size_class_fits(1) [OF assms(3)] assms(2) by simp
  have len: "Suc k < length (L (Cache t i))" using assms(6) by simp
  let ?m = "sz_mul (freeListSize s t i - k) (unat (SizeClass_ceil b)) - 1"
  let ?ys = "drop (Suc k) (L (Cache t i))"
  note r = returnToCentralCache_lists(1) [OF assms(1,2) i assms(4,5) len refl]
  have long: "Suc ?m < length ?ys" using assms(6) by simp
  define x where "x = hd (drop (Suc ?m) ?ys)"
  have x: "x \<in> set (drop (Suc ?m) ?ys)" unfolding x_def using long by (intro hd_in_set) simp
  have "distinct ?ys" using hlist_distinct [OF lists_ok_list [OF assms(1), of "Cache t i"]] by simp
  then have "x \<notin> set (take (Suc ?m) ?ys)"
    using x set_take_disj_set_drop_if_distinct [of ?ys "Suc ?m" "Suc ?m"] by blast
  with x lists_ok_iff [OF r, where x = x] have "\<forall>p. listed p \<longrightarrow>
      x \<notin> set ((L(Cache t i := take (Suc k) (L (Cache t i)), Central i := take (Suc ?m) ?ys @ L (Central i))) p)"
    by auto
  moreover have "x \<in> set (L (Cache t i))" using x by (metis in_set_dropD)
  ultimately show ?thesis using r by blast
qed

text \<open>Concrete lists of 8-byte blocks at 8, 16, and so on in the cache of thread 0.\<close>

definition demo_caches :: "nat \<Rightarrow> nat \<Rightarrow> caches" where
  "demo_caches n c = (caches_new (\<lambda>a. if a < 8 * n then a + 8 else 0))
     \<lparr>freeList := (\<lambda>t i. if t = 0 \<and> i = 0 then 8 else 0), freeListSize := (\<lambda>_ _. c)\<rparr>"

definition demo_lists :: "nat \<Rightarrow> place \<Rightarrow> addr list" where
  "demo_lists n p = (if p = Cache 0 0 then map (\<lambda>k. 8 * k) [1..<Suc n] else [])"

definition demo_places :: "nat \<Rightarrow> addr \<Rightarrow> place" where
  "demo_places n a = (if a \<in> (\<lambda>k. 8 * k) ` {1..n} then Cache 0 0 else Nowhere)"

lemma demo_lists_ok:
  assumes "0 < n"
  shows "lists_ok (demo_lists n) (demo_places n) (ms_word (demo_caches n c)) (head_of (demo_caches n c))"
proof -
  let ?w = "\<lambda>a. if a < 8 * n then a + 8 else 0"
  let ?f = "\<lambda>k. if k < Suc n then 8 * k else 0"
  have "hlist ?w (8 * k) (map (\<lambda>k. 8 * k) [k..<Suc n])" if "1 \<le> k" "k \<le> n" for k
    using that(2,1)
  proof (induction rule: inc_induct)
    case base
    then show ?case by simp
  next
    case (step k)
    then show ?case by (simp add: upt_conv_Cons del: upt_Suc)
  qed
  from this [of 1] assms have "hlist ?w 8 (demo_lists n (Cache 0 0))" by (simp add: demo_lists_def del: upt_Suc)
  moreover have "x \<in> set (demo_lists n p) \<longleftrightarrow> demo_places n x = p" if "listed p" for p x
    using that by (auto simp: demo_lists_def demo_places_def simp del: upt_Suc)
  moreover have "hlist ?w (head_of (demo_caches n c) p) (demo_lists n p)" if "listed p" "p \<noteq> Cache 0 0" for p
    using that by (cases p) (auto simp: demo_lists_def demo_caches_def caches_new_def)
  moreover have "head_of (demo_caches n c) (Cache 0 0) = 8" "ms_word (demo_caches n c) = ?w"
    by (simp_all add: demo_caches_def caches_new_def)
  ultimately have "hlist (ms_word (demo_caches n c)) (head_of (demo_caches n c) p) (demo_lists n p)" if "listed p" for p
    using that by (cases "p = Cache 0 0") simp_all
  with \<open>\<And>p x. listed p \<Longrightarrow> x \<in> set (demo_lists n p) \<longleftrightarrow> demo_places n x = p\<close>
  show ?thesis unfolding lists_ok_def by blast
qed

lemma demo_index: "unat (getIndex 8) = 0" "unat (SizeClass_ceil 8) = 8" "(8 :: 64 word) \<le> MAX_BYTES"
proof -
  show le: "(8 :: 64 word) \<le> MAX_BYTES" by (simp add: MAX_BYTES_def)
  show "unat (getIndex 8) = 0" "unat (SizeClass_ceil 8) = 8"
    using unat_getIndex [OF le] SizeClass_ceil_nat [OF le] by simp_all
qed

lemma counter_falls_behind_witness:
  "\<exists>L' loc'. lists_ok L' loc' (ms_word (returnToCentralCache 0 (freeList (demo_caches 5 5) 0 0) 8 (demo_caches 5 5)))
      (head_of (returnToCentralCache 0 (freeList (demo_caches 5 5) 0 0) 8 (demo_caches 5 5)))
    \<and> length (L' (Cache 0 0))
     = Suc (freeListSize (returnToCentralCache 0 (freeList (demo_caches 5 5) 0 0) 8 (demo_caches 5 5)) 0 0)"
proof (rule counter_falls_behind)
  show "lists_ok (demo_lists 5) (demo_places 5) (ms_word (demo_caches 5 5)) (head_of (demo_caches 5 5))"
    by (rule demo_lists_ok) simp
  show "length (demo_lists 5 (Cache 0 0)) = freeListSize (demo_caches 5 5) 0 0" "2 < freeListSize (demo_caches 5 5) 0 0"
    by (simp_all add: demo_lists_def demo_caches_def)
qed (simp_all add: demo_index)

lemma returned_blocks_lost_witness:
  "\<exists>L' loc'. lists_ok L' loc' (ms_word (returnToCentralCache 0 (freeList (demo_caches 12 2) 0 0) 8 (demo_caches 12 2)))
      (head_of (returnToCentralCache 0 (freeList (demo_caches 12 2) 0 0) 8 (demo_caches 12 2)))
    \<and> (\<exists>x \<in> set (demo_lists 12 (Cache 0 0)). \<forall>p. listed p \<longrightarrow> x \<notin> set (L' p))"
proof (rule returned_blocks_lost)
  show "lists_ok (demo_lists 12) (demo_places 12) (ms_word (demo_caches 12 2)) (head_of (demo_caches 12 2))"
    by (rule demo_lists_ok) simp
  have c: "freeListSize (demo_caches 12 2) 0 0 = 2" by (simp add: demo_caches_def)
  show "1 < freeListSize (demo_caches 12 2) 0 0" "1 = max (freeListSize (demo_caches 12 2) 0 0 div 4) (1 :: nat)"
    by (simp_all add: c)
  have "length (demo_lists 12 (Cache 0 0)) = 12" by (simp add: demo_lists_def)
  then show "Suc 1 + max (sz_mul (freeListSize (demo_caches 12 2) 0 0 - 1) (unat (SizeClass_ceil 8))) 1
      < length (demo_lists 12 (Cache 0 0))"
    by (simp add: c demo_index sz_mul_def)
qed (simp_all add: demo_index)

end
