(* ===== verification/Memory_Pool.thy ===== *)
theory Memory_Pool
  imports Prelude
begin

text \<open>
  The fixed-size slot pool of memory-mgkl (MemoryPool.hpp, MemoryPool.cpp): bump allocation inside
  blocks from \<open>operator new\<close>, a free list threaded through the slots, and the table of pools. The
  second half takes the free list's operations apart into their atomic accesses.
\<close>

section \<open>One pool\<close>

definition sizeof_Slot :: nat where
  "sizeof_Slot = 8"

record mem_pool =
  blockSize :: nat
  slotSize :: nat
  firstBlock :: addr
  curSlot :: addr
  mp_freeList :: addr
  lastSlot :: addr
  mp_next :: "addr \<Rightarrow> addr"

definition MemoryPool_new :: "nat \<Rightarrow> (addr \<Rightarrow> addr) \<Rightarrow> mem_pool" where
  "MemoryPool_new block_size h = \<lparr>blockSize = block_size, slotSize = 0, firstBlock = 0, curSlot = 0,
     mp_freeList = 0, lastSlot = 0, mp_next = h\<rparr>"

definition pool_init :: "nat \<Rightarrow> mem_pool \<Rightarrow> mem_pool res" where
  "pool_init slot_size m =
     (if 0 < slot_size
      then Inr (m\<lparr>slotSize := slot_size, firstBlock := 0, curSlot := 0, mp_freeList := 0, lastSlot := 0\<rparr>)
      else Inl Assert_Failed)"

definition padPointer :: "nat \<Rightarrow> nat \<Rightarrow> nat" where
  "padPointer p align = sz_sub align p mod align"

text \<open>\<open>t\<close> is the address \<open>operator new\<close> answers with.\<close>

definition allocateNewBlock :: "addr \<Rightarrow> mem_pool \<Rightarrow> mem_pool" where
  "allocateNewBlock t m =
     (let body = t + sizeof_Slot
      in m\<lparr>mp_next := (mp_next m)(t := firstBlock m), firstBlock := t,
           curSlot := body + padPointer body (slotSize m),
           lastSlot := sz_add (sz_sub (sz_add t (blockSize m)) (slotSize m)) 1,
           mp_freeList := 0\<rparr>)"

definition popFreeList :: "mem_pool \<Rightarrow> addr \<times> mem_pool" where
  "popFreeList m =
     (if mp_freeList m = 0 then (0, m)
      else (mp_freeList m, m\<lparr>mp_freeList := mp_next m (mp_freeList m)\<rparr>))"

definition pushFreeList :: "addr \<Rightarrow> mem_pool \<Rightarrow> mem_pool" where
  "pushFreeList s m = m\<lparr>mp_next := (mp_next m)(s := mp_freeList m), mp_freeList := s\<rparr>"

definition mp_allocate :: "addr \<Rightarrow> mem_pool \<Rightarrow> addr \<times> mem_pool" where
  "mp_allocate t m =
     (let (slot, m1) = popFreeList m
      in if slot \<noteq> 0 then (slot, m1)
         else (let m2 = (if lastSlot m1 \<le> curSlot m1 then allocateNewBlock t m1 else m1)
               in (curSlot m2, m2\<lparr>curSlot := curSlot m2 + slotSize m2 div sizeof_Slot * sizeof_Slot\<rparr>)))"

definition mp_deallocate :: "addr \<Rightarrow> mem_pool \<Rightarrow> mem_pool" where
  "mp_deallocate p m = (if p = 0 then m else pushFreeList p m)"

section \<open>The table of pools\<close>

definition MEMORY_POOL_NUM :: nat where "MEMORY_POOL_NUM = 64"

definition SLOT_BASE_SIZE :: nat where "SLOT_BASE_SIZE = 8"

definition MAX_SLOT_SIZE :: nat where "MAX_SLOT_SIZE = 512"

fun init_pools :: "nat \<Rightarrow> mem_pool list \<Rightarrow> mem_pool list res" where
  "init_pools i [] = Inr []"
| "init_pools i (m # ms) =
     res_bind (pool_init ((i + 1) * SLOT_BASE_SIZE) m) (\<lambda>m'.
     res_bind (init_pools (Suc i) ms) (\<lambda>ms'. Inr (m' # ms')))"

definition initMemoryPool :: "(addr \<Rightarrow> addr) \<Rightarrow> mem_pool list res" where
  "initMemoryPool h = init_pools 0 (replicate MEMORY_POOL_NUM (MemoryPool_new 4096 h))"

definition pool_index :: "nat \<Rightarrow> nat" where
  "pool_index nbytes = sz_sub (sz_add nbytes 7 div SLOT_BASE_SIZE) 1"

text \<open>\<open>big\<close> is the answer of \<open>operator new\<close> for a request that is too large for the pools.\<close>

definition useMemory :: "addr \<Rightarrow> addr \<Rightarrow> nat \<Rightarrow> mem_pool list \<Rightarrow> (addr \<times> mem_pool list) res" where
  "useMemory big t nbytes pools =
     (if nbytes = 0 then Inr (0, pools)
      else if MAX_SLOT_SIZE < nbytes then Inr (big, pools)
      else if pool_index nbytes < length pools
      then (let (p, m) = mp_allocate t (pools ! pool_index nbytes)
            in Inr (p, pools[pool_index nbytes := m]))
      else Inl Undefined)"

definition freeMemory :: "addr \<Rightarrow> nat \<Rightarrow> mem_pool list \<Rightarrow> mem_pool list res" where
  "freeMemory p nbytes pools =
     (if p = 0 then Inr pools
      else if MAX_SLOT_SIZE < nbytes then Inr pools
      else if pool_index nbytes < length pools
      then Inr (pools[pool_index nbytes := mp_deallocate p (pools ! pool_index nbytes)])
      else Inl Undefined)"

lemma pool_index_fits:
  assumes "0 < n" and "n \<le> MAX_SLOT_SIZE"
  shows "pool_index n < MEMORY_POOL_NUM" and "n \<le> (pool_index n + 1) * SLOT_BASE_SIZE"
    and "(pool_index n + 1) * SLOT_BASE_SIZE < n + 8"
  using assms by (auto simp: pool_index_def MAX_SLOT_SIZE_def MEMORY_POOL_NUM_def SLOT_BASE_SIZE_def size_arith)

lemma init_pools_nth:
  "\<exists>ms'. init_pools i ms = Inr ms' \<and> length ms' = length ms \<and>
     (\<forall>k < length ms. slotSize (ms' ! k) = (i + k + 1) * SLOT_BASE_SIZE \<and> blockSize (ms' ! k) = blockSize (ms ! k))"
proof (induction ms arbitrary: i)
  case Nil
  then show ?case by simp
next
  case (Cons m ms)
  from Cons.IH [of "Suc i"] obtain ms' where ms': "init_pools (Suc i) ms = Inr ms'" "length ms' = length ms"
    "\<And>k. k < length ms \<Longrightarrow> slotSize (ms' ! k) = (Suc i + k + 1) * SLOT_BASE_SIZE \<and> blockSize (ms' ! k) = blockSize (ms ! k)"
    by blast
  have "pool_init ((i + 1) * SLOT_BASE_SIZE) m = Inr (m\<lparr>slotSize := (i + 1) * SLOT_BASE_SIZE, firstBlock := 0,
      curSlot := 0, mp_freeList := 0, lastSlot := 0\<rparr>)" by (simp add: pool_init_def SLOT_BASE_SIZE_def)
  with ms' show ?case by (auto simp: nth_Cons split: nat.split)
qed

text \<open>The table of pools: after \<open>initMemoryPool\<close> every request of 1 to 512 bytes has a pool, whose
  slots are large enough and less than 8 bytes larger, and \<open>freeMemory\<close> of the same size looks in
  the same pool, so that a freed slot is handed out by the next request of its class.\<close>

lemma request_finds_pool:
  assumes "0 < n" and "n \<le> MAX_SLOT_SIZE"
  shows "\<exists>pools. initMemoryPool h = Inr pools \<and> pool_index n < length pools \<and>
    n \<le> slotSize (pools ! pool_index n) \<and> slotSize (pools ! pool_index n) < n + 8 \<and>
    (p \<noteq> 0 \<longrightarrow> (\<exists>pools'. freeMemory p n pools = Inr pools' \<and>
       (\<exists>pools''. useMemory big t n pools' = Inr (p, pools''))))"
proof -
  obtain pools where pools: "initMemoryPool h = Inr pools" "length pools = MEMORY_POOL_NUM"
    "\<And>k. k < MEMORY_POOL_NUM \<Longrightarrow> slotSize (pools ! k) = (k + 1) * SLOT_BASE_SIZE"
    using init_pools_nth [of 0 "replicate MEMORY_POOL_NUM (MemoryPool_new 4096 h)"]
    unfolding initMemoryPool_def by auto
  let ?i = "pool_index n"
  have i: "?i < length pools" using pool_index_fits(1) [OF assms] pools(2) by simp
  have small: "\<not> MAX_SLOT_SIZE < n" using assms(2) by simp
  have "\<exists>pools'. freeMemory p n pools = Inr pools' \<and> (\<exists>pools''. useMemory big t n pools' = Inr (p, pools''))"
    if "p \<noteq> 0"
    using that i small assms(1)
    by (simp add: freeMemory_def useMemory_def mp_deallocate_def pushFreeList_def mp_allocate_def popFreeList_def)
  with pools i pool_index_fits [OF assms] show ?thesis by simp
qed

lemma request_finds_pool_witness:
  "\<exists>pools. initMemoryPool (\<lambda>_. 0) = Inr pools \<and> 20 \<le> slotSize (pools ! pool_index 20) \<and> slotSize (pools ! pool_index 20) < 28"
  using request_finds_pool [of 20 "\<lambda>_. 0" 1 0 0] by (auto simp: MAX_SLOT_SIZE_def)

text \<open>
  \<open>newElement\<close> constructs an object of \<open>n\<close> bytes in its slot and \<open>deleteElement\<close> destroys it; the objects are kept by address.
\<close>

definition newElement ::
  "addr \<Rightarrow> addr \<Rightarrow> nat \<Rightarrow> 'a \<Rightarrow> (addr \<rightharpoonup> 'a) \<Rightarrow> mem_pool list \<Rightarrow> (addr \<times> (addr \<rightharpoonup> 'a) \<times> mem_pool list) res" where
  "newElement big t n x objects pools = res_bind (useMemory big t n pools) (\<lambda>(p, pools).
     if p \<noteq> 0 then Inr (p, objects(p \<mapsto> x), pools) else Inr (p, objects, pools))"

definition deleteElement ::
  "addr \<Rightarrow> nat \<Rightarrow> (addr \<rightharpoonup> 'a) \<Rightarrow> mem_pool list \<Rightarrow> ((addr \<rightharpoonup> 'a) \<times> mem_pool list) res" where
  "deleteElement p n objects pools =
     (if p = 0 then Inr (objects, pools)
      else if objects p = None then Inl Undefined
      else res_bind (freeMemory p n pools) (\<lambda>pools. Inr (objects(p := None), pools)))"

text \<open>
  An element lives at the address returned until it is deleted; deleting it twice is undefined, and the next element of
  its size class takes its place.
\<close>

lemma newElement_lives:
  assumes "newElement big t n x objects pools = Inr (p, objects1, pools1)" and "p \<noteq> 0"
  shows "objects1 = objects(p \<mapsto> x)"
  using assms by (auto simp: newElement_def split: if_splits)

lemma deleteElement_frees:
  assumes "deleteElement p n objects pools = Inr (objects1, pools1)" and "p \<noteq> 0" and "0 < n" and "n \<le> MAX_SLOT_SIZE"
  shows "deleteElement p n objects1 pools1 = Inl Undefined \<and>
    (\<exists>pools2. newElement big t n y objects1 pools1 = Inr (p, objects1(p \<mapsto> y), pools2))"
proof -
  have small: "\<not> MAX_SLOT_SIZE < n" using assms(4) by simp
  from assms small have o: "objects1 = objects(p := None)" and i: "pool_index n < length pools"
    and q: "pools1 = pools[pool_index n := mp_deallocate p (pools ! pool_index n)]"
    by (auto simp: deleteElement_def freeMemory_def split: if_splits)
  show ?thesis using assms(2,3) small i
    by (simp add: o q deleteElement_def newElement_def useMemory_def mp_deallocate_def pushFreeList_def mp_allocate_def
      popFreeList_def)
qed

section \<open>Slots never overlap\<close>

definition slot :: "nat \<Rightarrow> addr \<Rightarrow> addr set" where
  "slot ss x = {x ..< x + ss}"

























text \<open>
  \<open>padPointer\<close> subtracts in \<open>size_t\<close>, where the wrap-around is only harmless for a divisor of
  \<open>2 ^ 64\<close>: the slots of a class such as 24 bytes do not start at multiples of 24.
\<close>

lemma padPointer_misaligns: "(4104 + padPointer 4104 24) mod 24 \<noteq> 0"
  by (simp add: padPointer_def sz_sub_def)

section \<open>The lock-free free list\<close>

text \<open>
  Threads run \<open>popFreeList\<close> and \<open>pushFreeList\<close> concurrently; every atomic access is a step. A
  program point says what a thread has read so far: \<open>Pop_Head a\<close> the head, \<open>Pop_Next a b\<close> also the
  successor, \<open>Push_Head a h\<close> the head its slot \<open>a\<close> is about to be linked to, \<open>Push_Link a h\<close> that it
  is linked. \<open>compare_exchange_weak\<close> may fail spuriously.
\<close>

datatype lf_point = Idle | Pop_Head addr | Pop_Next addr addr | Push_Slot addr | Push_Head addr addr | Push_Link addr addr

record lf_state =
  lf_head :: addr
  lf_next :: "addr \<Rightarrow> addr"
  lf_at :: "nat \<Rightarrow> lf_point"
  lf_own :: "nat \<Rightarrow> addr set"

datatype lf_op = Start_Pop | Read_Next | Pop_Exchange | Pop_Retry
  | Start_Push addr | Read_Head | Store_Next | Push_Exchange | Push_Retry

abbreviation goto :: "nat \<Rightarrow> lf_point \<Rightarrow> lf_state \<Rightarrow> lf_state" where
  "goto t p s \<equiv> s\<lparr>lf_at := (lf_at s)(t := p)\<rparr>"

fun lf_exec :: "nat \<Rightarrow> lf_op \<Rightarrow> lf_state \<Rightarrow> lf_state option" where
  "lf_exec t Start_Pop s =
     (if lf_at s t = Idle then Some (if lf_head s = 0 then s else goto t (Pop_Head (lf_head s)) s) else None)"
| "lf_exec t Read_Next s =
     (case lf_at s t of Pop_Head a \<Rightarrow> Some (goto t (Pop_Next a (lf_next s a)) s) | _ \<Rightarrow> None)"
| "lf_exec t Pop_Exchange s =
     (case lf_at s t of
        Pop_Next a b \<Rightarrow> if lf_head s = a
          then Some (goto t Idle (s\<lparr>lf_head := b, lf_own := (lf_own s)(t := insert a (lf_own s t))\<rparr>)) else None
      | _ \<Rightarrow> None)"
| "lf_exec t Pop_Retry s = (case lf_at s t of Pop_Next a b \<Rightarrow> Some (goto t Idle s) | _ \<Rightarrow> None)"
| "lf_exec t (Start_Push a) s =
     (if lf_at s t = Idle \<and> a \<in> lf_own s t
      then Some (goto t (Push_Slot a) (s\<lparr>lf_own := (lf_own s)(t := lf_own s t - {a})\<rparr>)) else None)"
| "lf_exec t Read_Head s =
     (case lf_at s t of Push_Slot a \<Rightarrow> Some (goto t (Push_Head a (lf_head s)) s) | _ \<Rightarrow> None)"
| "lf_exec t Store_Next s =
     (case lf_at s t of
        Push_Head a h \<Rightarrow> Some (goto t (Push_Link a h) (s\<lparr>lf_next := (lf_next s)(a := h)\<rparr>)) | _ \<Rightarrow> None)"
| "lf_exec t Push_Exchange s =
     (case lf_at s t of
        Push_Link a h \<Rightarrow> if lf_head s = h then Some (goto t Idle (s\<lparr>lf_head := a\<rparr>)) else None
      | _ \<Rightarrow> None)"
| "lf_exec t Push_Retry s = (case lf_at s t of Push_Link a h \<Rightarrow> Some (goto t (Push_Slot a) s) | _ \<Rightarrow> None)"

fun lf_run :: "(nat \<times> lf_op) list \<Rightarrow> lf_state \<Rightarrow> lf_state option" where
  "lf_run [] s = Some s"
| "lf_run ((t, x) # xs) s = (case lf_exec t x s of None \<Rightarrow> None | Some s' \<Rightarrow> lf_run xs s')"

definition lf_init :: "addr \<Rightarrow> (addr \<Rightarrow> addr) \<Rightarrow> (nat \<Rightarrow> addr set) \<Rightarrow> lf_state" where
  "lf_init h n own = \<lparr>lf_head = h, lf_next = n, lf_at = (\<lambda>_. Idle), lf_own = own\<rparr>"

text \<open>The ABA problem of \<open>popFreeList\<close>: thread 1 reads the head 8 and its successor 16; thread 2 pops
  both slots and pushes 8 back; thread 1's exchange succeeds, makes the slot 16 that thread 2 is using
  the head, and pops it too, so that two threads own it.\<close>

lemma pop_aba:
  "\<exists>s. lf_run
     [(1, Start_Pop), (1, Read_Next),
      (2, Start_Pop), (2, Read_Next), (2, Pop_Exchange), (2, Start_Pop), (2, Read_Next), (2, Pop_Exchange),
      (2, Start_Push 8), (2, Read_Head), (2, Store_Next), (2, Push_Exchange),
      (1, Pop_Exchange), (1, Start_Pop), (1, Read_Next), (1, Pop_Exchange)]
     (lf_init 8 ((\<lambda>_. 0)(8 := 16)) (\<lambda>_. {})) = Some s
   \<and> 16 \<in> lf_own s 1 \<and> 16 \<in> lf_own s 2"
  by (simp add: lf_init_def)

subsection \<open>One popping thread\<close>

text \<open>What a thread holds outside the list: what it owns and the slot it is pushing.\<close>

fun pushing :: "lf_point \<Rightarrow> addr set" where
  "pushing (Push_Slot a) = {a}"
| "pushing (Push_Head a h) = {a}"
| "pushing (Push_Link a h) = {a}"
| "pushing _ = {}"

definition holding :: "lf_state \<Rightarrow> nat \<Rightarrow> addr set" where
  "holding s t = lf_own s t \<union> pushing (lf_at s t)"

fun point_ok :: "lf_state \<Rightarrow> addr list \<Rightarrow> nat \<Rightarrow> lf_point \<Rightarrow> bool" where
  "point_ok s fs t (Pop_Head a) \<longleftrightarrow> t = 0 \<and> a \<in> set fs"
| "point_ok s fs t (Pop_Next a b) \<longleftrightarrow> t = 0 \<and> a \<in> set fs \<and> lf_next s a = b"
| "point_ok s fs t (Push_Link a h) \<longleftrightarrow> a \<notin> lf_own s t \<and> lf_next s a = h"
| "point_ok s fs t (Push_Slot a) \<longleftrightarrow> a \<notin> lf_own s t"
| "point_ok s fs t (Push_Head a h) \<longleftrightarrow> a \<notin> lf_own s t"
| "point_ok s fs t Idle \<longleftrightarrow> True"

definition lf_ok :: "addr list \<Rightarrow> lf_state \<Rightarrow> bool" where
  "lf_ok fs s \<longleftrightarrow> hlist (lf_next s) (lf_head s) fs \<and>
     (\<forall>t. 0 \<notin> holding s t \<and> holding s t \<inter> set fs = {} \<and> point_ok s fs t (lf_at s t)) \<and>
     (\<forall>t u. t \<noteq> u \<longrightarrow> holding s t \<inter> holding s u = {})"

definition lf_inv :: "lf_state \<Rightarrow> bool" where
  "lf_inv s \<longleftrightarrow> (\<exists>fs. lf_ok fs s)"

text \<open>A step in which only thread 0 pops.\<close>

definition lf_step1 :: "lf_state \<Rightarrow> lf_state \<Rightarrow> bool" where
  "lf_step1 s s' \<longleftrightarrow> (\<exists>t x. lf_exec t x s = Some s' \<and> (x = Start_Pop \<longrightarrow> t = 0))"

definition lf_start :: "lf_state \<Rightarrow> bool" where
  "lf_start s \<longleftrightarrow> (\<exists>h n own fs. s = lf_init h n own \<and> hlist n h fs \<and>
     (\<forall>t. 0 \<notin> own t \<and> own t \<inter> set fs = {}) \<and> (\<forall>t u. t \<noteq> u \<longrightarrow> own t \<inter> own u = {}))"

lemma lf_ok_goto:
  assumes ok: "lf_ok fs s" and same: "lf_head s' = lf_head s" "lf_next s' = lf_next s"
    and at: "lf_at s' = (lf_at s)(t := p)" and own: "lf_own s' = (lf_own s)(t := X)"
    and priv: "X \<union> pushing p = holding s t" and p: "point_ok s' fs t p"
  shows "lf_ok fs s'"
proof -
  have "holding s' u = holding s u" for u using at own priv by (simp add: holding_def)
  moreover have "point_ok s' fs u (lf_at s' u)" for u
  proof (cases "u = t")
    case True
    with at p show ?thesis by simp
  next
    case False
    have "point_ok s fs u (lf_at s u)" using ok by (simp add: lf_ok_def)
    with False at own same(2) show ?thesis by (cases "lf_at s u") simp_all
  qed
  ultimately show ?thesis using ok same by (simp add: lf_ok_def)
qed

text \<open>The thread at a point where the list does not change, the pop, the link and the push.\<close>

lemma lf_ok_at: "lf_ok fs s \<Longrightarrow> point_ok s fs t (lf_at s t)"
  by (simp add: lf_ok_def)

lemma lf_ok_pop:
  assumes ok: "lf_ok fs s" and at: "lf_at s t = Pop_Next a b" and head: "lf_head s = a"
  shows "\<exists>gs. lf_ok gs (goto t Idle (s\<lparr>lf_head := b, lf_own := (lf_own s)(t := insert a (lf_own s t))\<rparr>))"
proof -
  let ?s = "s\<lparr>lf_head := b, lf_own := (lf_own s)(t := insert a (lf_own s t)), lf_at := (lf_at s)(t := Idle)\<rparr>"
  have p: "t = 0" "a \<in> set fs" "lf_next s a = b" using lf_ok_at [OF ok, of t] at by simp_all
  have list: "hlist (lf_next s) a fs" using ok head by (simp add: lf_ok_def)
  then obtain gs where gs: "fs = a # gs" "hlist (lf_next s) b gs" using p by (cases fs) auto
  have a: "a \<noteq> 0" "a \<notin> set gs" using hpath_nonzero [OF list] hlist_distinct [OF list] gs(1) by auto
  have priv: "holding ?s u = (if u = t then insert a (holding s t) else holding s u)" for u
    using at by (simp add: holding_def)
  have old: "0 \<notin> holding s u" "holding s u \<inter> set fs = {}" "point_ok s fs u (lf_at s u)" for u
    using ok by (simp_all add: lf_ok_def)
  have "0 \<notin> holding ?s u \<and> holding ?s u \<inter> set gs = {}" for u
    using old(1,2) [of u] a gs(1) by (auto simp: priv)
  moreover have "point_ok ?s gs u (lf_at ?s u)" for u
    using old(3) [of u] p(1) by (cases "lf_at s u") auto
  moreover have "holding ?s u \<inter> holding ?s v = {}" if "u \<noteq> v" for u v
    using that ok old(2) [of u] old(2) [of v] gs(1) by (auto simp: priv lf_ok_def)
  ultimately have "lf_ok gs ?s" using gs(2) by (simp add: lf_ok_def)
  then show ?thesis by auto
qed

lemma lf_ok_link:
  assumes ok: "lf_ok fs s" and at: "lf_at s t = Push_Head a h"
  shows "lf_ok fs (goto t (Push_Link a h) (s\<lparr>lf_next := (lf_next s)(a := h)\<rparr>))"
proof -
  let ?s = "s\<lparr>lf_next := (lf_next s)(a := h), lf_at := (lf_at s)(t := Push_Link a h)\<rparr>"
  have old: "holding s u \<inter> set fs = {}" "point_ok s fs u (lf_at s u)" for u
    using ok by (simp_all add: lf_ok_def)
  have a: "a \<in> holding s t" using at by (simp add: holding_def)
  then have notin: "a \<notin> set fs" using old(1) [of t] by auto
  have priv: "holding ?s u = holding s u" for u using at by (simp add: holding_def)
  have "point_ok ?s fs u (lf_at ?s u)" for u
  proof (cases "u = t")
    case True
    with old(2) [of t] at show ?thesis by simp
  next
    case False
    then have "a \<notin> holding s u" using a ok unfolding lf_ok_def by blast
    with False old(2) [of u] notin show ?thesis by (cases "lf_at s u") (auto simp: holding_def)
  qed
  then have "lf_ok fs ?s" using ok notin by (simp add: lf_ok_def priv)
  then show ?thesis by simp
qed

lemma lf_ok_push:
  assumes ok: "lf_ok fs s" and at: "lf_at s t = Push_Link a h" and head: "lf_head s = h"
  shows "lf_ok (a # fs) (goto t Idle (s\<lparr>lf_head := a\<rparr>))"
proof -
  let ?s = "s\<lparr>lf_head := a, lf_at := (lf_at s)(t := Idle)\<rparr>"
  have old: "0 \<notin> holding s u" "holding s u \<inter> set fs = {}" "point_ok s fs u (lf_at s u)" for u
    using ok by (simp_all add: lf_ok_def)
  have a: "a \<in> holding s t" using at by (simp add: holding_def)
  have p: "a \<notin> lf_own s t" "lf_next s a = h" using old(3) [of t] at by simp_all
  have a0: "a \<noteq> 0" using a old(1) [of t] by metis
  have priv: "holding ?s u = (if u = t then holding s t - {a} else holding s u)" for u
    using at p(1) by (auto simp: holding_def)
  have "hlist (lf_next s) a (a # fs)" using a0 p(2) ok head by (simp add: lf_ok_def)
  moreover have "0 \<notin> holding ?s u \<and> holding ?s u \<inter> set (a # fs) = {}" for u
  proof (cases "u = t")
    case False
    then have "a \<notin> holding s u" using a ok unfolding lf_ok_def by blast
    with False old(1,2) [of u] show ?thesis by (simp add: priv)
  qed (use old(1,2) [of t] in \<open>auto simp: priv\<close>)
  moreover have "point_ok ?s (a # fs) u (lf_at ?s u)" for u
    using old(3) [of u] by (cases "lf_at s u") auto
  moreover have "holding ?s u \<inter> holding ?s v = {}" if "u \<noteq> v" for u v
  proof -
    have "holding s u \<inter> holding s v = {}" using that ok unfolding lf_ok_def by blast
    then show ?thesis by (auto simp: priv)
  qed
  ultimately have "lf_ok (a # fs) ?s" by (simp add: lf_ok_def)
  then show ?thesis by simp
qed

lemma lf_step1_inv:
  assumes "lf_inv s" and "lf_step1 s s'"
  shows "lf_inv s'"
proof -
  obtain fs where ok: "lf_ok fs s" using assms(1) by (auto simp: lf_inv_def)
  obtain t x where x: "lf_exec t x s = Some s'" "x = Start_Pop \<longrightarrow> t = 0" using assms(2) by (auto simp: lf_step1_def)
  note at = lf_ok_at [OF ok, of t]
  have notin: "lf_own s t \<inter> set fs = {}" using ok by (auto simp: lf_ok_def holding_def)
  have stay: "lf_inv (goto t p s)" if "lf_own s t \<union> pushing p = holding s t" "point_ok s fs t p" for p
  proof -
    have "point_ok (goto t p s) fs t p" using that(2) by (cases p) simp_all
    then have "lf_ok fs (goto t p s)" using that(1) by (intro lf_ok_goto [OF ok]) auto
    then show ?thesis by (auto simp: lf_inv_def)
  qed
  show ?thesis
  proof (cases x)
    case Start_Pop
    have "lf_head s \<in> set fs" if "lf_head s \<noteq> 0"
      using ok that hlist_nonnull [of "lf_head s" "lf_next s" fs] by (auto simp: lf_ok_def)
    with Start_Pop x stay [of "Pop_Head (lf_head s)"] assms(1) show ?thesis
      by (auto simp: holding_def split: if_splits)
  next
    case Read_Next
    with x(1) at stay show ?thesis by (auto simp: holding_def split: lf_point.splits)
  next
    case Pop_Exchange
    then obtain a b where a: "lf_at s t = Pop_Next a b" "lf_head s = a"
      "s' = goto t Idle (s\<lparr>lf_head := b, lf_own := (lf_own s)(t := insert a (lf_own s t))\<rparr>)"
      using x(1) by (auto split: lf_point.splits if_splits)
    from lf_ok_pop [OF ok a(1,2)] show ?thesis unfolding a(3) lf_inv_def by blast
  next
    case Pop_Retry
    with x(1) stay [of Idle] show ?thesis by (auto simp: holding_def split: lf_point.splits)
  next
    case (Start_Push a)
    then have a: "lf_at s t = Idle" "a \<in> lf_own s t"
      "s' = goto t (Push_Slot a) (s\<lparr>lf_own := (lf_own s)(t := lf_own s t - {a})\<rparr>)"
      using x(1) by (auto split: if_splits)
    have "lf_ok fs s'"
      unfolding a(3) by (rule lf_ok_goto [OF ok, where t = t and p = "Push_Slot a" and X = "lf_own s t - {a}"])
        (use a(1,2) in \<open>auto simp: holding_def\<close>)
    then show ?thesis by (auto simp: lf_inv_def)
  next
    case Read_Head
    with x(1) at stay show ?thesis by (auto simp: holding_def split: lf_point.splits)
  next
    case Store_Next
    then obtain a h where a: "lf_at s t = Push_Head a h"
      "s' = goto t (Push_Link a h) (s\<lparr>lf_next := (lf_next s)(a := h)\<rparr>)"
      using x(1) by (auto split: lf_point.splits)
    from lf_ok_link [OF ok a(1)] show ?thesis unfolding a(2) lf_inv_def by blast
  next
    case Push_Exchange
    then obtain a h where a: "lf_at s t = Push_Link a h" "lf_head s = h" "s' = goto t Idle (s\<lparr>lf_head := a\<rparr>)"
      using x(1) by (auto split: lf_point.splits if_splits)
    from lf_ok_push [OF ok a(1,2)] show ?thesis unfolding a(3) lf_inv_def by blast
  next
    case Push_Retry
    with x(1) at stay show ?thesis by (auto simp: holding_def split: lf_point.splits)
  qed
qed

interpretation single_popper: invariant_system lf_start lf_step1 lf_inv
proof
  show "lf_inv s" if "lf_start s" for s
  proof -
    from that obtain h n own fs where "s = lf_init h n own" "hlist n h fs"
      "\<forall>t. 0 \<notin> own t \<and> own t \<inter> set fs = {}" "\<forall>t u. t \<noteq> u \<longrightarrow> own t \<inter> own u = {}"
      by (auto simp: lf_start_def)
    then have "lf_ok fs s" by (simp add: lf_ok_def lf_init_def holding_def)
    then show ?thesis by (auto simp: lf_inv_def)
  qed
qed (rule lf_step1_inv)

lemma lf_run_steps:
  assumes "lf_run xs s = Some s'" and "\<forall>t. (t, Start_Pop) \<in> set xs \<longrightarrow> t = 0"
  shows "lf_step1\<^sup>*\<^sup>* s s'"
  using assms
proof (induction xs arbitrary: s)
  case (Cons x xs)
  obtain t op where x: "x = (t, op)" by fastforce
  with Cons.prems(1) obtain s1 where s1: "lf_exec t op s = Some s1" "lf_run xs s1 = Some s'" by (auto split: option.splits)
  have "lf_step1 s s1" using s1(1) Cons.prems(2) x by (auto simp: lf_step1_def)
  moreover have "lf_step1\<^sup>*\<^sup>* s1 s'" using Cons.IH [OF s1(2)] Cons.prems(2) by simp
  ultimately show ?case by (rule converse_rtranclp_into_rtranclp)
qed simp

text \<open>C18: With one popping thread the lock-free list is safe: from a list and slots that are apart, after every sequence
  of atomic steps (\<open>lf_exec\<close>) in which only thread 0 starts to pop, with the pushes of all threads interleaved, no slot is
  owned by two threads or both owned and in the free list.\<close>
theorem single_popper_safe:
  assumes "lf_start s" and "lf_run xs s = Some s'" and "\<forall>t. (t, Start_Pop) \<in> set xs \<longrightarrow> t = 0"
  shows "\<exists>fs. hlist (lf_next s') (lf_head s') fs \<and> (\<forall>t. lf_own s' t \<inter> set fs = {}) \<and>
    (\<forall>t u. t \<noteq> u \<longrightarrow> lf_own s' t \<inter> lf_own s' u = {})"
proof -
  from single_popper.reachable_inv [OF assms(1) lf_run_steps [OF assms(2,3)]] obtain fs where "lf_ok fs s'"
    by (auto simp: lf_inv_def)
  then show ?thesis unfolding lf_ok_def holding_def by blast
qed

text \<open>Thread 0 is about to pop 8 when thread 1 pushes 24; its exchange fails, and it pops 24 instead. Then thread 1 has
  nothing, thread 0 has 24, and the list is 8, 16.\<close>

theorem single_popper_safe_witness:
  "\<exists>s. lf_run [(0, Start_Pop), (1, Start_Push 24), (0, Read_Next), (1, Read_Head), (1, Store_Next), (1, Push_Exchange),
      (0, Pop_Retry), (0, Start_Pop), (0, Read_Next), (0, Pop_Exchange)]
      (lf_init 8 ((\<lambda>_. 0)(8 := 16)) (\<lambda>t. if t = 1 then {24} else {})) = Some s \<and>
    lf_own s 0 = {24} \<and> lf_own s 1 = {} \<and> lf_head s = 8 \<and>
    (\<exists>fs. hlist (lf_next s) 8 fs \<and> 24 \<notin> set fs)"
proof -
  let ?xs = "[(0, Start_Pop), (1, Start_Push 24), (0, Read_Next), (1, Read_Head), (1, Store_Next), (1, Push_Exchange),
      (0, Pop_Retry), (0, Start_Pop), (0, Read_Next), (0, Pop_Exchange)]"
  let ?s = "lf_init 8 ((\<lambda>_. 0)(8 := 16)) (\<lambda>t. if t = 1 then {24} else {})"
  have start: "lf_start ?s"
    unfolding lf_start_def
    by (intro exI [of _ 8] exI [of _ "(\<lambda>_. 0)(8 := 16)"] exI [of _ "\<lambda>t. if t = 1 then {24} else {}"]
        exI [of _ "[8, 16]"]) auto
  obtain s where s: "lf_run ?xs ?s = Some s" "lf_own s 0 = {24}" "lf_own s 1 = {}" "lf_head s = 8"
    by (simp add: lf_init_def)
  have "\<forall>t. (t, Start_Pop) \<in> set ?xs \<longrightarrow> t = 0" by simp
  from single_popper_safe [OF start s(1) this] obtain fs where
    "hlist (lf_next s) (lf_head s) fs" "lf_own s 0 \<inter> set fs = {}" by blast
  with s show ?thesis by (intro exI [of _ s] conjI exI [of _ fs]) simp_all
qed

end
