(* ===== verification/Algorithm_Sort.thy ===== *)
theory Algorithm_Sort
  imports Prelude
begin

text \<open>
  Quicksort of Algorithm/Sort.cpp on a \<open>vector<int>\<close> that is read and written through \<open>int\<close>
  indices; an access outside the vector is the error \<open>Undefined\<close>. The fuel bounds every loop and the
  depth of the recursion.
\<close>

section \<open>Partition\<close>

definition vswap :: "'a list \<Rightarrow> int \<Rightarrow> int \<Rightarrow> 'a list res" where
  "vswap xs i j =
     res_bind (res_of (vget xs i)) (\<lambda>a. res_bind (res_of (vget xs j)) (\<lambda>b.
       res_bind (res_of (vset xs i b)) (\<lambda>ys. res_of (vset ys j a))))"

fun move_down :: "nat \<Rightarrow> int list \<Rightarrow> int \<Rightarrow> int \<Rightarrow> int \<Rightarrow> int res" where
  "move_down 0 xs temp i j = Inl Diverges"
| "move_down (Suc n) xs temp i j =
     (if i < j then res_bind (res_of (vget xs j)) (\<lambda>v. if temp \<le> v then move_down n xs temp i (j - 1) else Inr j)
      else Inr j)"

fun move_up :: "nat \<Rightarrow> int list \<Rightarrow> int \<Rightarrow> int \<Rightarrow> int \<Rightarrow> int res" where
  "move_up 0 xs temp i j = Inl Diverges"
| "move_up (Suc n) xs temp i j =
     (if i < j then res_bind (res_of (vget xs i)) (\<lambda>v. if v \<le> temp then move_up n xs temp (i + 1) j else Inr i)
      else Inr i)"

fun partition_loop :: "nat \<Rightarrow> int \<Rightarrow> int \<Rightarrow> int \<Rightarrow> int list \<Rightarrow> (int \<times> int list) res" where
  "partition_loop 0 temp i j xs = Inl Diverges"
| "partition_loop (Suc n) temp i j xs =
     (if i < j then
        res_bind (move_down (Suc n) xs temp i j) (\<lambda>j.
        res_bind (move_up (Suc n) xs temp i j) (\<lambda>i.
        res_bind (if i < j then vswap xs i j else Inr xs) (\<lambda>xs.
          partition_loop n temp i j xs)))
      else Inr (i, xs))"

definition sort_partition :: "nat \<Rightarrow> int list \<Rightarrow> int \<Rightarrow> int \<Rightarrow> (int \<times> int list) res" where
  "sort_partition fuel xs left right =
     res_bind (res_of (vget xs left)) (\<lambda>temp.
     res_bind (partition_loop fuel temp left right xs) (\<lambda>(i, xs).
     res_bind (vswap xs left i) (\<lambda>xs. Inr (i, xs))))"

fun quick_sort :: "nat \<Rightarrow> int list \<Rightarrow> int \<Rightarrow> int \<Rightarrow> int list res" where
  "quick_sort 0 xs left right = Inl Diverges"
| "quick_sort (Suc n) xs left right =
     (if right \<le> left then Inr xs
      else res_bind (sort_partition (Suc n) xs left right) (\<lambda>(middle, xs).
           res_bind (quick_sort n xs left (middle - 1)) (\<lambda>xs. quick_sort n xs (middle + 1) right)))"

section \<open>The loops of \<open>partition\<close>\<close>

lemma vswap_ok:
  assumes "i < length xs" and "j < length xs"
  shows "vswap xs (int i) (int j) = Inr (xs[i := xs ! j, j := xs ! i])"
  using assms by (simp add: vswap_def vget_def vset_def)

lemma move_down_ok:
  assumes "i \<le> j" and "j < length xs" and "j - i < n"
  shows "\<exists>k. move_down n xs temp (int i) (int j) = Inr (int k) \<and> i \<le> k \<and> k \<le> j \<and>
    (\<forall>m. k < m \<and> m \<le> j \<longrightarrow> temp \<le> xs ! m) \<and> (i < k \<longrightarrow> xs ! k < temp)"
  using assms
proof (induction n arbitrary: j)
  case (Suc n)
  show ?case
  proof (cases "i < j \<and> temp \<le> xs ! j")
    case True
    with Suc.prems have "\<exists>k. move_down n xs temp (int i) (int (j - 1)) = Inr (int k) \<and> i \<le> k \<and> k \<le> j - 1 \<and>
      (\<forall>m. k < m \<and> m \<le> j - 1 \<longrightarrow> temp \<le> xs ! m) \<and> (i < k \<longrightarrow> xs ! k < temp)"
      by (intro Suc.IH) auto
    then obtain k where k: "move_down n xs temp (int i) (int (j - 1)) = Inr (int k)" "i \<le> k" "k \<le> j - 1"
      "\<And>m. k < m \<Longrightarrow> m \<le> j - 1 \<Longrightarrow> temp \<le> xs ! m" "i < k \<longrightarrow> xs ! k < temp" by blast
    have "temp \<le> xs ! m" if "k < m" "m \<le> j" for m using that k(4) [of m] True by (cases "m = j") auto
    moreover have "int j - 1 = int (j - 1)" using True by simp
    ultimately show ?thesis using k True Suc.prems(2) by (intro exI [of _ k]) simp
  next
    case False
    with Suc.prems show ?thesis by (intro exI [of _ j]) auto
  qed
qed simp

lemma move_up_ok:
  assumes "i \<le> j" and "j < length xs" and "j - i < n"
  shows "\<exists>k. move_up n xs temp (int i) (int j) = Inr (int k) \<and> i \<le> k \<and> k \<le> j \<and>
    (\<forall>m. i \<le> m \<and> m < k \<longrightarrow> xs ! m \<le> temp) \<and> (k < j \<longrightarrow> temp < xs ! k)"
  using assms
proof (induction n arbitrary: i)
  case (Suc n)
  show ?case
  proof (cases "i < j \<and> xs ! i \<le> temp")
    case True
    with Suc.prems have "\<exists>k. move_up n xs temp (int (Suc i)) (int j) = Inr (int k) \<and> Suc i \<le> k \<and> k \<le> j \<and>
      (\<forall>m. Suc i \<le> m \<and> m < k \<longrightarrow> xs ! m \<le> temp) \<and> (k < j \<longrightarrow> temp < xs ! k)"
      by (intro Suc.IH) auto
    then obtain k where k: "move_up n xs temp (int (Suc i)) (int j) = Inr (int k)" "Suc i \<le> k" "k \<le> j"
      "\<And>m. Suc i \<le> m \<Longrightarrow> m < k \<Longrightarrow> xs ! m \<le> temp" "k < j \<longrightarrow> temp < xs ! k" by blast
    have "xs ! m \<le> temp" if "i \<le> m" "m < k" for m using that k(4) [of m] True by (cases "m = i") auto
    moreover have "move_up n xs temp (int i + 1) (int j) = Inr (int k)" using k(1) by (simp add: add.commute)
    ultimately show ?thesis using k True Suc.prems(2) by (intro exI [of _ k]) simp
  next
    case False
    with Suc.prems show ?thesis by (intro exI [of _ i]) auto
  qed
qed simp

text \<open>\<open>same_outside xs ys l r\<close>: a rearrangement of \<open>xs\<close> that moves nothing outside \<open>l\<close> to \<open>r\<close>.\<close>

definition same_outside :: "'a list \<Rightarrow> 'a list \<Rightarrow> nat \<Rightarrow> nat \<Rightarrow> bool" where
  "same_outside xs ys l r \<longleftrightarrow> mset ys = mset xs \<and> length ys = length xs \<and> (\<forall>m. m < l \<or> r < m \<longrightarrow> ys ! m = xs ! m)"

lemma same_outside_refl [simp]: "same_outside xs xs l r"
  by (simp add: same_outside_def)

lemma same_outside_trans:
  "same_outside xs ys l r \<Longrightarrow> same_outside ys zs l' r' \<Longrightarrow> l \<le> l' \<Longrightarrow> r' \<le> r \<Longrightarrow> same_outside xs zs l r"
  by (auto simp: same_outside_def)

lemma same_outside_swap:
  "l \<le> i \<Longrightarrow> i \<le> r \<Longrightarrow> l \<le> j \<Longrightarrow> j \<le> r \<Longrightarrow> r < length xs \<Longrightarrow> same_outside xs (xs[i := xs ! j, j := xs ! i]) l r"
  by (auto simp: same_outside_def mset_swap nth_list_update)

lemma partition_loop_ok:
  assumes "l \<le> i" and "i \<le> j" and "j \<le> r" and "r < length xs" and "j - i < n"
    and "\<forall>m. l \<le> m \<and> m < i \<longrightarrow> xs ! m \<le> temp" and "\<forall>m. j < m \<and> m \<le> r \<longrightarrow> temp \<le> xs ! m"
    and "xs ! l = temp" and "xs ! i \<le> temp"
  shows "\<exists>k ys. partition_loop n temp (int i) (int j) xs = Inr (int k, ys) \<and> i \<le> k \<and> k \<le> j \<and>
    same_outside xs ys l r \<and> (\<forall>m. l \<le> m \<and> m \<le> k \<longrightarrow> ys ! m \<le> temp) \<and>
    (\<forall>m. k < m \<and> m \<le> r \<longrightarrow> temp \<le> ys ! m) \<and> ys ! l = temp"
  using assms
proof (induction n arbitrary: i j xs)
  case (Suc n)
  show ?case
  proof (cases "i < j")
    case False
    with Suc.prems show ?thesis by (intro exI [of _ i] exI [of _ xs]) (auto simp: le_less)
  next
    case True
    have jlen: "j < length xs" using Suc.prems by simp
    obtain j' where j': "move_down (Suc n) xs temp (int i) (int j) = Inr (int j')" "i \<le> j'" "j' \<le> j"
      "\<And>m. j' < m \<Longrightarrow> m \<le> j \<Longrightarrow> temp \<le> xs ! m" "i < j' \<Longrightarrow> xs ! j' < temp"
      using move_down_ok [OF Suc.prems(2) jlen Suc.prems(5)] by blast
    have lens: "j' < length xs" "j' - i < Suc n" using j'(3) jlen Suc.prems(5) by simp_all
    obtain i' where i': "move_up (Suc n) xs temp (int i) (int j') = Inr (int i')" "i \<le> i'" "i' \<le> j'"
      "\<And>m. i \<le> m \<Longrightarrow> m < i' \<Longrightarrow> xs ! m \<le> temp" "i' < j' \<Longrightarrow> temp < xs ! i'"
      using move_up_ok [OF j'(2) lens] by blast
    have low: "xs ! m \<le> temp" if "l \<le> m" "m < i'" for m using that i'(4) Suc.prems(6) by (cases "m < i") auto
    have high: "temp \<le> xs ! m" if "j' < m" "m \<le> r" for m using that j'(4) Suc.prems(7) by (cases "m \<le> j") auto
    show ?thesis
    proof (cases "i' < j'")
      case False
      then have eq: "i' = j'" using i'(3) by simp
      have at: "xs ! i' \<le> temp"
      proof (cases "i < j'")
        case True
        then show ?thesis using j'(5) eq by simp
      next
        case False
        then have "i' = i" using eq j'(2) by simp
        then show ?thesis using Suc.prems(9) by simp
      qed
      have "partition_loop n temp (int i') (int j') xs = Inr (int i', xs)"
        using eq Suc.prems(5) True by (cases n) auto
      then have "partition_loop (Suc n) temp (int i) (int j) xs = Inr (int i', xs)"
        using True i'(1) j'(1) eq by (simp del: move_down.simps move_up.simps)
      moreover have "\<forall>m. l \<le> m \<and> m \<le> i' \<longrightarrow> xs ! m \<le> temp" using low at by (auto simp: le_less)
      ultimately show ?thesis using high eq i'(2) j'(3) Suc.prems(8) by auto
    next
      case lt: True
      let ?ys = "xs[i' := xs ! j', j' := xs ! i']"
      have idx: "i' < length xs" "j' < length xs" using lt lens by simp_all
      have "i' \<noteq> i" using i'(5) [OF lt] Suc.prems(9) by auto
      then have adv: "i < i'" and i_l: "l < i'" using i'(2) Suc.prems(1) by simp_all
      have vals: "?ys ! i' < temp" "temp < ?ys ! j'"
        using idx lt j'(5) i'(2,5) by (auto simp: nth_list_update)
      have "\<exists>k zs. partition_loop n temp (int i') (int j') ?ys = Inr (int k, zs) \<and> i' \<le> k \<and> k \<le> j' \<and>
        same_outside ?ys zs l r \<and> (\<forall>m. l \<le> m \<and> m \<le> k \<longrightarrow> zs ! m \<le> temp) \<and>
        (\<forall>m. k < m \<and> m \<le> r \<longrightarrow> temp \<le> zs ! m) \<and> zs ! l = temp"
      proof (rule Suc.IH)
        show "\<forall>m. l \<le> m \<and> m < i' \<longrightarrow> ?ys ! m \<le> temp" using low lt by (auto simp: nth_list_update)
        show "\<forall>m. j' < m \<and> m \<le> r \<longrightarrow> temp \<le> ?ys ! m" using high lt by (auto simp: nth_list_update)
        show "?ys ! l = temp" using i_l lt Suc.prems(8) by simp
        show "j' - i' < n"
          using Suc.prems(5) lt adv j'(3) by simp
      qed (use lt i'(2) j'(3) Suc.prems vals idx i_l in auto)
      moreover have "partition_loop (Suc n) temp (int i) (int j) xs = partition_loop n temp (int i') (int j') ?ys"
        using True i'(1) j'(1) lt vswap_ok [OF idx] by (simp del: move_down.simps move_up.simps)
      moreover have "same_outside xs ?ys l r"
        using i'(2) j'(3) lt Suc.prems by (intro same_outside_swap) auto
      ultimately show ?thesis using i'(2) j'(3) same_outside_trans [of xs ?ys l r] by fastforce
    qed
  qed
qed simp

section \<open>Sorting\<close>

definition part_at :: "int list \<Rightarrow> nat \<Rightarrow> nat \<Rightarrow> nat \<Rightarrow> bool" where
  "part_at ys l k r \<longleftrightarrow> (\<forall>m. l \<le> m \<and> m < k \<longrightarrow> ys ! m \<le> ys ! k) \<and> (\<forall>m. k < m \<and> m \<le> r \<longrightarrow> ys ! k \<le> ys ! m)"

lemma sort_partition_ok:
  assumes "l \<le> r" and "r < length xs" and "r - l < n"
  shows "\<exists>k ys. sort_partition n xs (int l) (int r) = Inr (int k, ys) \<and> l \<le> k \<and> k \<le> r \<and>
    same_outside xs ys l r \<and> part_at ys l k r"
proof -
  obtain k ys where k: "partition_loop n (xs ! l) (int l) (int r) xs = Inr (int k, ys)" "l \<le> k" "k \<le> r"
    "same_outside xs ys l r" "\<And>m. l \<le> m \<Longrightarrow> m \<le> k \<Longrightarrow> ys ! m \<le> xs ! l"
    "\<And>m. k < m \<Longrightarrow> m \<le> r \<Longrightarrow> xs ! l \<le> ys ! m" "ys ! l = xs ! l"
    using partition_loop_ok [of l l r r xs n "xs ! l"] assms by auto
  let ?zs = "ys[l := ys ! k, k := ys ! l]"
  have len: "l < length ys" "k < length ys" "r < length ys" using k(2-4) assms(2) by (simp_all add: same_outside_def)
  have run: "sort_partition n xs (int l) (int r) = Inr (int k, ?zs)"
    using assms k(1) vswap_ok [OF len(1,2)] by (simp add: sort_partition_def)
  have zk: "?zs ! k = xs ! l" using len k(7) by simp
  have "?zs ! m \<le> xs ! l" if "l \<le> m" "m < k" for m
    using that k(5) [of k] k(5) [of m] k(2) len by (cases "m = l") auto
  moreover have "xs ! l \<le> ?zs ! m" if "k < m" "m \<le> r" for m
    using that k(2) k(6) [of m] by simp
  ultimately have "part_at ?zs l k r" unfolding part_at_def zk by blast
  moreover have "same_outside xs ?zs l r"
    using same_outside_trans [OF k(4) same_outside_swap [of l l r k ys]] k(2,3) len assms(1) by auto
  ultimately show ?thesis using run k(2,3) by blast
qed

definition sorted_range :: "int list \<Rightarrow> nat \<Rightarrow> nat \<Rightarrow> bool" where
  "sorted_range xs l r \<longleftrightarrow> (\<forall>i j. l \<le> i \<and> i < j \<and> j \<le> r \<longrightarrow> xs ! i \<le> xs ! j)"

text \<open>A rearrangement inside a range keeps what all its elements satisfy.\<close>

lemma same_outside_all:
  assumes "same_outside xs ys l r" and "r < length xs" and "\<And>m. l \<le> m \<Longrightarrow> m \<le> r \<Longrightarrow> P (xs ! m)"
    and "l \<le> m" and "m \<le> r"
  shows "P (ys ! m)"
proof -
  have len: "length ys = length xs" using assms(1) by (simp add: same_outside_def)
  have split: "zs = take l zs @ take (Suc r - l) (drop l zs) @ drop (Suc r) zs" for zs :: "'a list"
  proof -
    have "drop l zs = take (Suc r - l) (drop l zs) @ drop (Suc r - l) (drop l zs)"
      by (rule append_take_drop_id [symmetric])
    moreover have "drop (Suc r - l) (drop l zs) = drop (Suc r) zs" using assms(4,5) by simp
    ultimately show ?thesis by (metis append_take_drop_id)
  qed
  have "take l ys = take l xs" "drop (Suc r) ys = drop (Suc r) xs"
    using assms(1,2,4,5) len by (auto simp: same_outside_def intro!: nth_equalityI)
  with assms(1) have "mset (take (Suc r - l) (drop l ys)) = mset (take (Suc r - l) (drop l xs))"
    using arg_cong [OF split [of xs], of mset] arg_cong [OF split [of ys], of mset]
    by (simp add: same_outside_def)
  moreover have "ys ! m \<in> set (take (Suc r - l) (drop l ys))"
    using assms(2,4,5) len by (auto simp: in_set_conv_nth intro!: exI [of _ "m - l"])
  ultimately have "ys ! m \<in> set (take (Suc r - l) (drop l xs))" by (metis set_mset_mset)
  then obtain j where "j < Suc r - l" "ys ! m = xs ! (l + j)" using assms(2) by (auto simp: in_set_conv_nth)
  with assms(3) [of "l + j"] show ?thesis by simp
qed

lemma quick_sort_ok:
  assumes "r < int (length xs)" and "0 \<le> l" and "r - l + 1 < int n" and "0 < n"
  shows "\<exists>ys. quick_sort n xs l r = Inr ys \<and> same_outside xs ys (nat l) (nat r) \<and>
    (l \<le> r \<longrightarrow> sorted_range ys (nat l) (nat r)) \<and> (r \<le> l \<longrightarrow> ys = xs)"
  using assms
proof (induction n arbitrary: xs l r)
  case (Suc n)
  show ?case
  proof (cases "r \<le> l")
    case True
    then show ?thesis by (auto simp: sorted_range_def)
  next
    case False
    let ?l = "nat l" and ?r = "nat r"
    have lr: "?l \<le> ?r" "?r < length xs" "?r - ?l < Suc n" "l = int ?l" "r = int ?r" using False Suc.prems by auto
    obtain k ys where k: "sort_partition (Suc n) xs l r = Inr (int k, ys)" "?l \<le> k" "k \<le> ?r"
      "same_outside xs ys ?l ?r" "part_at ys ?l k ?r"
      using sort_partition_ok [OF lr(1-3)] lr(4,5) by metis
    have len: "length ys = length xs" using k(4) by (simp add: same_outside_def)
    have n0: "0 < n" using Suc.prems(3) False by simp
    obtain zs where z: "quick_sort n ys l (int k - 1) = Inr zs" "same_outside ys zs ?l (nat (int k - 1))"
      "l \<le> int k - 1 \<longrightarrow> sorted_range zs ?l (nat (int k - 1))" "int k - 1 \<le> l \<longrightarrow> zs = ys"
      using Suc.IH [of "int k - 1" ys l] Suc.prems False k(2,3) len n0 by fastforce
    have z': "same_outside ys zs ?l (k - 1)"
      using z(2,4) k(2) lr(4) by (cases "k = 0") (auto simp: nat_diff_distrib)
    have len2: "length zs = length xs" using z' len by (simp add: same_outside_def)
    obtain us where u: "quick_sort n zs (int k + 1) r = Inr us" "same_outside zs us (nat (int k + 1)) ?r"
      "int k + 1 \<le> r \<longrightarrow> sorted_range us (nat (int k + 1)) ?r" "r \<le> int k + 1 \<longrightarrow> us = zs"
      using Suc.IH [of r zs "int k + 1"] Suc.prems False k(2,3) len2 n0 lr by fastforce
    have u': "same_outside zs us (Suc k) ?r" using u(2) by (simp add: nat_add_distrib)
    have run: "quick_sort (Suc n) xs l r = Inr us" using False k(1) z(1) u(1) by simp
    have zk: "zs ! k = ys ! k"
    proof (cases "k = 0")
      case True
      then have "zs = ys" using z(4) Suc.prems(2) by simp
      then show ?thesis by simp
    next
      case False
      with z' show ?thesis by (simp add: same_outside_def)
    qed
    have uk: "us ! m = zs ! m" if "m \<le> k" for m using u' that by (simp add: same_outside_def)
    have zm: "zs ! m = ys ! m" if "k < m" for m using z' that by (auto simp: same_outside_def)
    have low: "zs ! m \<le> ys ! k" if "?l \<le> m" "m < k" for m
    proof (rule same_outside_all [OF z'])
      show "k - 1 < length ys" using k(3) lr(2) len by simp
    qed (use that k(5) in \<open>auto simp: part_at_def\<close>)
    have high: "ys ! k \<le> us ! m" if "k < m" "m \<le> ?r" for m
    proof (rule same_outside_all [OF u'])
      show "?r < length zs" using lr(2) len2 by simp
    qed (use that k(5) zm in \<open>auto simp: part_at_def\<close>)
    have left: "us ! i \<le> us ! j" if "?l \<le> i" "i < j" "j < k" for i j
    proof -
      have "sorted_range zs ?l (k - 1)" using z(3) that Suc.prems(2) by (auto simp: nat_diff_distrib)
      with that uk [of i] uk [of j] show ?thesis by (auto simp: sorted_range_def)
    qed
    have right: "us ! i \<le> us ! j" if "k < i" "i < j" "j \<le> ?r" for i j
    proof -
      have "sorted_range us (Suc k) ?r" using u(3) that lr by (auto simp: nat_add_distrib)
      with that show ?thesis by (auto simp: sorted_range_def)
    qed
    have "us ! i \<le> us ! j" if "?l \<le> i" "i < j" "j \<le> ?r" for i j
    proof -
      consider "j < k" | "j = k" | "k < i" | "i = k" | "i < k" "k < j" using that(2) by linarith
      then show ?thesis
      proof cases
        case 1
        with left that show ?thesis by simp
      next
        case 2
        with low [of i] uk [of i] uk [of k] zk that show ?thesis by simp
      next
        case 3
        with right that show ?thesis by simp
      next
        case 4
        with high [of j] uk [of k] zk that show ?thesis by simp
      next
        case 5
        with low [of i] high [of j] uk [of i] that show ?thesis by simp
      qed
    qed
    then have "sorted_range us ?l ?r" by (simp add: sorted_range_def)
    moreover have "same_outside xs us ?l ?r"
      using same_outside_trans [OF same_outside_trans [OF k(4) z'] u'] k(2,3) by simp
    ultimately show ?thesis using run False by blast
  qed
qed simp

text \<open>C22: Quicksort sorts: called as in \<open>main\<close>, on the whole vector, it returns (fuel of the length plus
  two is enough), never reads outside the vector, and leaves a sorted rearrangement.\<close>
theorem quick_sort_sorts:
  "\<exists>ys. quick_sort (length xs + 2) xs 0 (int (length xs) - 1) = Inr ys \<and> sorted ys \<and> mset ys = mset xs"
proof -
  obtain ys where ys: "quick_sort (length xs + 2) xs 0 (int (length xs) - 1) = Inr ys"
    "same_outside xs ys 0 (nat (int (length xs) - 1))"
    "0 \<le> int (length xs) - 1 \<longrightarrow> sorted_range ys 0 (nat (int (length xs) - 1))"
    using quick_sort_ok [of "int (length xs) - 1" xs 0 "length xs + 2"] by auto
  have len: "length ys = length xs" using ys(2) by (simp add: same_outside_def)
  have "sorted ys"
  proof (cases xs)
    case Nil
    with len show ?thesis by simp
  next
    case (Cons x xs')
    then have "sorted_range ys 0 (length xs - 1)" using ys(3) by (simp add: nat_diff_distrib)
    with len show ?thesis by (auto simp: sorted_range_def sorted_wrt_iff_nth_less)
  qed
  with ys show ?thesis by (auto simp: same_outside_def)
qed

end
