(* ===== verification/Algorithm_Arrays.thy ===== *)
theory Algorithm_Arrays
  imports Prelude
begin

text \<open>
  The array algorithms of Algorithm/LinkedList.cpp (removeDulpicates, twoSum, reverseString,
  isPalindrome), Algorithm/Array.cpp and Algorithm/greedy.cpp, with every access checked.
\<close>

section \<open>\<open>removeDulpicates\<close> of an array\<close>

definition dedup_step :: "nat \<Rightarrow> nat \<times> 'a list \<Rightarrow> (nat \<times> 'a list) res" where
  "dedup_step j s = (case s of (i, xs) \<Rightarrow>
     res_bind (vat xs j) (\<lambda>a. res_bind (vat xs i) (\<lambda>b.
       if a \<noteq> b then res_bind (vput xs (Suc i) a) (\<lambda>ys. Inr (Suc i, ys)) else Inr (i, xs))))"

definition removeDuplicates :: "'a list \<Rightarrow> (nat \<times> 'a list) res" where
  "removeDuplicates xs =
     (if xs = [] then Inr (0, xs)
      else res_bind (for_each [0..<length xs] dedup_step (0, xs)) (\<lambda>(i, ys). Inr (i + 1, ys)))"

text \<open>Removing adjacent duplicates: \<open>removeDulpicates\<close> returns a count and leaves, in so many first
  elements, the array without elements that equal their predecessor; of a sorted array these are its
  values without repetition.\<close>

lemma removeDuplicates_correct:
  "\<exists>k ys. removeDuplicates xs = Inr (k, ys) \<and> k = length (remdups_adj xs) \<and> take k ys = remdups_adj xs
    \<and> length ys = length xs"
proof (cases xs)
  case Nil
  then show ?thesis by (simp add: removeDuplicates_def)
next
  case (Cons x xs')
  define I where "I = (\<lambda>j (i, ys). length ys = length xs \<and> i < length xs \<and> (0 < j \<longrightarrow> i < j) \<and>
    (\<forall>m. j \<le> m \<and> m < length xs \<longrightarrow> ys ! m = xs ! m) \<and>
    (if j = 0 then i = 0 else take (Suc i) ys = remdups_adj (take j xs)))"
  have "\<exists>s. for_each [0..<length xs] dedup_step (0, xs) = Inr s \<and> I (length xs) s"
  proof (rule for_each_inv)
    show "I 0 (0, xs)" using Cons by (simp add: I_def)
    fix j s
    assume j: "j < length xs" and I: "I j s"
    obtain i ys where s: "s = (i, ys)" by fastforce
    have ys: "length ys = length xs" "i < length xs" "0 < j \<Longrightarrow> i < j" "ys ! j = xs ! j"
      "\<And>m. j \<le> m \<Longrightarrow> m < length xs \<Longrightarrow> ys ! m = xs ! m"
      using I j by (auto simp: I_def s)
    show "\<exists>s'. dedup_step j s = Inr s' \<and> I (Suc j) s'"
    proof (cases j)
      case 0
      then have "i = 0" using I by (simp add: I_def s)
      moreover have "xs \<noteq> []" using Cons by simp
      moreover have "ys ! 0 = xs ! 0" "ys \<noteq> []" using ys 0 Cons by auto
      ultimately show ?thesis using 0 ys j Cons
        by (simp add: dedup_step_def s I_def take_Suc hd_conv_nth)
    next
      case (Suc n)
      have ij: "i < j" using ys(3) Suc by simp
      have pre: "take (Suc i) ys = remdups_adj (take j xs)" using I Suc by (simp add: I_def s)
      have t1: "take j xs = take n xs @ [xs ! n]" "take (Suc j) xs = take n xs @ [xs ! n, xs ! j]"
        using j Suc by (simp_all add: take_Suc_conv_app_nth)
      have "last (take (Suc i) ys) = ys ! i" using ys(1,2) by (simp add: take_Suc_conv_app_nth)
      then have last: "ys ! i = xs ! n" using pre t1(1) by simp
      have rem: "remdups_adj (take (Suc j) xs) = remdups_adj (take j xs) @ (if xs ! n = xs ! j then [] else [xs ! j])"
        unfolding t1 by (rule remdups_adj_append_two)
      show ?thesis
      proof (cases "xs ! j = xs ! n")
        case True
        with ys j rem pre last ij show ?thesis by (simp add: dedup_step_def s I_def)
      next
        case False
        have "take (Suc (Suc i)) (ys[Suc i := xs ! j]) = take (Suc i) ys @ [xs ! j]"
          using ys(1) ij j by (simp add: take_Suc_conv_app_nth)
        with False ys j rem pre last ij show ?thesis by (simp add: dedup_step_def s I_def nth_list_update)
      qed
    qed
  qed simp
  then obtain i ys where r: "for_each [0..<length xs] dedup_step (0, xs) = Inr (i, ys)" "I (length xs) (i, ys)" by auto
  then have "take (Suc i) ys = remdups_adj xs" "length ys = length xs" "i < length xs" using Cons by (simp_all add: I_def)
  moreover from this have "length (remdups_adj xs) = Suc i" by (metis Suc_leI length_take min.absorb2)
  ultimately show ?thesis using r Cons by (simp add: removeDuplicates_def del: remdups_adj.simps)
qed

section \<open>Two pointers\<close>

text \<open>The sum of two \<open>int\<close>s that overflows is undefined.\<close>

definition int_add :: "int \<Rightarrow> int \<Rightarrow> int res" where
  "int_add a b = (if int32 (a + b) then Inr (a + b) else Inl Undefined)"

fun twoSum_loop :: "nat \<Rightarrow> int list \<Rightarrow> int \<Rightarrow> int \<Rightarrow> int \<Rightarrow> (int \<times> int) res" where
  "twoSum_loop 0 nums tgt left right = Inl Diverges"
| "twoSum_loop (Suc n) nums tgt left right =
     (if left < right then
        res_bind (res_of (vget nums left)) (\<lambda>a. res_bind (res_of (vget nums right)) (\<lambda>b.
        res_bind (int_add a b) (\<lambda>sum.
          if sum = tgt then Inr (left, right)
          else if sum < tgt then twoSum_loop n nums tgt (left + 1) right
          else twoSum_loop n nums tgt left (right - 1))))
      else Inr (-1, -1))"

definition twoSum :: "int list \<Rightarrow> int \<Rightarrow> (int \<times> int) res" where
  "twoSum nums tgt = twoSum_loop (length nums + 1) nums tgt 0 (int (length nums) - 1)"

definition pair_sum :: "int list \<Rightarrow> int \<Rightarrow> nat \<Rightarrow> nat \<Rightarrow> bool" where
  "pair_sum nums tgt i j \<longleftrightarrow> i < j \<and> j < length nums \<and> nums ! i + nums ! j = tgt"

lemmas twoSum_loop_step = twoSum_loop.simps(2)

declare twoSum_loop.simps(2) [simp del]

lemma twoSum_loop_ok:
  assumes "sorted nums" and "\<forall>i j. i < length nums \<longrightarrow> j < length nums \<longrightarrow> int32 (nums ! i + nums ! j)"
    and "r \<le> int (length nums) - 1" and "0 \<le> l" and "r - l < int n" and "0 < n" and "l \<le> r + 1"
    and "\<forall>i j. pair_sum nums tgt i j \<longrightarrow> l \<le> int i \<and> int j \<le> r"
  shows "(\<exists>i j. twoSum_loop n nums tgt l r = Inr (int i, int j) \<and> pair_sum nums tgt i j) \<or>
    twoSum_loop n nums tgt l r = Inr (-1, -1) \<and> (\<forall>i j. \<not> pair_sum nums tgt i j)"
  using assms(3-)
proof (induction n arbitrary: l r)
  case (Suc n)
  show ?case
  proof (cases "l < r")
    case False
    have "\<not> pair_sum nums tgt i j" for i j
      using Suc.prems(6) [rule_format, of i j] False by (auto simp: pair_sum_def)
    with False show ?thesis by (simp add: twoSum_loop_step)
  next
    case True
    define a b where "a = nat l" and "b = nat r"
    have ab: "l = int a" "r = int b" "a < b" "b < length nums" using True Suc.prems by (simp_all add: a_def b_def)
    have n0: "0 < n" "int b - int a < int n + 1" using Suc.prems(3) ab by simp_all
    have step: "twoSum_loop (Suc n) nums tgt l r =
      (if nums ! a + nums ! b = tgt then Inr (l, r)
       else if nums ! a + nums ! b < tgt then twoSum_loop n nums tgt (l + 1) r else twoSum_loop n nums tgt l (r - 1))"
      using True ab assms(2) by (simp add: twoSum_loop_step int_add_def)
    consider (eq) "nums ! a + nums ! b = tgt" | (less) "nums ! a + nums ! b < tgt" | (greater) "tgt < nums ! a + nums ! b"
      by linarith
    then show ?thesis
    proof cases
      case eq
      with step ab show ?thesis by (auto simp: pair_sum_def)
    next
      case less
      have "l + 1 \<le> int i \<and> int j \<le> r" if p: "pair_sum nums tgt i j" for i j
      proof -
        have ij: "l \<le> int i" "int j \<le> r" using Suc.prems(6) p by auto
        have "i \<noteq> a"
        proof
          assume "i = a"
          moreover have "nums ! j \<le> nums ! b" using assms(1) ij(2) ab by (intro sorted_nth_mono) auto
          ultimately show False using p less by (simp add: pair_sum_def)
        qed
        with ij ab show ?thesis by simp
      qed
      then show ?thesis using Suc.IH [of r "l + 1"] Suc.prems step less n0 True by auto
    next
      case greater
      have "l \<le> int i \<and> int j \<le> r - 1" if p: "pair_sum nums tgt i j" for i j
      proof -
        have ij: "l \<le> int i" "int j \<le> r" using Suc.prems(6) p by auto
        have "j \<noteq> b"
        proof
          assume "j = b"
          moreover have "nums ! a \<le> nums ! i" using assms(1) ij(1) ab p by (intro sorted_nth_mono) (auto simp: pair_sum_def)
          ultimately show False using p greater by (simp add: pair_sum_def)
        qed
        with ij ab show ?thesis by simp
      qed
      then show ?thesis using Suc.IH [of "r - 1" l] Suc.prems step greater n0 True by auto
    qed
  qed
qed simp

text \<open>Two-sum: on a sorted array whose pairwise sums fit an \<open>int\<close>, \<open>twoSum\<close> returns (the loop runs at
  most as often as there are elements) the indices of a pair with the sum asked for, or \<open>-1, -1\<close> when
  there is no such pair.\<close>

lemma twoSum_correct:
  assumes "sorted nums" and "\<forall>i j. i < length nums \<longrightarrow> j < length nums \<longrightarrow> int32 (nums ! i + nums ! j)"
  shows "(\<exists>i j. twoSum nums tgt = Inr (int i, int j) \<and> i < j \<and> j < length nums \<and> nums ! i + nums ! j = tgt) \<or>
    twoSum nums tgt = Inr (-1, -1) \<and> (\<forall>i j. \<not> (i < j \<and> j < length nums \<and> nums ! i + nums ! j = tgt))"
  using twoSum_loop_ok [OF assms, of "int (length nums) - 1" 0 "length nums + 1" tgt]
  unfolding twoSum_def pair_sum_def by auto

lemma twoSum_correct_witness:
  "twoSum [1, 3, 4, 8] 7 = Inr (1, 2)"
proof -
  have "\<forall>i j. i < length [1, 3, 4, 8 :: int] \<longrightarrow> j < length [1, 3, 4, 8 :: int] \<longrightarrow>
      int32 ([1, 3, 4, 8] ! i + [1, 3, 4, 8] ! j)"
    by (auto simp: int32_def less_Suc_eq numeral_eq_Suc)
  from twoSum_correct [OF _ this, of 7] show ?thesis
    by (simp add: twoSum_def twoSum_loop_step int_add_def int32_def vget_def)
qed

fun reverse_loop :: "nat \<Rightarrow> 'a list \<Rightarrow> int \<Rightarrow> int \<Rightarrow> 'a list res" where
  "reverse_loop 0 s left right = Inl Diverges"
| "reverse_loop (Suc n) s left right =
     (if left < right then
        res_bind (res_of (vget s left)) (\<lambda>a. res_bind (res_of (vget s right)) (\<lambda>b.
        res_bind (res_of (vset s left b)) (\<lambda>s. res_bind (res_of (vset s right a)) (\<lambda>s.
          reverse_loop n s (left + 1) (right - 1)))))
      else Inr s)"

definition reverseString :: "'a list \<Rightarrow> 'a list res" where
  "reverseString s = reverse_loop (length s + 1) s 0 (int (length s) - 1)"

fun palindrome_loop :: "nat \<Rightarrow> string \<Rightarrow> int \<Rightarrow> int \<Rightarrow> bool res" where
  "palindrome_loop 0 s left right = Inl Diverges"
| "palindrome_loop (Suc n) s left right =
     (if left < right then
        res_bind (res_of (vget s left)) (\<lambda>a. res_bind (res_of (vget s right)) (\<lambda>b.
          if a \<noteq> b then Inr False else palindrome_loop n s (left + 1) (right - 1)))
      else Inr True)"

definition isPalindrome :: "string \<Rightarrow> bool res" where
  "isPalindrome s = palindrome_loop (length s + 1) s 0 (int (length s) - 1)"

lemma palindrome_loop_ok:
  assumes "l + r + 1 = length s" and "length s < n + l" and "l \<le> r + 1" and "\<forall>i < l. s ! i = s ! (length s - 1 - i)"
  shows "palindrome_loop n s (int l) (int r) = Inr (s = rev s)"
  using assms
proof (induction n arbitrary: l r)
  case (Suc n)
  show ?case
  proof (cases "l < r")
    case False
    have "s ! i = s ! (length s - 1 - i)" if "i < length s" for i
    proof -
      have "i < l \<or> length s - 1 - i < l \<or> i = l \<and> r = l" using that False Suc.prems(1,3) by arith
      then consider "i < l" | "length s - 1 - i < l" | "i = l" "r = l" by blast
      then show ?thesis
      proof cases
        case 2
        then have "s ! (length s - 1 - i) = s ! (length s - 1 - (length s - 1 - i))" using Suc.prems(4) by blast
        with that show ?thesis by simp
      next
        case 3
        then have "length s - 1 - i = i" using Suc.prems(1) by arith
        then show ?thesis by simp
      qed (use Suc.prems in auto)
    qed
    then have "s ! i = rev s ! i" if "i < length s" for i
      using that by (metis rev_nth diff_Suc_eq_diff_pred)
    then have "s = rev s" by (intro nth_equalityI) simp_all
    then have "(s = rev s) = True" by (rule eqTrueI)
    then show ?thesis using False by (simp only: palindrome_loop.simps of_nat_less_iff if_False)
  next
    case True
    have idx: "l < length s" "r < length s" "r = length s - 1 - l" using True Suc.prems(1) by simp_all
    show ?thesis
    proof (cases "s ! l = s ! r")
      case eq: True
      have "palindrome_loop n s (int (Suc l)) (int (r - 1)) = Inr (s = rev s)"
        by (rule Suc.IH) (use True eq idx Suc.prems in \<open>auto simp: less_Suc_eq\<close>)
      moreover have "int (Suc l) = int l + 1" "int (r - 1) = int r - 1" using True by simp_all
      moreover have "palindrome_loop (Suc n) s (int l) (int r) = palindrome_loop n s (int l + 1) (int r - 1)"
        using True idx(1,2) eq by simp
      ultimately show ?thesis by (simp only:)
    next
      case False
      have "rev s ! l = s ! r" using idx by (simp add: rev_nth)
      with False have "s \<noteq> rev s" by auto
      moreover have "palindrome_loop (Suc n) s (int l) (int r) = Inr False" using False True idx(1,2) by simp
      ultimately show ?thesis by simp
    qed
  qed
qed simp

lemma reverse_loop_ok:
  assumes "l + r + 1 = length s0" and "length s0 < n + l" and "l \<le> r + 1" and "length s = length s0"
    and "\<forall>i < length s0. s ! i = (if l \<le> i \<and> i \<le> r then s0 ! i else s0 ! (length s0 - 1 - i))"
  shows "reverse_loop n s (int l) (int r) = Inr (rev s0)"
  using assms
proof (induction n arbitrary: l r s)
  case (Suc n)
  show ?case
  proof (cases "l < r")
    case False
    have "s = rev s0"
    proof (rule nth_equalityI)
      show "s ! i = rev s0 ! i" if "i < length s" for i
      proof (cases "l \<le> i \<and> i \<le> r")
        case True
        then have "length s0 - 1 - i = i" using True False Suc.prems(1,3) by arith
        with True that Suc.prems(4,5) show ?thesis by (simp add: rev_nth)
      qed (use that Suc.prems(4,5) in \<open>auto simp: rev_nth\<close>)
    qed (use Suc.prems(4) in simp)
    with False show ?thesis by simp
  next
    case True
    have idx: "l < length s" "r < length s" "length s0 - 1 - l = r" "length s0 - 1 - r = l"
      using True Suc.prems(1,4) by simp_all
    let ?s = "s[l := s ! r, r := s ! l]"
    have "reverse_loop n ?s (int (Suc l)) (int (r - 1)) = Inr (rev s0)"
    proof (rule Suc.IH)
      show "\<forall>i < length s0. ?s ! i = (if Suc l \<le> i \<and> i \<le> r - 1 then s0 ! i else s0 ! (length s0 - 1 - i))"
      proof (intro allI impI)
        fix i assume i: "i < length s0"
        consider "i = l" | "i = r" | "i \<noteq> l" "i \<noteq> r" by blast
        then show "?s ! i = (if Suc l \<le> i \<and> i \<le> r - 1 then s0 ! i else s0 ! (length s0 - 1 - i))"
        proof cases
          case 3
          then have "(l \<le> i \<and> i \<le> r) = (Suc l \<le> i \<and> i \<le> r - 1)" by auto
          with 3 i Suc.prems(5) show ?thesis by simp
        qed (use idx True Suc.prems(4,5) in auto)
      qed
    qed (use True Suc.prems in auto)
    moreover have "int (Suc l) = int l + 1" "int (r - 1) = int r - 1" using True by simp_all
    ultimately have "reverse_loop n ?s (int l + 1) (int r - 1) = Inr (rev s0)" by (simp only:)
    then show ?thesis using True idx by simp
  qed
qed simp

text \<open>The two-pointer loops return on every input (the empty one included) without leaving the array:
  \<open>reverseString\<close> reverses, and \<open>isPalindrome\<close> decides whether a string equals its reverse.\<close>

lemma two_pointers_correct:
  "reverseString s = Inr (rev s) \<and> isPalindrome t = Inr (t = rev t)"
proof
  show "reverseString s = Inr (rev s)"
  proof (cases "s = []")
    case False
    then have e: "int (length s - 1) = int (length s) - 1" by (cases s) simp_all
    have "reverse_loop (length s + 1) s (int 0) (int (length s - 1)) = Inr (rev s)"
      using False by (intro reverse_loop_ok) auto
    then show ?thesis unfolding reverseString_def e by (simp del: reverse_loop.simps)
  qed (simp add: reverseString_def)
  show "isPalindrome t = Inr (t = rev t)"
  proof (cases "t = []")
    case False
    then have e: "int (length t - 1) = int (length t) - 1" by (cases t) simp_all
    have "palindrome_loop (length t + 1) t (int 0) (int (length t - 1)) = Inr (t = rev t)"
      using False by (intro palindrome_loop_ok) auto
    then show ?thesis unfolding isPalindrome_def e by (simp del: palindrome_loop.simps)
  qed (simp add: isPalindrome_def)
qed

section \<open>\<open>isDuplicatedNumber\<close>\<close>

text \<open>
  The inner loop writes \<open>array[array[i]]\<close> back to itself and only then \<open>array[i]\<close>, so it overwrites
  instead of swapping.
\<close>

fun dup_loop :: "nat \<Rightarrow> nat \<Rightarrow> int list \<Rightarrow> (bool \<times> int list) res" where
  "dup_loop 0 i a = Inl Diverges"
| "dup_loop (Suc fuel) i a =
     res_bind (vat a i) (\<lambda>x.
       if x = int i then Inr (False, a)
       else res_bind (res_of (vget a x)) (\<lambda>y.
         if y = x then Inr (True, a)
         else res_bind (res_of (vset a x y)) (\<lambda>a. res_bind (vput a i y) (dup_loop fuel i))))"

fun dup_scan :: "nat \<Rightarrow> nat list \<Rightarrow> int list \<Rightarrow> bool res" where
  "dup_scan fuel [] a = Inr False"
| "dup_scan fuel (i # is) a =
     res_bind (dup_loop fuel i a) (\<lambda>(found, a). if found then Inr True else dup_scan fuel is a)"

definition isDuplicatedNumber :: "nat \<Rightarrow> int list option \<Rightarrow> bool res" where
  "isDuplicatedNumber fuel a = (case a of None \<Rightarrow> Inr False | Some xs \<Rightarrow> dup_scan fuel [0..<length xs] xs)"

text \<open>\<open>isDuplicatedNumber\<close> reports a duplicate where there is none: the array \<open>1, 0\<close> holds each number
  once, and the answer is \<open>true\<close>, because the loop overwrites instead of swapping.\<close>

lemma duplicate_false_positive:
  "isDuplicatedNumber 3 (Some [1, 0]) = Inr True \<and> distinct [1 :: int, 0]"
proof -
  have "dup_loop 3 0 [1, 0] = Inr (False, [0, 0])" "dup_loop 3 1 [0, 0] = Inr (True, [0, 0])"
    by (simp_all add: eval_nat_numeral vat_def vput_def vget_def vset_def)
  moreover have "[0..<length [1 :: int, 0]] = [0, 1]" by (simp add: upt_rec)
  ultimately show ?thesis by (simp add: isDuplicatedNumber_def)
qed

end
