(* ===== verification/Algorithm_Greedy.thy ===== *)
theory Algorithm_Greedy
  imports Algorithm_Arrays "HOL-Library.Sublist"
begin

text \<open>
  The greedy algorithms of Algorithm/greedy.cpp: the fuel circuit, interval scheduling and meeting
  rooms. \<open>int\<close> arithmetic that overflows is undefined; an interval is the pair of the first two
  elements of its vector.
\<close>

section \<open>\<open>canCompleteCircuit\<close>\<close>

definition int_sub :: "int \<Rightarrow> int \<Rightarrow> int res" where
  "int_sub a b = (if int32 (a - b) then Inr (a - b) else Inl Undefined)"

definition circuit_step :: "int list \<Rightarrow> int list \<Rightarrow> nat \<Rightarrow> int \<times> int \<times> nat \<Rightarrow> (int \<times> int \<times> nat) res" where
  "circuit_step gas cost i s = (case s of (fuel, minSum, start) \<Rightarrow>
     res_bind (vat gas i) (\<lambda>g. res_bind (vat cost i) (\<lambda>c. res_bind (int_sub g c) (\<lambda>d.
     res_bind (int_add fuel d) (\<lambda>fuel.
       Inr (if fuel < minSum then (fuel, fuel, i + 1) else (fuel, minSum, start)))))))"

definition canCompleteCircuit :: "int list \<Rightarrow> int list \<Rightarrow> int res" where
  "canCompleteCircuit gas cost =
     res_bind (for_each [0..<length gas] (circuit_step gas cost) (0, 0, 0)) (\<lambda>(fuel, minSum, start).
       if fuel < 0 then Inr (-1)
       else if length gas = 0 then Inl Undefined
       else Inr (int (start mod length gas)))"

text \<open>The fuel gained over the first \<open>k\<close> stations, and over \<open>k\<close> stations from station \<open>s\<close> around.\<close>

definition gain :: "int list \<Rightarrow> int list \<Rightarrow> nat \<Rightarrow> int" where
  "gain gas cost k = (\<Sum>i < k. gas ! i - cost ! i)"

definition trip :: "int list \<Rightarrow> int list \<Rightarrow> nat \<Rightarrow> nat \<Rightarrow> int" where
  "trip gas cost s k = (\<Sum>i < k. gas ! ((s + i) mod length gas) - cost ! ((s + i) mod length gas))"

definition fits_int :: "int list \<Rightarrow> int list \<Rightarrow> bool" where
  "fits_int gas cost \<longleftrightarrow> (\<forall>i < length gas. int32 (gas ! i - cost ! i) \<and> int32 (gain gas cost (Suc i)))"

lemma gain_Suc [simp]: "gain gas cost (Suc k) = gain gas cost k + (gas ! k - cost ! k)"
  by (simp add: gain_def)

lemma circuit_loop:
  assumes "length cost = length gas" and "fits_int gas cost"
  shows "\<exists>m. for_each [0..<length gas] (circuit_step gas cost) (0, 0, 0)
      = Inr (gain gas cost (length gas), gain gas cost m, m) \<and> m \<le> length gas
    \<and> (\<forall>k \<le> length gas. gain gas cost m \<le> gain gas cost k) \<and> (0 < m \<longrightarrow> gain gas cost m < 0)"
proof -
  define I where "I = (\<lambda>i (fuel, minSum, start). fuel = gain gas cost i \<and> minSum = gain gas cost start \<and> start \<le> i \<and>
    (\<forall>k \<le> i. gain gas cost start \<le> gain gas cost k) \<and> (0 < start \<longrightarrow> gain gas cost start < 0))"
  have "\<exists>s. for_each [0..<length gas] (circuit_step gas cost) (0, 0, 0) = Inr s \<and> I (length gas) s"
  proof (rule for_each_inv)
    show "I 0 (0, 0, 0)" by (simp add: I_def gain_def)
    fix i s
    assume i: "i < length gas" and I: "I i s"
    obtain fuel minSum start where s: "s = (fuel, minSum, start)" by (cases s)
    have h: "fuel = gain gas cost i" "minSum = gain gas cost start" "start \<le> i"
      "\<And>k. k \<le> i \<Longrightarrow> gain gas cost start \<le> gain gas cost k" "0 < start \<longrightarrow> gain gas cost start < 0"
      using I by (simp_all add: I_def s)
    have h0: "gain gas cost start \<le> 0" using h(4) [of 0] by (simp add: gain_def)
    have "int32 (gas ! i - cost ! i)" "int32 (fuel + (gas ! i - cost ! i))"
      using assms(2) i h(1) by (simp_all add: fits_int_def)
    then have "circuit_step gas cost i s = Inr (if gain gas cost (Suc i) < minSum
        then (gain gas cost (Suc i), gain gas cost (Suc i), Suc i) else (gain gas cost (Suc i), minSum, start))"
      using i assms(1) h(1) by (simp add: circuit_step_def s int_sub_def int_add_def)
    moreover have "I (Suc i) (if gain gas cost (Suc i) < minSum
        then (gain gas cost (Suc i), gain gas cost (Suc i), Suc i) else (gain gas cost (Suc i), minSum, start))"
      using h h0 by (fastforce simp: I_def le_Suc_eq)
    ultimately show "\<exists>s'. circuit_step gas cost i s = Inr s' \<and> I (Suc i) s'" by blast
  qed simp
  then show ?thesis by (auto simp: I_def)
qed

lemma trip_Suc [simp]: "trip gas cost s (Suc k) =
    trip gas cost s k + (gas ! ((s + k) mod length gas) - cost ! ((s + k) mod length gas))"
  by (simp add: trip_def)

lemma gain_0 [simp]: "gain gas cost 0 = 0"
  by (simp add: gain_def)

lemma trip_0 [simp]: "trip gas cost s 0 = 0"
  by (simp add: trip_def)

lemma trip_before: "s + k \<le> length gas \<Longrightarrow> trip gas cost s k = gain gas cost (s + k) - gain gas cost s"
  by (induction k) simp_all

lemma trip_wrapped:
  assumes "s < length gas" and "k \<le> s"
  shows "trip gas cost s (length gas - s + k) = gain gas cost (length gas) - gain gas cost s + gain gas cost k"
  using assms(2)
proof (induction k)
  case 0
  with assms(1) trip_before [of s "length gas - s" gas cost] show ?case by simp
next
  case (Suc k)
  have "(s + (length gas - s + k)) mod length gas = k" using assms(1) Suc.prems by simp
  with Suc show ?case by (simp only: add_Suc_right trip_Suc gain_Suc)
qed

lemma trip_gain:
  assumes "s < length gas" and "k \<le> length gas"
  shows "trip gas cost s k = (if s + k \<le> length gas then gain gas cost (s + k) - gain gas cost s
    else gain gas cost (length gas) - gain gas cost s + gain gas cost (s + k - length gas))"
proof (cases "s + k \<le> length gas")
  case False
  then have "k = length gas - s + (s + k - length gas)" "s + k - length gas \<le> s" using assms by simp_all
  with trip_wrapped [OF assms(1), of "s + k - length gas" cost] False show ?thesis by metis
qed (simp add: trip_before)

text \<open>The fuel circuit: when no sum overflows and there is a station, \<open>canCompleteCircuit\<close> returns a
  station from which the fuel never runs empty on the way round, or \<open>-1\<close>, and then there is no such
  station.\<close>

lemma canCompleteCircuit_correct:
  assumes "length cost = length gas" and "0 < length gas" and "fits_int gas cost"
  shows "(\<exists>s < length gas. canCompleteCircuit gas cost = Inr (int s) \<and> (\<forall>k \<le> length gas. 0 \<le> trip gas cost s k)) \<or>
    canCompleteCircuit gas cost = Inr (-1) \<and>
      (\<forall>s < length gas. \<exists>k \<le> length gas. trip gas cost s k < 0)"
proof -
  let ?n = "length gas" and ?G = "gain gas cost"
  obtain m where m: "for_each [0..<?n] (circuit_step gas cost) (0, 0, 0) = Inr (?G ?n, ?G m, m)" "m \<le> ?n"
    "\<And>k. k \<le> ?n \<Longrightarrow> ?G m \<le> ?G k" "0 < m \<longrightarrow> ?G m < 0"
    using circuit_loop [OF assms(1,3)] by blast
  show ?thesis
  proof (cases "?G ?n < 0")
    case True
    have "trip gas cost s ?n < 0" if "s < ?n" for s
      using that True trip_gain [OF that, of ?n cost] by (cases "s = 0") simp_all
    with True m(1) show ?thesis by (auto simp: canCompleteCircuit_def)
  next
    case False
    have mn: "m < ?n"
    proof (rule ccontr)
      assume "\<not> m < ?n"
      then have "m = ?n" using m(2) by simp
      with m(4) assms(2) False show False by simp
    qed
    have "0 \<le> trip gas cost m k" if k: "k \<le> ?n" for k
    proof (cases "m + k \<le> ?n")
      case True
      with trip_gain [OF mn k, of cost] m(3) [of "m + k"] show ?thesis by simp
    next
      case wrap: False
      then have "m + k - ?n \<le> ?n" using k m(2) by simp
      from m(3) [OF this] trip_gain [OF mn k, of cost] False wrap show ?thesis by simp
    qed
    with mn False m(1) show ?thesis by (auto simp: canCompleteCircuit_def)
  qed
qed

lemma canCompleteCircuit_correct_witness:
  "canCompleteCircuit [1, 2, 3, 4, 5] [3, 4, 5, 1, 2] = Inr 3"
proof -
  have r: "canCompleteCircuit [1, 2, 3, 4, 5] [3, 4, 5, 1, 2] = Inr 3"
    by (simp add: canCompleteCircuit_def circuit_step_def upt_rec int_sub_def int_add_def int32_def)
  have "fits_int [1, 2, 3, 4, 5] [3, 4, 5, 1, 2]"
    by (simp add: fits_int_def All_less_Suc2 numeral_eq_Suc int32_def gain_def)
  from canCompleteCircuit_correct [OF _ _ this] r show ?thesis by simp
qed

text \<open>Without stations the result is a remainder modulo zero.\<close>

lemma canCompleteCircuit_empty: "canCompleteCircuit [] [] = Inl Undefined"
  by (simp add: canCompleteCircuit_def)

section \<open>\<open>intervalSchedule\<close>\<close>

text \<open>\<open>std::sort\<close> by the end; the order of intervals with the same end is left to the library.\<close>

fun schedule_loop :: "(int \<times> int) list \<Rightarrow> int \<Rightarrow> nat \<Rightarrow> nat" where
  "schedule_loop [] x_end c = c"
| "schedule_loop ((start, fin) # xs) x_end c =
     (if x_end \<le> start then schedule_loop xs fin (c + 1) else schedule_loop xs x_end c)"

definition intervalSchedule :: "(int \<times> int) list \<Rightarrow> nat" where
  "intervalSchedule intvs =
     (if intvs = [] then 0
      else let xs = sort_key snd intvs in schedule_loop xs (snd (hd xs)) 1)"

text \<open>A chain of intervals that follow one another from the time \<open>x\<close>.\<close>

fun chain :: "int \<Rightarrow> (int \<times> int) list \<Rightarrow> bool" where
  "chain x [] = True"
| "chain x ((s, e) # zs) \<longleftrightarrow> x \<le> s \<and> chain e zs"

lemma chain_earlier: "chain x zs \<Longrightarrow> y \<le> x \<Longrightarrow> chain y zs"
  by (cases zs) auto

lemma schedule_loop_shift: "schedule_loop xs x (c + d) = schedule_loop xs x c + d"
proof (induction xs x c arbitrary: d rule: schedule_loop.induct)
  case (2 s e xs x c)
  then show ?case by (cases "x \<le> s") simp_all
qed simp

lemma subseq_Cons_split: "subseq (w # ws) (x # xs) \<Longrightarrow> w \<in> set (x # xs) \<and> subseq ws xs"
  by (cases "w = x") (auto dest: subseq_Cons' simp: subseq_singleton_left [symmetric] elim: list_emb_set)

lemma schedule_loop_max:
  "sorted (map snd xs) \<Longrightarrow> subseq zs xs \<Longrightarrow> chain x zs \<Longrightarrow> length zs \<le> schedule_loop xs x 0"
proof (induction xs arbitrary: zs x)
  case Nil
  then show ?case by simp
next
  case (Cons a xs)
  obtain s e where a: "a = (s, e)" by fastforce
  have "\<And>z. z \<in> set xs \<Longrightarrow> e \<le> snd z" using Cons.prems(1) by (auto simp: a)
  show ?case
  proof (cases zs)
    case Nil
    then show ?thesis by simp
  next
    case zs: (Cons z zs')
    show ?thesis
    proof (cases "z = a \<and> subseq zs' xs")
      case True
      with Cons.IH [of zs' e] Cons.prems zs a schedule_loop_shift [of xs e 0 1] show ?thesis by simp
    next
      case False
      then have sub: "subseq zs xs" using Cons.prems(2) zs by (auto split: if_splits)
      then have z: "e \<le> snd z" "subseq zs' xs"
        using \<open>\<And>z. z \<in> set xs \<Longrightarrow> e \<le> snd z\<close> zs by (auto dest: list_emb_set subseq_Cons')
      have "chain e zs'" using Cons.prems(3) zs z(1) chain_earlier [of "snd z" zs' e] by (cases z) simp
      then have "length zs' \<le> schedule_loop xs e 0" using Cons.IH z(2) Cons.prems(1) by simp
      with Cons.IH [OF _ sub Cons.prems(3)] Cons.prems(1) zs a schedule_loop_shift [of xs e 0 1]
      show ?thesis by simp
    qed
  qed
qed

lemma schedule_loop_reached: "\<exists>zs. subseq zs xs \<and> chain x zs \<and> length zs = schedule_loop xs x 0"
proof (induction xs arbitrary: x)
  case Nil
  then show ?case by simp
next
  case (Cons a xs)
  obtain s e where a: "a = (s, e)" by fastforce
  show ?case
  proof (cases "x \<le> s")
    case True
    obtain zs where "subseq zs xs" "chain e zs" "length zs = schedule_loop xs e 0" using Cons.IH by blast
    with True a schedule_loop_shift [of xs e 0 1] show ?thesis by (intro exI [of _ "a # zs"]) simp
  next
    case False
    with Cons.IH [of x] a show ?thesis by auto
  qed
qed

text \<open>C23: Interval scheduling is optimal: for intervals that end after they start, \<open>intervalSchedule\<close> is
  the length of the longest chain of the given intervals in which each begins at or after the end of
  the one before.\<close>
theorem intervalSchedule_optimal:
  assumes "\<forall>i \<in> set intvs. fst i < snd i"
  shows "(\<exists>zs x. subseq zs (sort_key snd intvs) \<and> chain x zs \<and> length zs = intervalSchedule intvs) \<and>
    (\<forall>zs x. subseq zs (sort_key snd intvs) \<and> chain x zs \<longrightarrow> length zs \<le> intervalSchedule intvs)"
proof (cases "intvs = []")
  case True
  then show ?thesis by (auto simp: intervalSchedule_def)
next
  case False
  let ?xs = "sort_key snd intvs"
  obtain s e ys where xs: "?xs = (s, e) # ys"
    using False by (metis list.exhaust length_0_conv length_sort surj_pair)
  have mem: "(s, e) \<in> set intvs" using arg_cong [OF xs, of set] by simp
  have first: "s < e" using assms mem by fastforce
  have sorted: "sorted (map snd ?xs)" by simp
  have eq: "intervalSchedule intvs = schedule_loop ?xs s 0"
    using False first schedule_loop_shift [of ys e 0 1] by (simp add: intervalSchedule_def xs)
  obtain zs where zs: "subseq zs ?xs" "chain s zs" "length zs = schedule_loop ?xs s 0"
    using schedule_loop_reached by blast
  have "length ws \<le> intervalSchedule intvs" if w: "subseq ws ?xs" "chain x ws" for ws x
  proof (cases ws)
    case (Cons w ws')
    have sub: "w \<in> set ?xs" "subseq ws' ys"
      using subseq_Cons_split [of w ws' "(s, e)" ys] w(1) by (simp_all only: xs Cons)
    have "e \<le> snd w" using sub(1) sorted by (auto simp: xs)
    then have "chain e ws'" using w(2) Cons chain_earlier [of "snd w" ws' e] by (cases w) simp
    moreover have "sorted (map snd ys)" using sorted by (simp add: xs)
    ultimately have "length ws' \<le> schedule_loop ys e 0" using schedule_loop_max sub(2) by blast
    then show ?thesis using Cons schedule_loop_shift [of ys e 0 1] unfolding eq xs by simp
  qed simp
  moreover have "length zs = intervalSchedule intvs" using zs(3) eq by simp
  ultimately show ?thesis using zs(1,2) by blast
qed

theorem intervalSchedule_optimal_witness:
  "intervalSchedule [(1, 4), (2, 3), (3, 5)] = 2 \<and>
   (\<exists>zs x. subseq zs (sort_key snd [(1, 4), (2, 3), (3, 5)]) \<and> chain x zs \<and> length zs = 2)"
proof -
  have "intervalSchedule [(1, 4), (2, 3), (3, 5)] = 2" by (simp add: intervalSchedule_def)
  with intervalSchedule_optimal [of "[(1, 4), (2, 3), (3, 5)]"] show ?thesis by simp
qed

text \<open>The loop starts again at the first interval, so an empty one is counted twice.\<close>

lemma intervalSchedule_empty_interval: "intervalSchedule [(1, 1)] = 2"
  by (simp add: intervalSchedule_def)

section \<open>\<open>minMeetingRooms\<close>\<close>

fun rooms_loop :: "nat \<Rightarrow> int list \<Rightarrow> int list \<Rightarrow> nat \<Rightarrow> nat \<Rightarrow> int \<Rightarrow> int \<Rightarrow> int res" where
  "rooms_loop 0 ss es i j cnt res = Inl Diverges"
| "rooms_loop (Suc n) ss es i j cnt res =
     (if i < length ss \<and> j < length ss then
        res_bind (vat ss i) (\<lambda>s. res_bind (vat es j) (\<lambda>e.
          if s < e then rooms_loop n ss es (i + 1) j (cnt + 1) (max res (cnt + 1))
          else rooms_loop n ss es i (j + 1) (cnt - 1) (max res (cnt - 1))))
      else Inr res)"

definition minMeetingRooms :: "(int \<times> int) list \<Rightarrow> int res" where
  "minMeetingRooms meetings =
     rooms_loop (2 * length meetings + 1) (sort (map fst meetings)) (sort (map snd meetings)) 0 0 0 0"

lemma rooms_loop_bounds:
  assumes "length es = length ss" and "i \<le> length ss" and "j \<le> length ss" and "2 * length ss < n + i + j"
    and "cnt = int i - int j" and "0 \<le> res" and "res \<le> int (length ss)"
  shows "\<exists>r. rooms_loop n ss es i j cnt res = Inr r \<and> res \<le> r \<and> r \<le> int (length ss)"
  using assms(2-)
proof (induction n arbitrary: i j cnt res)
  case (Suc n)
  show ?case
  proof (cases "i < length ss \<and> j < length ss")
    case True
    show ?thesis
    proof (cases "ss ! i < es ! j")
      case less: True
      have "\<exists>r. rooms_loop n ss es (i + 1) j (cnt + 1) (max res (cnt + 1)) = Inr r \<and>
          max res (cnt + 1) \<le> r \<and> r \<le> int (length ss)"
        using True Suc.prems by (intro Suc.IH) auto
      with True less assms(1) show ?thesis by auto
    next
      case False
      have "\<exists>r. rooms_loop n ss es i (j + 1) (cnt - 1) (max res (cnt - 1)) = Inr r \<and>
          max res (cnt - 1) \<le> r \<and> r \<le> int (length ss)"
        using True Suc.prems by (intro Suc.IH) auto
      with True False assms(1) show ?thesis by auto
    qed
  qed (use Suc.prems in auto)
qed simp

lemma minMeetingRooms_bounds:
  "\<exists>r. minMeetingRooms ms = Inr r \<and> 0 \<le> r \<and> r \<le> int (length ms)"
  using rooms_loop_bounds [of "sort (map snd ms)" "sort (map fst ms)" 0 0 "2 * length ms + 1" 0 0]
  by (simp add: minMeetingRooms_def del: rooms_loop.simps)

end
