(* ===== verification/Algorithm_List.thy ===== *)
theory Algorithm_List
  imports Prelude
begin

text \<open>
  The functions of Algorithm/LinkedList.cpp on \<open>ListNode\<close>s. The \<open>next\<close> fields are a heap that is
  passed along, the \<open>val\<close> fields, which nothing writes, a function. A stack node \<open>dummy\<close> is an address of its
  own. Loops and recursions have fuel for their number of steps; a null dereference is \<open>Undefined\<close>.
\<close>

type_synonym links = "addr \<Rightarrow> addr"

definition next_of :: "links \<Rightarrow> addr \<Rightarrow> addr res" where
  "next_of h p = (if p = 0 then Inl Undefined else Inr (h p))"

lemma next_of_ok [simp]: "p \<noteq> 0 \<Longrightarrow> next_of h p = Inr (h p)" "next_of h 0 = Inl Undefined"
  by (simp_all add: next_of_def)

section \<open>\<open>merge\<close>\<close>

text \<open>The statement \<open>list2->next;\<close> of the second branch has no effect.\<close>

definition merge_step :: "(addr \<Rightarrow> int) \<Rightarrow> links \<times> addr \<times> addr \<times> addr \<Rightarrow> (links \<times> addr \<times> addr \<times> addr) res" where
  "merge_step val s = (case s of (h, p, list1, list2) \<Rightarrow>
     if val list1 < val list2 then Inr (h(p := list1), list1, h list1, list2)
     else Inr (h(p := list2), list2, list1, list2))"

definition merge_lists :: "nat \<Rightarrow> (addr \<Rightarrow> int) \<Rightarrow> addr \<Rightarrow> links \<Rightarrow> addr \<Rightarrow> addr \<Rightarrow> (links \<times> addr) res" where
  "merge_lists fuel val dummy h list1 list2 =
     res_bind (while_res fuel (\<lambda>(h, p, list1, list2). list1 \<noteq> 0 \<and> list2 \<noteq> 0) (merge_step val)
                 (h(dummy := 0), dummy, list1, list2)) (\<lambda>(h, p, list1, list2).
       let h = (if list1 \<noteq> 0 then h(p := list1) else h);
           h = (if list2 \<noteq> 0 then h(p := list2) else h)
       in Inr (h, h dummy))"

lemma merge_stuck:
  assumes "list1 \<noteq> 0" and "list2 \<noteq> 0" and "val list2 \<le> val list1"
  shows "while_res fuel (\<lambda>(h, p, list1, list2). list1 \<noteq> 0 \<and> list2 \<noteq> 0) (merge_step val)
    (h, p, list1, list2) = Inl Diverges"
proof (rule while_res_diverges)
  let ?I = "\<lambda>(h :: links, p :: addr, l1, l2). l1 = list1 \<and> l2 = list2"
  show "?I (h, p, list1, list2)" by simp
  fix s
  assume "?I s"
  then show "(case s of (h, p, list1, list2) \<Rightarrow> list1 \<noteq> 0 \<and> list2 \<noteq> 0) \<and> (\<exists>s'. merge_step val s = Inr s' \<and> ?I s')"
    using assms by (cases s) (simp add: merge_step_def)
qed

lemma merge_loop_never_ends:
  assumes "hlist h list1 as" and "p \<notin> set as" and "list2 \<noteq> 0" and "\<exists>a \<in> set as. val list2 \<le> val a"
  shows "while_res fuel (\<lambda>(h, p, list1, list2). list1 \<noteq> 0 \<and> list2 \<noteq> 0) (merge_step val)
    (h, p, list1, list2) = Inl Diverges"
  using assms
proof (induction as arbitrary: fuel h list1 p)
  case (Cons a as)
  then have a: "list1 = a" "a \<noteq> 0" "hlist h (h a) as" "p \<noteq> a" "p \<notin> set as" by auto
  show ?case
  proof (cases "val list2 \<le> val a")
    case True
    then show ?thesis using a Cons.prems(3) by (intro merge_stuck) simp_all
  next
    case False
    have "while_res n (\<lambda>(h, p, list1, list2). list1 \<noteq> 0 \<and> list2 \<noteq> 0) (merge_step val)
        (h(p := a), a, h a, list2) = Inl Diverges" for n
    proof (rule Cons.IH)
      show "hlist (h(p := a)) (h a) as" using a(3,5) by simp
    qed (use False Cons.prems(3,4) hlist_distinct [OF Cons.prems(1)] in auto)
    moreover have "merge_step val (h, p, list1, list2) = Inr (h(p := a), a, h a, list2)"
      using False a(1) by (simp add: merge_step_def)
    ultimately show ?thesis using a(1,2) Cons.prems(3) by (cases fuel) simp_all
  qed
qed simp

text \<open>The iterative \<open>merge\<close> never returns, whatever the fuel, when an element of the first list is not
  below the first element of the second: \<open>list2\<close> is not advanced.\<close>

lemma merge_never_returns:
  assumes "hlist h list1 as" and "list2 \<noteq> 0" and "dummy \<notin> set as" and "\<exists>a \<in> set as. val list2 \<le> val a"
  shows "merge_lists fuel val dummy h list1 list2 = Inl Diverges"
  using merge_loop_never_ends [of "h(dummy := 0)" list1 as dummy list2 val fuel] assms
  by (simp add: merge_lists_def)

lemma merge_never_returns_witness:
  "\<forall>fuel. merge_lists fuel (\<lambda>a. int a) 9 (\<lambda>_. 0) 2 1 = Inl Diverges"
  by (rule allI, rule merge_never_returns [where as = "[2]"]) simp_all

section \<open>\<open>mergeRecursive\<close>\<close>

fun mergeRecursive :: "nat \<Rightarrow> (addr \<Rightarrow> int) \<Rightarrow> links \<Rightarrow> addr \<Rightarrow> addr \<Rightarrow> (links \<times> addr) res" where
  "mergeRecursive 0 val h list1 list2 = Inl Diverges"
| "mergeRecursive (Suc n) val h list1 list2 =
     (if list1 = 0 then Inr (h, list2)
      else if list2 = 0 then Inr (h, list1)
      else if val list1 < val list2 then
        res_bind (mergeRecursive n val h (h list1) list2) (\<lambda>(h, r). Inr (h(list1 := r), list1))
      else
        res_bind (mergeRecursive n val h list1 (h list2)) (\<lambda>(h, r). Inr (h(list2 := r), list2)))"

text \<open>The reference: a merge of the sequences of nodes.\<close>

fun merge_nodes :: "('a \<Rightarrow> int) \<Rightarrow> 'a list \<Rightarrow> 'a list \<Rightarrow> 'a list" where
  "merge_nodes val [] bs = bs"
| "merge_nodes val as [] = as"
| "merge_nodes val (a # as) (b # bs) =
     (if val a < val b then a # merge_nodes val as (b # bs) else b # merge_nodes val (a # as) bs)"

lemma merge_nodes_Nil [simp]: "merge_nodes val as [] = as"
  by (cases as) simp_all

lemma mset_merge_nodes [simp]: "mset (merge_nodes val as bs) = mset as + mset bs"
  by (induction val as bs rule: merge_nodes.induct) auto

lemma set_merge_nodes [simp]: "set (merge_nodes val as bs) = set as \<union> set bs"
  by (metis mset_merge_nodes set_mset_mset set_mset_union)

lemma sorted_merge_nodes:
  "sorted (map val as) \<Longrightarrow> sorted (map val bs) \<Longrightarrow> sorted (map val (merge_nodes val as bs))"
  by (induction val as bs rule: merge_nodes.induct) force+

lemma mergeRecursive_merges:
  assumes "hlist h p as" and "hlist h q bs" and "set as \<inter> set bs = {}" and "length as + length bs < fuel"
  shows "\<exists>h' r. mergeRecursive fuel val h p q = Inr (h', r) \<and> hlist h' r (merge_nodes val as bs) \<and>
    (\<forall>c. c \<notin> set as \<union> set bs \<longrightarrow> h' c = h c)"
  using assms
proof (induction fuel arbitrary: h p q as bs)
  case (Suc n)
  show ?case
  proof (cases as)
    case as: (Cons a as')
    show ?thesis
    proof (cases bs)
      case bs: (Cons b bs')
      have ab: "p = a" "a \<noteq> 0" "hlist h (h a) as'" "q = b" "b \<noteq> 0" "hlist h (h b) bs'"
        "a \<notin> set as'" "b \<notin> set bs'" "a \<noteq> b" "a \<notin> set bs'" "b \<notin> set as'" "set as' \<inter> set bs' = {}"
        using Suc.prems hlist_distinct [OF Suc.prems(1)] hlist_distinct [OF Suc.prems(2)]
        by (auto simp: as bs)
      show ?thesis
      proof (cases "val a < val b")
        case True
        obtain g r where "mergeRecursive n val h (h a) q = Inr (g, r)" "hlist g r (merge_nodes val as' bs)"
          "\<forall>c. c \<notin> set as' \<union> set bs \<longrightarrow> g c = h c"
          using Suc.IH [OF ab(3) Suc.prems(2)] Suc.prems(3,4) as by auto
        then show ?thesis using True ab as bs by auto
      next
        case False
        obtain g r where "mergeRecursive n val h p (h b) = Inr (g, r)" "hlist g r (merge_nodes val as bs')"
          "\<forall>c. c \<notin> set as \<union> set bs' \<longrightarrow> g c = h c"
          using Suc.IH [OF Suc.prems(1) ab(6)] Suc.prems(3,4) bs by auto
        then show ?thesis using False ab as bs by auto
      qed
    qed (use Suc.prems as in auto)
  qed (use Suc.prems in auto)
qed simp

text \<open>C25: \<open>mergeRecursive\<close> agrees with the merge of the two sequences of nodes: with fuel for one call a node
  it returns a list of exactly the nodes of both, in non-decreasing order when both are, and no other
  node changes.\<close>
theorem mergeRecursive_correct:
  assumes "hlist h p as" and "hlist h q bs" and "set as \<inter> set bs = {}" and "length as + length bs < fuel"
    and "sorted (map val as)" and "sorted (map val bs)"
  shows "\<exists>h' r cs. mergeRecursive fuel val h p q = Inr (h', r) \<and> hlist h' r cs \<and> cs = merge_nodes val as bs \<and>
    mset cs = mset as + mset bs \<and> sorted (map val cs) \<and> (\<forall>c. c \<notin> set cs \<longrightarrow> h' c = h c)"
  using mergeRecursive_merges [OF assms(1-4), of val] sorted_merge_nodes [OF assms(5,6)]
  by (auto intro!: exI)


theorem mergeRecursive_correct_witness:
  "\<exists>h' r. mergeRecursive 4 int ((\<lambda>_. 0)(1 := 3)) 1 2 = Inr (h', r) \<and> hlist h' r [1, 2, 3]"
proof -
  have "\<exists>h' r cs. mergeRecursive 4 int ((\<lambda>_. 0)(1 := 3)) 1 2 = Inr (h', r) \<and> hlist h' r cs \<and>
      cs = merge_nodes int [1, 3] [2] \<and> mset cs = mset [1, 3] + mset [2] \<and> sorted (map int cs) \<and>
      (\<forall>c. c \<notin> set cs \<longrightarrow> h' c = ((\<lambda>_. 0)(1 := 3)) c)"
    by (rule mergeRecursive_correct) simp_all
  then show ?thesis by auto
qed

section \<open>\<open>findFromEnd\<close>\<close>

text \<open>\<open>while (k--)\<close> with its \<open>int\<close> counter, and the walk of the two pointers.\<close>

fun find_advance :: "nat \<Rightarrow> links \<Rightarrow> addr \<Rightarrow> int \<Rightarrow> addr res" where
  "find_advance 0 h p k = Inl Diverges"
| "find_advance (Suc n) h p k =
     (if k = 0 then Inr p else res_bind (next_of h p) (\<lambda>p. find_advance n h p (k - 1)))"

fun find_follow :: "nat \<Rightarrow> links \<Rightarrow> addr \<Rightarrow> addr \<Rightarrow> addr res" where
  "find_follow 0 h p q = Inl Diverges"
| "find_follow (Suc n) h p q =
     res_bind (next_of h p) (\<lambda>p'. if p' = 0 then next_of h q
       else res_bind (next_of h q) (\<lambda>q'. find_follow n h p' q'))"

definition findFromEnd :: "nat \<Rightarrow> links \<Rightarrow> addr \<Rightarrow> int \<Rightarrow> addr res" where
  "findFromEnd fuel h head k = res_bind (find_advance fuel h head k) (\<lambda>p. find_follow fuel h p head)"

lemma hlist_Suc_nth:
  "hlist h p as \<Longrightarrow> i < length as \<Longrightarrow> as ! i \<noteq> 0 \<and> h (as ! i) = (if Suc i < length as then as ! Suc i else 0)"
proof (induction as arbitrary: p i)
  case (Cons a as)
  then have t: "hlist h (h a) as" "a \<noteq> 0" by auto
  show ?case
  proof (cases i)
    case 0
    with t show ?thesis by (cases as) auto
  next
    case (Suc j)
    with Cons.IH [OF t(1), of j] Cons.prems(2) show ?thesis by simp
  qed
qed simp

definition node_at :: "addr list \<Rightarrow> nat \<Rightarrow> addr" where
  "node_at as i = (if i < length as then as ! i else 0)"

lemma node_at_step:
  assumes "hlist h p as" and "i < length as"
  shows "node_at as i \<noteq> 0" "h (node_at as i) = node_at as (Suc i)"
  using hlist_Suc_nth [OF assms] assms(2) by (simp_all add: node_at_def)

lemma node_at_head: "hlist h p as \<Longrightarrow> node_at as 0 = p"
  by (cases as) (auto simp: node_at_def)

lemma find_advance_list:
  "hlist h p as \<Longrightarrow> i + k \<le> length as \<Longrightarrow> k < fuel \<Longrightarrow>
    find_advance fuel h (node_at as i) (int k) = Inr (node_at as (i + k))"
proof (induction fuel arbitrary: i k)
  case (Suc n)
  show ?case
  proof (cases k)
    case (Suc l)
    with Suc.IH [OF Suc.prems(1), of "Suc i" l] Suc.prems node_at_step [OF Suc.prems(1), of i]
    show ?thesis by simp
  qed simp
qed simp

lemma find_advance_out:
  "hlist h p as \<Longrightarrow> i \<le> length as \<Longrightarrow> k < 0 \<or> int (length as - i) < k \<Longrightarrow> length as - i < fuel \<Longrightarrow>
    find_advance fuel h (node_at as i) k = Inl Undefined"
proof (induction fuel arbitrary: i k)
  case (Suc n)
  show ?case
  proof (cases "i = length as")
    case True
    with Suc.prems show ?thesis by (auto simp: node_at_def)
  next
    case False
    with Suc.IH [OF Suc.prems(1), of "Suc i" "k - 1"] Suc.prems node_at_step [OF Suc.prems(1), of i]
    show ?thesis by auto
  qed
qed simp

lemma find_follow_list:
  "hlist h p as \<Longrightarrow> i < length as \<Longrightarrow> j \<le> i \<Longrightarrow> length as - i \<le> fuel \<Longrightarrow>
    find_follow fuel h (node_at as i) (node_at as j) = Inr (node_at as (j + (length as - i)))"
proof (induction fuel arbitrary: i j)
  case (Suc n)
  note st = node_at_step [OF Suc.prems(1,2)] node_at_step [OF Suc.prems(1), of j]
  show ?case
  proof (cases "Suc i = length as")
    case True
    moreover have "j + (length as - i) = Suc j" using True Suc.prems by simp
    moreover have "node_at as (Suc i) = 0" using True by (simp add: node_at_def)
    ultimately show ?thesis using st Suc.prems by simp
  next
    case False
    with node_at_step(1) [OF Suc.prems(1), of "Suc i"] st Suc.prems
      Suc.IH [OF Suc.prems(1), of "Suc i" "Suc j"]
    show ?thesis by (simp add: Suc_diff_Suc)
  qed
qed simp

lemma find_follow_null: "fuel \<noteq> 0 \<Longrightarrow> find_follow fuel h 0 q = Inl Undefined"
  by (cases fuel) simp_all

text \<open>\<open>findFromEnd\<close> on a list of \<open>n\<close> nodes, on every \<open>k\<close>: for \<open>0 < k < n\<close> the \<open>k\<close>-th node from the end, for
  \<open>0\<close> a null pointer, and for a negative \<open>k\<close> or \<open>k \<ge> n\<close>, the first node included, a null dereference.\<close>

lemma findFromEnd_every_k:
  assumes "hlist h head as" and "length as < fuel"
  shows "findFromEnd fuel h head k =
    (if 0 < k \<and> k < int (length as) then Inr (as ! (length as - nat k))
     else if k = 0 \<and> as \<noteq> [] then Inr 0 else Inl Undefined)"
proof -
  have hd: "head = node_at as 0" using node_at_head [OF assms(1)] by simp
  consider i where "k = int i" "i < length as" | "k = int (length as)" | "k < 0 \<or> int (length as) < k"
    by (cases k) (metis linorder_neqE_nat of_nat_less_iff, simp)
  then show ?thesis
  proof cases
    case 1
    have "findFromEnd fuel h head k = Inr (node_at as (length as - i))"
      using find_advance_list [OF assms(1), of 0 i fuel] find_follow_list [OF assms(1) 1(2), of 0 fuel] 1 assms(2)
      by (simp add: findFromEnd_def hd)
    with 1 show ?thesis by (auto simp: node_at_def)
  next
    case 2
    have "findFromEnd fuel h head k = Inl Undefined"
      using find_advance_list [OF assms(1), of 0 "length as" fuel] assms(2) 2
      by (simp add: findFromEnd_def hd find_follow_null) (simp add: node_at_def find_follow_null)
    with 2 show ?thesis by simp
  next
    case 3
    have "findFromEnd fuel h head k = Inl Undefined"
      using find_advance_out [OF assms(1), of 0 k fuel] assms(2) 3 by (simp add: findFromEnd_def hd)
    with 3 show ?thesis by auto
  qed
qed

lemma findFromEnd_every_k_witness:
  "findFromEnd 4 ((\<lambda>_. 0)(5 := 7, 7 := 9)) 5 2 = Inr 7 \<and> findFromEnd 4 ((\<lambda>_. 0)(5 := 7, 7 := 9)) 5 3 = Inl Undefined"
  using findFromEnd_every_k [of "(\<lambda>_. 0)(5 := 7, 7 := 9)" 5 "[5, 7, 9]" 4] by simp

section \<open>\<open>hasCycle\<close> and \<open>detectCycle\<close>\<close>

fun hasCycle_loop :: "nat \<Rightarrow> links \<Rightarrow> addr \<Rightarrow> addr \<Rightarrow> bool res" where
  "hasCycle_loop 0 h slow fast = Inl Diverges"
| "hasCycle_loop (Suc n) h slow fast =
     (if fast \<noteq> 0 \<and> h fast \<noteq> 0 then
        res_bind (next_of h slow) (\<lambda>slow. let fast = h (h fast) in
          if slow = fast then Inr True else hasCycle_loop n h slow fast)
      else Inr False)"

definition hasCycle :: "nat \<Rightarrow> links \<Rightarrow> addr \<Rightarrow> bool res" where
  "hasCycle fuel h head = hasCycle_loop fuel h head head"

text \<open>The first loop of \<open>detectCycle\<close> ends with \<open>fast\<close>, by its condition or the \<open>break\<close>.\<close>

fun meet_loop :: "nat \<Rightarrow> links \<Rightarrow> addr \<Rightarrow> addr \<Rightarrow> addr res" where
  "meet_loop 0 h slow fast = Inl Diverges"
| "meet_loop (Suc n) h slow fast =
     (if fast \<noteq> 0 \<and> h fast \<noteq> 0 then
        res_bind (next_of h slow) (\<lambda>slow. let fast = h (h fast) in
          if slow = fast then Inr fast else meet_loop n h slow fast)
      else Inr fast)"

fun entry_loop :: "nat \<Rightarrow> links \<Rightarrow> addr \<Rightarrow> addr \<Rightarrow> addr res" where
  "entry_loop 0 h slow fast = Inl Diverges"
| "entry_loop (Suc n) h slow fast =
     (if slow = fast then Inr slow
      else res_bind (next_of h fast) (\<lambda>fast. res_bind (next_of h slow) (\<lambda>slow. entry_loop n h slow fast)))"

definition detectCycle :: "nat \<Rightarrow> links \<Rightarrow> addr \<Rightarrow> addr res" where
  "detectCycle fuel h head =
     (if head = 0 \<or> h head = 0 then Inr 0
      else res_bind (meet_loop fuel h head head) (entry_loop fuel h head))"

subsection \<open>Lists that end\<close>

lemma node_at_eq: "hlist h p as \<Longrightarrow> i < j \<Longrightarrow> j \<le> length as \<Longrightarrow> node_at as i \<noteq> node_at as j"
  using hlist_distinct [of h p as] hpath_nonzero [of h p as 0]
  by (auto simp: node_at_def nth_eq_iff_index_eq) (metis gr0I nth_mem)

lemma walk_ends:
  assumes "hlist h p as" and "2 * i \<le> length as" and "length as < fuel + 2 * i"
  shows "hasCycle_loop fuel h (node_at as i) (node_at as (2 * i)) = Inr False"
    and "\<exists>j. (if i = 0 \<and> length as < 2 then j = 0 else 0 < j) \<and> length as - 1 \<le> j \<and> j \<le> length as \<and>
      meet_loop fuel h (node_at as i) (node_at as (2 * i)) = Inr (node_at as j) \<or> as = []"
  using assms(2,3)
proof (induction fuel arbitrary: i)
  case (Suc n)
  note st = node_at_step [OF assms(1)]
  case 1
  show ?case
  proof (cases "Suc (2 * i) < length as")
    case True
    have "node_at as (Suc i) \<noteq> node_at as (Suc (Suc (2 * i)))" using True by (intro node_at_eq [OF assms(1)]) auto
    with True st [of i] st [of "2 * i"] st [of "Suc (2 * i)"] Suc(1) [of "Suc i"] 1 show ?thesis by simp
  next
    case False
    with 1 st(2) [of "2 * i"] show ?thesis by (auto simp: node_at_def)
  qed
  case 2
  show ?case
  proof (cases "Suc (2 * i) < length as")
    case True
    have "node_at as (Suc i) \<noteq> node_at as (Suc (Suc (2 * i)))" using True by (intro node_at_eq [OF assms(1)]) auto
    with True st [of i] st [of "2 * i"] st [of "Suc (2 * i)"] Suc(2) [of "Suc i"] 2 show ?thesis by simp
  next
    case False
    then have "2 * i = length as \<or> Suc (2 * i) = length as" using 2 by linarith
    moreover have "meet_loop (Suc n) h (node_at as i) (node_at as (2 * i)) = Inr (node_at as (2 * i))"
      using False 2 st(2) [of "2 * i"] by (auto simp: node_at_def)
    ultimately show ?thesis by (intro exI [of _ "2 * i"]) auto
  qed
qed simp_all

text \<open>The two pointers stay \<open>d\<close> nodes apart until the one ahead is null.\<close>

lemma entry_falls_off:
  "hlist h p as \<Longrightarrow> 0 < d \<Longrightarrow> i + d \<le> length as \<Longrightarrow> length as < fuel + i + d \<Longrightarrow>
    entry_loop fuel h (node_at as i) (node_at as (i + d)) = Inl Undefined"
proof (induction fuel arbitrary: i)
  case (Suc n)
  have ne: "node_at as i \<noteq> node_at as (i + d)" using Suc.prems by (intro node_at_eq) auto
  show ?case
  proof (cases "i + d = length as")
    case True
    with ne show ?thesis by (simp add: node_at_def)
  next
    case False
    with node_at_step [OF Suc.prems(1), of "i + d"] node_at_step [OF Suc.prems(1), of i] ne Suc.prems
      Suc.IH [OF Suc.prems(1,2), of "Suc i"] show ?thesis by simp
  qed
qed simp

subsection \<open>Lists that run into a cycle\<close>

text \<open>\<open>iter h head i\<close> is the \<open>i\<close>-th node; \<open>closed_list h head as\<close> says that following \<open>next\<close> from \<open>head\<close>
  stays among the nodes \<open>as\<close>.\<close>

definition iter :: "links \<Rightarrow> addr \<Rightarrow> nat \<Rightarrow> addr" where
  "iter h head i = (h ^^ i) head"

definition closed_list :: "links \<Rightarrow> addr \<Rightarrow> addr list \<Rightarrow> bool" where
  "closed_list h head as \<longleftrightarrow> head \<in> set as \<and> 0 \<notin> set as \<and> list_all (\<lambda>a. h a \<in> set as) as"

lemma iter_0 [simp]: "iter h head 0 = head"
  by (simp add: iter_def)

lemma iter_Suc [simp]: "iter h head (Suc i) = h (iter h head i)"
  by (simp add: iter_def)

lemma iter_shift: "iter h head i = iter h head j \<Longrightarrow> iter h head (i + k) = iter h head (j + k)"
  by (induction k) simp_all

lemma iter_closed: "closed_list h head as \<Longrightarrow> iter h head i \<in> set as"
  by (induction i) (auto simp: closed_list_def list_all_iff)

lemma iter_nonnull: "closed_list h head as \<Longrightarrow> iter h head i \<noteq> 0"
  using iter_closed [of h head as i] by (metis closed_list_def)

lemma iter_period: "iter h head i = iter h head (i + l) \<Longrightarrow> iter h head (i + k) = iter h head (i + k + m * l)"
proof (induction m)
  case (Suc m)
  from iter_shift [OF Suc.prems, of "k + m * l"] Suc show ?case by (simp add: ac_simps)
qed simp

lemma iter_meets:
  assumes "closed_list h head as"
  shows "\<exists>i. 0 < i \<and> i \<le> length as \<and> iter h head i = iter h head (2 * i)"
proof -
  have "\<not> inj_on (iter h head) {..length as}"
  proof
    assume "inj_on (iter h head) {..length as}"
    then have "card (iter h head ` {..length as}) = Suc (length as)" by (simp add: card_image)
    moreover have "card (iter h head ` {..length as}) \<le> card (set as)"
      using iter_closed [OF assms] by (intro card_mono) auto
    ultimately show False using card_length [of as] by simp
  qed
  then obtain a b where ab: "a < b" "b \<le> length as" "iter h head a = iter h head b"
    by (auto simp: inj_on_def) (metis linorder_neqE_nat)
  define l where "l = b - a"
  define i where "i = l * (if a = 0 then 1 else (a + l - 1) div l)"
  have l: "0 < l" "iter h head a = iter h head (a + l)" using ab by (simp_all add: l_def)
  have i: "0 < i" "a \<le> i" "i \<le> length as"
  proof -
    have m: "l * ((a + l - 1) div l) + (a + l - 1) mod l = a + l - 1" by simp
    moreover have "(a + l - 1) mod l < l" using l(1) by simp
    ultimately have "a \<le> l * ((a + l - 1) div l)" "l * ((a + l - 1) div l) \<le> a + l - 1" by linarith+
    moreover have al: "a + l \<le> length as" using ab by (simp add: l_def)
    ultimately have "a \<le> i \<and> i \<le> length as \<and> 0 < i" if "a \<noteq> 0"
      using that l(1) unfolding i_def if_not_P [OF that] by linarith
    then show "0 < i" "a \<le> i" "i \<le> length as" using l(1) al by (auto simp: i_def)
  qed
  obtain m where "i = m * l" unfolding i_def by (metis mult.commute)
  with iter_period [OF l(2), of "i - a" m] i have "iter h head i = iter h head (2 * i)" by (simp add: mult_2)
  with i show ?thesis by blast
qed

lemma least_meeting:
  assumes "closed_list h head as"
  obtains m where "0 < m" "m \<le> length as" "iter h head m = iter h head (2 * m)"
    "\<And>i. 0 < i \<Longrightarrow> i < m \<Longrightarrow> iter h head i \<noteq> iter h head (2 * i)"
proof -
  let ?P = "\<lambda>i. 0 < i \<and> i \<le> length as \<and> iter h head i = iter h head (2 * i)"
  obtain m where m: "?P m" and least: "\<forall>i < m. \<not> ?P i"
    using iter_meets [OF assms] exists_least_iff [of ?P] by blast
  from m least show ?thesis by (intro that [of m]) auto
qed

text \<open>The least such \<open>i\<close> is the number of rounds after which the two pointers meet.\<close>

lemma walk_meets:
  assumes "closed_list h head as" and "iter h head m = iter h head (2 * m)"
    and "\<And>i. 0 < i \<Longrightarrow> i < m \<Longrightarrow> iter h head i \<noteq> iter h head (2 * i)" and "i < m" and "m \<le> i + fuel"
  shows "hasCycle_loop fuel h (iter h head i) (iter h head (2 * i)) = Inr True \<and>
    meet_loop fuel h (iter h head i) (iter h head (2 * i)) = Inr (iter h head m)"
  using assms(4,5)
proof (induction fuel arbitrary: i)
  case (Suc n)
  note nz = iter_nonnull [OF assms(1)]
  have nz': "h (iter h head (2 * i)) \<noteq> 0" using nz [of "Suc (2 * i)"] by simp
  show ?case
  proof (cases "Suc i = m")
    case True
    with assms(2) have "h (iter h head i) = h (h (iter h head (2 * i)))" by auto
    with True nz nz' show ?thesis by (auto simp: Let_def)
  next
    case False
    with assms(3) [of "Suc i"] Suc.prems Suc.IH [of "Suc i"] nz nz' show ?thesis by (auto simp: Let_def)
  qed
qed simp

lemma entry_found:
  assumes "closed_list h head as" and "iter h head k = iter h head (m + k)"
    and "\<And>i. i < k \<Longrightarrow> iter h head i \<noteq> iter h head (m + i)" and "i \<le> k" and "k < i + fuel"
  shows "entry_loop fuel h (iter h head i) (iter h head (m + i)) = Inr (iter h head k)"
  using assms(4,5)
proof (induction fuel arbitrary: i)
  case (Suc n)
  show ?case
  proof (cases "i = k")
    case False
    then have "i < k" using Suc.prems by simp
    with assms(3) [of i] Suc.IH [of "Suc i"] Suc.prems iter_nonnull [OF assms(1)] show ?thesis by simp
  qed (simp add: assms(2))
qed simp

text \<open>C27: \<open>hasCycle\<close> decides: with fuel for a round per node it returns \<open>false\<close> on a list that ends, and \<open>true\<close>
  when following \<open>next\<close> never leaves a finite set of nodes.\<close>
theorem hasCycle_decides:
  assumes "length as < fuel"
  shows "(hlist h head as \<longrightarrow> hasCycle fuel h head = Inr False) \<and>
    (closed_list h head as \<longrightarrow> hasCycle fuel h head = Inr True)"
proof (intro conjI impI)
  assume "hlist h head as"
  then show "hasCycle fuel h head = Inr False"
    using walk_ends(1) [of h head as 0 fuel] assms node_at_head by (auto simp: hasCycle_def)
next
  assume c: "closed_list h head as"
  obtain m where m: "0 < m" "m \<le> length as" "iter h head m = iter h head (2 * m)"
    "\<And>i. 0 < i \<Longrightarrow> i < m \<Longrightarrow> iter h head i \<noteq> iter h head (2 * i)"
    using least_meeting [OF c] by blast
  show "hasCycle fuel h head = Inr True"
    using walk_meets [OF c m(3,4), of 0 fuel] m(1,2) assms by (simp add: hasCycle_def)
qed

theorem hasCycle_decides_witness:
  "hasCycle 3 ((\<lambda>_. 0)(1 := 2)) 1 = Inr False \<and> hasCycle 3 ((\<lambda>_. 0)(1 := 2, 2 := 2)) 1 = Inr True"
  using hasCycle_decides [of "[1, 2]" 3 "(\<lambda>_. 0)(1 := 2)" 1]
    hasCycle_decides [of "[1, 2]" 3 "(\<lambda>_. 0)(1 := 2, 2 := 2)" 1]
  by (simp add: closed_list_def)

text \<open>The nodes on a cycle from the \<open>k\<close>-th on recur after \<open>m\<close> steps, when the \<open>m\<close>-th recurs after \<open>m\<close>.\<close>

lemma on_cycle_iff:
  assumes "iter h head m = iter h head (2 * m)" and "0 < m"
  shows "iter h head k = iter h head (m + k) \<longleftrightarrow> (\<exists>l > 0. iter h head k = iter h head (k + l))"
proof
  assume "\<exists>l > 0. iter h head k = iter h head (k + l)"
  then obtain l where l: "0 < l" "iter h head k = iter h head (k + l)" by blast
  have far: "iter h head k = iter h head (k + m * l)" using iter_period [OF l(2), of 0 m] by simp
  have "m \<le> k + m * l" using l(1) by (cases l) simp_all
  then have "iter h head (k + m * l) = iter h head (m + (k + m * l))"
    using iter_shift [OF assms(1), of "k + m * l - m"] by (simp add: ac_simps)
  with far iter_shift [OF far, of m] show "iter h head k = iter h head (m + k)" by (simp add: ac_simps)
qed (use assms(2) in \<open>auto simp: add.commute\<close>)

text \<open>C28: \<open>detectCycle\<close> on a list with a cycle returns its entry, the first node that following \<open>next\<close>
  visits again; on a list that ends it returns a null pointer only when the list has fewer than two nodes, and
  dereferences one otherwise.\<close>
theorem detectCycle_entry:
  assumes "length as < fuel"
  shows "(closed_list h head as \<longrightarrow> (\<exists>k. detectCycle fuel h head = Inr (iter h head k) \<and>
      (\<exists>l > 0. iter h head k = iter h head (k + l)) \<and>
      (\<forall>i < k. \<forall>l > 0. iter h head i \<noteq> iter h head (i + l)))) \<and>
    (hlist h head as \<longrightarrow> detectCycle fuel h head = (if length as < 2 then Inr 0 else Inl Undefined))"
proof (intro conjI impI)
  assume c: "closed_list h head as"
  obtain m where m: "0 < m" "m \<le> length as" "iter h head m = iter h head (2 * m)"
    "\<And>i. 0 < i \<Longrightarrow> i < m \<Longrightarrow> iter h head i \<noteq> iter h head (2 * i)"
    using least_meeting [OF c] by blast
  let ?P = "\<lambda>k. iter h head k = iter h head (m + k)"
  have k: "?P (Least ?P)" "Least ?P \<le> m" using m(3) by (auto intro!: LeastI Least_le simp: mult_2)
  have before: "\<not> ?P i" if "i < Least ?P" for i using that by (rule not_less_Least)
  have "entry_loop fuel h head (iter h head m) = Inr (iter h head (Least ?P))"
    using entry_found [OF c k(1) before, of 0 fuel] k(2) m(2) assms by simp
  moreover have "meet_loop fuel h head head = Inr (iter h head m)"
    using walk_meets [OF c m(3,4), of 0 fuel] m(1,2) assms by simp
  moreover have "head \<noteq> 0" "h head \<noteq> 0" using iter_nonnull [OF c, of 0] iter_nonnull [OF c, of 1] by simp_all
  ultimately have "detectCycle fuel h head = Inr (iter h head (Least ?P))" by (simp add: detectCycle_def)
  then show "\<exists>k. detectCycle fuel h head = Inr (iter h head k) \<and>
      (\<exists>l > 0. iter h head k = iter h head (k + l)) \<and>
      (\<forall>i < k. \<forall>l > 0. iter h head i \<noteq> iter h head (i + l))"
    using k(1) before on_cycle_iff [OF m(3,1)] by blast
next
  assume l: "hlist h head as"
  note hd = node_at_head [OF l]
  show "detectCycle fuel h head = (if length as < 2 then Inr 0 else Inl Undefined)"
  proof (cases "length as < 2")
    case True
    with l show ?thesis by (cases as) (auto simp: detectCycle_def)
  next
    case False
    obtain j where j: "0 < j" "j \<le> length as" "meet_loop fuel h head head = Inr (node_at as j)"
      using walk_ends(2) [OF l, of 0 fuel] assms hd False by (auto simp: not_less)
    have "entry_loop fuel h head (node_at as j) = Inl Undefined"
      using entry_falls_off [OF l j(1), of 0 fuel] j(2) assms hd by simp
    moreover have "head \<noteq> 0" "h head \<noteq> 0"
      using node_at_step [OF l, of 0] node_at_step(1) [OF l, of 1] hd False by (cases as; auto)+
    ultimately show ?thesis using j(3) False by (simp add: detectCycle_def)
  qed
qed

theorem detectCycle_entry_witness:
  "(\<exists>k. detectCycle 4 ((\<lambda>_. 0)(1 := 2, 2 := 3, 3 := 2)) 1 = Inr (iter ((\<lambda>_. 0)(1 := 2, 2 := 3, 3 := 2)) 1 k)) \<and>
   detectCycle 4 ((\<lambda>_. 0)(1 := 2, 2 := 3)) 1 = Inl Undefined"
  using detectCycle_entry [of "[1, 2, 3]" 4 "(\<lambda>_. 0)(1 := 2, 2 := 3, 3 := 2)" 1]
    detectCycle_entry [of "[1, 2, 3]" 4 "(\<lambda>_. 0)(1 := 2, 2 := 3)" 1]
  by (simp add: closed_list_def) blast

section \<open>\<open>removeDulpicates\<close> of a list\<close>

fun dedup_list_loop :: "nat \<Rightarrow> (addr \<Rightarrow> int) \<Rightarrow> links \<Rightarrow> addr \<Rightarrow> addr \<Rightarrow> (links \<times> addr) res" where
  "dedup_list_loop 0 val h slow fast = Inl Diverges"
| "dedup_list_loop (Suc n) val h slow fast =
     (if h fast \<noteq> 0 then
        let temp = h fast in
        if val temp \<noteq> val slow then dedup_list_loop n val (h(slow := temp)) temp temp
        else dedup_list_loop n val h slow temp
      else Inr (h, slow))"

definition removeDulpicates_list :: "nat \<Rightarrow> (addr \<Rightarrow> int) \<Rightarrow> links \<Rightarrow> addr \<Rightarrow> (links \<times> addr) res" where
  "removeDulpicates_list fuel val h head =
     (if head = 0 then Inr (h, 0)
      else res_bind (dedup_list_loop fuel val h head head) (\<lambda>(h, slow). Inr (h(slow := 0), head)))"

text \<open>The nodes after \<open>slow\<close> that are kept, the first of every run of equal values.\<close>

fun kept :: "(addr \<Rightarrow> int) \<Rightarrow> addr \<Rightarrow> addr list \<Rightarrow> addr list" where
  "kept val slow [] = []"
| "kept val slow (a # as) = (if val a \<noteq> val slow then a # kept val a as else kept val slow as)"

lemma kept_values: "map val (slow # kept val slow as) = remdups_adj (map val (slow # as))"
proof (induction as arbitrary: slow)
  case (Cons a as)
  show ?case using Cons [of a] Cons [of slow] by (cases "val a = val slow") simp_all
qed simp

lemma set_kept: "set (kept val slow as) \<subseteq> set as"
  by (induction as arbitrary: slow) auto

lemma dedup_list_kept:
  assumes "hlist h (h fast) as" and "fast \<noteq> 0" and "length as < fuel"
    and "distinct (slow # as)" and "fast = slow \<or> fast \<notin> set (slow # as)" and "0 \<notin> set (slow # as)"
  shows "\<exists>h' q. dedup_list_loop fuel val h slow fast = Inr (h', q) \<and>
    hpath (h'(q := 0)) slow (slow # kept val slow as) 0 \<and> q \<in> set (slow # as) \<and>
    (\<forall>c. c \<notin> set (slow # as) \<longrightarrow> h' c = h c)"
  using assms
proof (induction as arbitrary: fuel h slow fast)
  case Nil
  then obtain n where "fuel = Suc n" by (cases fuel) auto
  with Nil show ?case by auto
next
  case (Cons a as)
  then obtain n where n: "fuel = Suc n" by (cases fuel) auto
  have a: "h fast = a" "a \<noteq> 0" "hlist h (h a) as" using Cons.prems(1) by auto
  show ?case
  proof (cases "val a \<noteq> val slow")
    case True
    let ?h = "h(slow := a)"
    have tl: "hlist ?h (?h a) as" using a(3) Cons.prems(4) by auto
    have "\<exists>h' q. dedup_list_loop n val ?h a a = Inr (h', q) \<and>
        hpath (h'(q := 0)) a (a # kept val a as) 0 \<and> q \<in> set (a # as) \<and>
        (\<forall>c. c \<notin> set (a # as) \<longrightarrow> h' c = ?h c)"
    proof (rule Cons.IH)
      show "hlist ?h (?h a) as" by (rule tl)
    qed (use a Cons.prems n in auto)
    then obtain h' q where r: "dedup_list_loop n val ?h a a = Inr (h', q)"
      "hpath (h'(q := 0)) a (a # kept val a as) 0" "q \<in> set (a # as)"
      "\<forall>c. c \<notin> set (a # as) \<longrightarrow> h' c = ?h c" by blast
    have q: "q \<noteq> slow" using r(3) Cons.prems(4) by auto
    define g where "g = h'(q := 0)"
    have "g slow = a" using r(4) q Cons.prems(4) by (simp add: g_def)
    then have "hpath g slow (slow # kept val slow (a # as)) 0"
      using r(2) True Cons.prems(6) by (simp add: g_def [symmetric])
    moreover have "dedup_list_loop (Suc n) val h slow fast = Inr (h', q)" using r(1) True a by (simp add: Let_def)
    moreover have "\<forall>c. c \<notin> set (slow # a # as) \<longrightarrow> h' c = h c" using r(4) by simp
    moreover have "q \<in> set (slow # a # as)" using r(3) by simp
    ultimately show ?thesis unfolding n g_def by blast
  next
    case False
    have "\<exists>h' q. dedup_list_loop n val h slow a = Inr (h', q) \<and>
        hpath (h'(q := 0)) slow (slow # kept val slow as) 0 \<and> q \<in> set (slow # as) \<and>
        (\<forall>c. c \<notin> set (slow # as) \<longrightarrow> h' c = h c)"
      by (rule Cons.IH) (use a Cons.prems n in auto)
    then obtain h' q where r: "dedup_list_loop n val h slow a = Inr (h', q)"
      "hpath (h'(q := 0)) slow (slow # kept val slow as) 0" "q \<in> set (slow # as)"
      "\<forall>c. c \<notin> set (slow # as) \<longrightarrow> h' c = h c" by blast
    have "dedup_list_loop fuel val h slow fast = Inr (h', q)" using r(1) False a n by (simp add: Let_def)
    moreover have "kept val slow (a # as) = kept val slow as" using False by simp
    moreover have "q \<in> set (slow # a # as)" "\<forall>c. c \<notin> set (slow # a # as) \<longrightarrow> h' c = h c" using r(3,4) by auto
    ultimately show ?thesis using r(2) by metis
  qed
qed

text \<open>The nodes kept carry the values without adjacent repetitions, and the list ends after them.\<close>

lemma removeDulpicates_list_correct:
  assumes "hlist h head as" and "length as < fuel"
  shows "\<exists>h' bs. removeDulpicates_list fuel val h head = Inr (h', head) \<and> hlist h' head bs \<and>
    map val bs = remdups_adj (map val as) \<and> set bs \<subseteq> set as"
proof (cases as)
  case Nil
  with assms show ?thesis by (auto simp: removeDulpicates_list_def)
next
  case (Cons a bs)
  have d: "distinct (head # bs)" "0 \<notin> set (head # bs)"
    using hlist_distinct [OF assms(1)] hpath_nonzero [OF assms(1)] assms(1) Cons by auto
  have "\<exists>h' q. dedup_list_loop fuel val h head head = Inr (h', q) \<and>
      hpath (h'(q := 0)) head (head # kept val head bs) 0 \<and> q \<in> set (head # bs) \<and>
      (\<forall>c. c \<notin> set (head # bs) \<longrightarrow> h' c = h c)"
    by (rule dedup_list_kept) (use d assms Cons in auto)
  then obtain h' q where r: "dedup_list_loop fuel val h head head = Inr (h', q)"
    "hpath (h'(q := 0)) head (head # kept val head bs) 0" by blast
  moreover have "set (head # kept val head bs) \<subseteq> set as" using set_kept [of val head bs] assms(1) Cons by auto
  moreover have "map val (head # kept val head bs) = remdups_adj (map val as)"
    using kept_values [of val head bs] assms(1) Cons by auto
  moreover have "head \<noteq> 0" using d by auto
  ultimately show ?thesis
    by (intro exI [of _ "h'(q := 0)"] exI [of _ "head # kept val head bs"])
      (simp add: removeDulpicates_list_def)
qed

section \<open>\<open>mergeKLists\<close>\<close>

text \<open>
  The priority queue is the list of its elements; which of several least elements \<open>top\<close> returns is left
  open: \<open>pick\<close> is an argument. \<open>pop\<close> removes the element that \<open>pick\<close> returns.
\<close>

fun mergeK_loop :: "nat \<Rightarrow> (addr list \<Rightarrow> addr) \<Rightarrow> links \<Rightarrow> addr \<Rightarrow> addr list \<Rightarrow> (links \<times> addr) res" where
  "mergeK_loop 0 pick h rear pq = Inl Diverges"
| "mergeK_loop (Suc n) pick h rear pq =
     (if pq = [] then Inr (h, rear)
      else let q = pick pq;
               pq = remove1 q pq;
               h = h(rear := q)
           in mergeK_loop n pick h q (if h q \<noteq> 0 then pq @ [h q] else pq))"

definition mergeKLists :: "nat \<Rightarrow> (addr list \<Rightarrow> addr) \<Rightarrow> addr \<Rightarrow> links \<Rightarrow> addr list \<Rightarrow> (links \<times> addr) res" where
  "mergeKLists fuel pick dummy h heads =
     res_bind (mergeK_loop fuel pick (h(dummy := 0)) dummy (filter (\<lambda>l. l \<noteq> 0) heads)) (\<lambda>(h, rear).
       let h = h(rear := 0) in Inr (h, h dummy))"

text \<open>What the documentation of \<open>std::priority_queue\<close> promises of \<open>top\<close> with the comparison of the code.\<close>

definition least_pick :: "(addr \<Rightarrow> int) \<Rightarrow> (addr list \<Rightarrow> addr) \<Rightarrow> bool" where
  "least_pick val pick \<longleftrightarrow> (\<forall>pq. pq \<noteq> [] \<longrightarrow> pick pq \<in> set pq \<and> (\<forall>a \<in> set pq. val (pick pq) \<le> val a))"

text \<open>The queue holds the heads of disjoint sorted lists; \<open>rest a\<close> are the nodes after \<open>a\<close>.\<close>

definition queue_nodes :: "addr list \<Rightarrow> (addr \<Rightarrow> addr list) \<Rightarrow> addr list" where
  "queue_nodes pq rest = concat (map (\<lambda>a. a # rest a) pq)"

definition queue_ok :: "(addr \<Rightarrow> int) \<Rightarrow> links \<Rightarrow> addr list \<Rightarrow> (addr \<Rightarrow> addr list) \<Rightarrow> bool" where
  "queue_ok val h pq rest \<longleftrightarrow> distinct (queue_nodes pq rest) \<and>
     (\<forall>a \<in> set pq. hlist h a (a # rest a) \<and> sorted (map val (a # rest a)))"

lemma mset_queue_nodes: "mset (queue_nodes pq rest) = (\<Sum>a \<in># mset pq. mset (a # rest a))"
  by (induction pq) (simp_all add: queue_nodes_def)

lemma queue_nodes_snoc [simp]: "queue_nodes (pq @ [a]) rest = queue_nodes pq rest @ a # rest a"
  by (simp add: queue_nodes_def)

lemma queue_nodes_mem: "x \<in> set (queue_nodes pq rest) \<longleftrightarrow> (\<exists>a \<in> set pq. x = a \<or> x \<in> set (rest a))"
  by (auto simp: queue_nodes_def)

lemma queue_least:
  assumes "queue_ok val h pq rest" and "least_pick val pick" and "pq \<noteq> []" and "x \<in> set (queue_nodes pq rest)"
  shows "val (pick pq) \<le> val x"
proof -
  obtain a where a: "a \<in> set pq" "x = a \<or> x \<in> set (rest a)" using assms(4) by (auto simp: queue_nodes_mem)
  then have "val a \<le> val x" using assms(1) by (auto simp: queue_ok_def)
  moreover have "val (pick pq) \<le> val a" using assms(2,3) a(1) by (auto simp: least_pick_def)
  ultimately show ?thesis by simp
qed

text \<open>One round: the picked node leaves, its successor enters.\<close>

lemma queue_round:
  assumes ok: "queue_ok val h pq rest" and q: "q \<in> set pq" and rear: "rear \<notin> set (queue_nodes pq rest)"
  defines "h' \<equiv> h(rear := q)"
  defines "pq' \<equiv> (if h' q \<noteq> 0 then remove1 q pq @ [h' q] else remove1 q pq)"
  defines "rest' \<equiv> (if h' q \<noteq> 0 then rest(h' q := tl (rest q)) else rest)"
  shows "mset (queue_nodes pq rest) = add_mset q (mset (queue_nodes pq' rest'))"
    and "queue_ok val h' pq' rest'" and "q \<notin> set (queue_nodes pq' rest')"
proof -
  have dist: "distinct (queue_nodes pq rest)" and l: "\<And>a. a \<in> set pq \<Longrightarrow> hlist h a (a # rest a)"
    and srt: "\<And>a. a \<in> set pq \<Longrightarrow> sorted (map val (a # rest a))"
    using ok by (simp_all add: queue_ok_def)
  have rq: "rear \<noteq> q" using rear q by (auto simp: queue_nodes_mem)
  then have hq: "h' q = h q" by (simp add: h'_def)
  have "mset pq = add_mset q (mset (remove1 q pq))" using q by simp
  then have pick: "mset (queue_nodes pq rest) = add_mset q (mset (rest q) + mset (queue_nodes (remove1 q pq) rest))"
    by (simp only: mset_queue_nodes image_mset_add_mset sum_mset.add_mset mset.simps(2) union_mset_add_mset_left)
  have rest_q: "rest q = (if h q = 0 then [] else h q # tl (rest q))" using l [OF q] by (cases "rest q") auto
  have fresh: "h q \<notin> set (remove1 q pq)" if "h q \<noteq> 0"
  proof
    assume "h q \<in> set (remove1 q pq)"
    then have "h q \<in># mset (queue_nodes (remove1 q pq) rest)" by (auto simp: queue_nodes_mem)
    moreover have "h q \<in># mset (rest q)" using rest_q that by (metis list.set_intros(1) set_mset_mset)
    ultimately have "2 \<le> count (mset (queue_nodes pq rest)) (h q)"
      unfolding pick by (metis count_add_mset count_greater_eq_one_iff count_union add_mono le_SucI nat_1_add_1)
    with dist show False by (metis distinct_count_atmost_1 not_numeral_le_zero numeral_le_one_iff
      semiring_norm(69) set_mset_mset)
  qed
  have same: "queue_nodes (remove1 q pq) (rest(h q := z)) = queue_nodes (remove1 q pq) rest" if "h q \<noteq> 0" for z
    using fresh [OF that] by (auto simp: queue_nodes_def intro!: arg_cong [of _ _ concat])
  show m: "mset (queue_nodes pq rest) = add_mset q (mset (queue_nodes pq' rest'))"
  proof (cases "h q = 0")
    case True
    with rest_q have "rest q = []" by simp
    with True show ?thesis by (simp add: pick pq'_def rest'_def hq)
  next
    case False
    with rest_q have "mset (rest q) = add_mset (h q) (mset (tl (rest q)))" by (metis mset.simps(2))
    with False same [OF False, of "tl (rest q)"] show ?thesis by (simp add: pick pq'_def rest'_def hq)
  qed
  have "distinct (q # queue_nodes pq' rest')"
    using dist m by (metis mset.simps(2) mset_eq_imp_distinct_iff)
  then show "q \<notin> set (queue_nodes pq' rest')" by simp
  have "hlist h' a (a # rest' a) \<and> sorted (map val (a # rest' a))" if a: "a \<in> set pq'" for a
  proof -
    have sub: "set (a # rest' a) \<subseteq> set (queue_nodes pq rest)"
    proof
      fix x
      assume "x \<in> set (a # rest' a)"
      then have "x \<in># mset (queue_nodes pq' rest')" using a by (auto simp: queue_nodes_mem)
      then show "x \<in> set (queue_nodes pq rest)" using m by (metis set_mset_mset insertCI set_mset_add_mset_insert)
    qed
    have "hlist h a (a # rest' a) \<and> sorted (map val (a # rest' a))"
    proof (cases "h q \<noteq> 0 \<and> a = h q")
      case True
      then have "rest q = a # rest' a" using rest_q by (simp add: rest'_def hq)
      with l [OF q] srt [OF q] True show ?thesis by simp
    next
      case False
      then have "a \<in> set pq" "rest' a = rest a"
        using a set_remove1_subset [of q pq] by (auto simp: pq'_def rest'_def hq split: if_splits)
      with l srt show ?thesis by simp
    qed
    moreover have "rear \<notin> set (a # rest' a)" using sub rear by blast
    ultimately show ?thesis unfolding h'_def using hpath_upd by blast
  qed
  with \<open>distinct (q # queue_nodes pq' rest')\<close> show "queue_ok val h' pq' rest'" by (simp add: queue_ok_def)
qed

lemma mergeK_merges:
  assumes "least_pick val pick" and "queue_ok val h pq rest" and "rear \<notin> set (queue_nodes pq rest)" and "rear \<noteq> 0"
    and "length (queue_nodes pq rest) < fuel"
  shows "\<exists>h' r us. mergeK_loop fuel pick h rear pq = Inr (h', r) \<and> hlist (h'(r := 0)) rear (rear # us) \<and>
    mset us = mset (queue_nodes pq rest) \<and> sorted (map val us) \<and>
    (\<forall>c. c \<notin> set (rear # us) \<longrightarrow> h' c = h c) \<and> r \<in> set (rear # us)"
  using assms(2-)
proof (induction fuel arbitrary: h rear pq rest)
  case (Suc n)
  show ?case
  proof (cases "pq = []")
    case True
    with Suc.prems show ?thesis by (intro exI [of _ h] exI [of _ rear] exI [of _ "[]"]) (simp add: queue_nodes_def)
  next
    case False
    define q where "q = pick pq"
    define h' where "h' = h(rear := q)"
    define pq' where "pq' = (if h' q \<noteq> 0 then remove1 q pq @ [h' q] else remove1 q pq)"
    define rest' where "rest' = (if h' q \<noteq> 0 then rest(h' q := tl (rest q)) else rest)"
    have q: "q \<in> set pq" using assms(1) False by (simp add: least_pick_def q_def)
    note r = queue_round [OF Suc.prems(1) q Suc.prems(2), folded h'_def, folded pq'_def rest'_def]
    have len: "length (queue_nodes pq rest) = Suc (length (queue_nodes pq' rest'))"
      using arg_cong [OF r(1), of size] by simp
    have q0: "q \<noteq> 0" using Suc.prems(1) q by (auto simp: queue_ok_def)
    have "\<exists>g z us. mergeK_loop n pick h' q pq' = Inr (g, z) \<and> hlist (g(z := 0)) q (q # us) \<and>
        mset us = mset (queue_nodes pq' rest') \<and> sorted (map val us) \<and>
        (\<forall>c. c \<notin> set (q # us) \<longrightarrow> g c = h' c) \<and> z \<in> set (q # us)"
      by (rule Suc.IH [OF r(2,3) q0]) (use Suc.prems(4) len in simp)
    then obtain g z us where g: "mergeK_loop n pick h' q pq' = Inr (g, z)" "hlist (g(z := 0)) q (q # us)"
      "mset us = mset (queue_nodes pq' rest')" "sorted (map val us)"
      "\<forall>c. c \<notin> set (q # us) \<longrightarrow> g c = h' c" "z \<in> set (q # us)" by blast
    have ms: "mset (q # us) = mset (queue_nodes pq rest)" using g(3) r(1) by simp
    then have set_us: "set (q # us) = set (queue_nodes pq rest)" by (metis set_mset_mset)
    have loop: "mergeK_loop (Suc n) pick h rear pq = Inr (g, z)"
      using g(1) False unfolding pq'_def h'_def q_def by (simp add: Let_def)
    have "rear \<notin> set (q # us)" using Suc.prems(2) set_us by simp
    then have "(g(z := 0)) rear = q" using g(5,6) by (auto simp: h'_def)
    then have path: "hlist (g(z := 0)) rear (rear # q # us)" using g(2) Suc.prems(3) by simp
    have "sorted (map val (q # us))"
      using g(4) queue_least [OF Suc.prems(1) assms(1) False] set_us by (auto simp: q_def)
    moreover have "\<forall>c. c \<notin> set (rear # q # us) \<longrightarrow> g c = h c" using g(5) by (simp add: h'_def)
    moreover have "z \<in> set (rear # q # us)" using g(6) by simp
    ultimately show ?thesis using loop path ms by blast
  qed
qed simp

text \<open>C11: \<open>mergeKLists\<close> merges any number of sorted lists: whatever least element the queue picks, with fuel for one
  round a node it returns a list of exactly the nodes of all of them in non-decreasing order.\<close>
theorem mergeKLists_correct:
  assumes "least_pick val pick" and "queue_ok val h (filter (\<lambda>l. l \<noteq> 0) heads) rest"
    and "dummy \<noteq> 0" and "dummy \<notin> set (queue_nodes (filter (\<lambda>l. l \<noteq> 0) heads) rest)"
    and "length (queue_nodes (filter (\<lambda>l. l \<noteq> 0) heads) rest) < fuel"
  shows "\<exists>h' r us. mergeKLists fuel pick dummy h heads = Inr (h', r) \<and> hlist h' r us \<and>
    mset us = mset (queue_nodes (filter (\<lambda>l. l \<noteq> 0) heads) rest) \<and> sorted (map val us)"
proof -
  let ?pq = "filter (\<lambda>l. l \<noteq> 0) heads"
  have "queue_ok val (h(dummy := 0)) ?pq rest"
    unfolding queue_ok_def
  proof (intro conjI ballI)
    fix a
    assume a: "a \<in> set ?pq"
    then have "dummy \<notin> set (a # rest a)" using assms(4) by (auto simp: queue_nodes_mem)
    moreover have "hlist h a (a # rest a)" using a assms(2) unfolding queue_ok_def by blast
    ultimately show "hlist (h(dummy := 0)) a (a # rest a)" using hpath_upd by blast
  qed (use assms(2) in \<open>simp_all add: queue_ok_def\<close>)
  from mergeK_merges [OF assms(1) this assms(4,3,5)] show ?thesis
    by (auto simp: mergeKLists_def Let_def simp del: fun_upd_apply)
qed

theorem mergeKLists_correct_witness:
  "\<exists>h' r us. mergeKLists 4 (\<lambda>pq. if pq = [] then 0 else Min (set pq)) 9 ((\<lambda>_. 0)(1 := 3)) [2, 0, 1] = Inr (h', r) \<and>
    hlist h' r us \<and> mset us = mset [2, 1, 3] \<and> sorted (map int us)"
proof -
  have "\<exists>h' r us. mergeKLists 4 (\<lambda>pq. if pq = [] then 0 else Min (set pq)) 9 ((\<lambda>_. 0)(1 := 3)) [2, 0, 1] = Inr (h', r) \<and>
    hlist h' r us \<and> mset us = mset (queue_nodes (filter (\<lambda>l. l \<noteq> 0) [2, 0, 1]) ((\<lambda>_. [])(1 := [3]))) \<and>
    sorted (map int us)"
    by (rule mergeKLists_correct) (simp_all add: least_pick_def queue_ok_def queue_nodes_def)
  then show ?thesis by (simp add: queue_nodes_def)
qed

end
