(* ===== verification/Algorithm_Window.thy ===== *)
theory Algorithm_Window
  imports Prelude "HOL-Library.AList" "HOL-Library.Sublist"
begin

text \<open>
  \<open>minWindow\<close> of Algorithm/LinkedList.cpp, the sliding window that looks for a shortest substring with all
  characters of \<open>t\<close>. The two hash maps are association lists; reading \<open>s[s.size()]\<close> gives the null
  character and beyond it is undefined.
\<close>

type_synonym counts = "(char \<times> int) list"

definition at_key :: "counts \<Rightarrow> char \<Rightarrow> int" where
  "at_key m c = (case map_of m c of None \<Rightarrow> 0 | Some v \<Rightarrow> v)"

definition bump :: "int \<Rightarrow> char \<Rightarrow> counts \<Rightarrow> counts" where
  "bump d c m = AList.update c (at_key m c + d) m"

definition string_at :: "string \<Rightarrow> nat \<Rightarrow> char res" where
  "string_at s i = (if i < length s then Inr (s ! i) else if i = length s then Inr (CHR 0x00) else Inl Undefined)"

definition needs_of :: "string \<Rightarrow> counts" where
  "needs_of t = fold (bump 1) t []"

text \<open>The character \<open>c\<close> enters the window and \<open>d\<close> leaves it.\<close>

definition admit :: "counts \<Rightarrow> char \<Rightarrow> counts \<times> int \<Rightarrow> counts \<times> int" where
  "admit needs c s = (case s of (windows, valid) \<Rightarrow>
     if map_of needs c \<noteq> None then
       let windows = bump 1 c windows
       in (windows, if at_key windows c = at_key needs c then valid + 1 else valid)
     else (windows, valid))"

definition expel :: "counts \<Rightarrow> char \<Rightarrow> counts \<times> int \<Rightarrow> counts \<times> int" where
  "expel needs d s = (case s of (windows, valid) \<Rightarrow>
     if map_of needs d \<noteq> None then
       (bump (-1) d windows, if at_key windows d = at_key needs d then valid - 1 else valid)
     else (windows, valid))"

text \<open>The inner loop over \<open>(windows, valid)\<close>, \<open>left\<close> and the best window \<open>(start, len)\<close>.\<close>

type_synonym window_state = "(counts \<times> int) \<times> nat \<times> nat \<times> int"

definition shrink_step :: "string \<Rightarrow> counts \<Rightarrow> nat \<Rightarrow> window_state \<Rightarrow> window_state res" where
  "shrink_step s needs right st = (case st of (wv, left, start, len) \<Rightarrow>
     let (start, len) = (if int right - int left < len then (left, int right - int left) else (start, len))
     in res_bind (string_at s left) (\<lambda>d. Inr (expel needs d wv, left + 1, start, len)))"

definition window_step :: "string \<Rightarrow> counts \<Rightarrow> nat \<Rightarrow> window_state \<Rightarrow> window_state res" where
  "window_step s needs i st = (case st of (wv, left, start, len) \<Rightarrow>
     res_bind (string_at s i) (\<lambda>c.
       while_res (length s + 3) (\<lambda>(wv, left, start, len). snd wv = int (length needs))
         (shrink_step s needs (i + 1)) (admit needs c wv, left, start, len)))"

definition minWindow :: "string \<Rightarrow> string \<Rightarrow> string res" where
  "minWindow s t = (let needs = needs_of t in
     res_bind (for_each [0..<length s] (window_step s needs) (([], 0), 0, 0, INT_MAX))
       (\<lambda>(wv, left, start, len). Inr (if len = INT_MAX then [] else take (nat len) (drop start s))))"

section \<open>The counters\<close>

lemma at_key_bump: "at_key (bump d c m) k = (if k = c then at_key m c + d else at_key m k)"
  by (simp add: at_key_def bump_def update_conv')

lemma keys_bump: "map_of (bump d c m) k = None \<longleftrightarrow> k \<noteq> c \<and> map_of m k = None"
  by (simp add: bump_def update_conv')

lemma needs_fold:
  "at_key (fold (bump 1) t m) c = at_key m c + int (count (mset t) c) \<and>
   (map_of (fold (bump 1) t m) c = None \<longleftrightarrow> c \<notin> set t \<and> map_of m c = None)"
  by (induction t arbitrary: m) (auto simp: at_key_bump keys_bump)

lemma needs_of: "at_key (needs_of t) c = int (count (mset t) c)"
    "map_of (needs_of t) c = None \<longleftrightarrow> c \<notin> set t"
  using needs_fold [of t "[]" c] by (simp_all add: needs_of_def at_key_def)

lemma distinct_needs: "distinct (map fst m) \<Longrightarrow> distinct (map fst (fold (bump 1) t m))"
  by (induction t arbitrary: m) (simp_all add: bump_def distinct_update)

lemma size_needs: "length (needs_of t) = card (set t)"
proof -
  have "fst ` set (needs_of t) = set t" using needs_of(2) [of t] by (auto simp: map_of_eq_None_iff)
  moreover have "distinct (map fst (needs_of t))" unfolding needs_of_def by (rule distinct_needs) simp
  ultimately show ?thesis by (metis distinct_card length_map set_map)
qed

text \<open>\<open>counted t W (windows, valid)\<close>: the counters describe the multiset \<open>W\<close> in the window.\<close>

definition enough :: "string \<Rightarrow> char multiset \<Rightarrow> char set" where
  "enough t W = {c \<in> set t. count (mset t) c \<le> count W c}"

definition counted :: "string \<Rightarrow> char multiset \<Rightarrow> counts \<times> int \<Rightarrow> bool" where
  "counted t W s \<longleftrightarrow> (\<forall>c \<in> set t. at_key (fst s) c = int (count W c)) \<and> snd s = int (card (enough t W))"

lemma finite_enough [simp]: "finite (enough t W)"
  by (simp add: enough_def)

lemma enough_add: "enough t (add_mset c W) =
    (if c \<in> set t \<and> count (mset t) c = Suc (count W c) then insert c (enough t W) else enough t W)"
  by (auto simp: enough_def)

lemma enough_fresh: "count (mset t) c = Suc (count W c) \<Longrightarrow> c \<notin> enough t W"
  by (simp add: enough_def)

lemma counted_admit: "counted t W s \<Longrightarrow> counted t (add_mset c W) (admit (needs_of t) c s)"
  by (cases s) (auto simp: counted_def admit_def needs_of at_key_bump enough_add enough_fresh Let_def)

lemma counted_expel: "counted t (add_mset d W) s \<Longrightarrow> counted t W (expel (needs_of t) d s)"
  by (cases s) (auto simp: counted_def expel_def needs_of at_key_bump enough_add enough_fresh)

lemma counted_full: "counted t W s \<Longrightarrow> snd s = int (length (needs_of t)) \<longleftrightarrow> mset t \<subseteq># W"
proof -
  assume "counted t W s"
  then have "snd s = int (length (needs_of t)) \<longleftrightarrow> card (enough t W) = card (set t)"
    by (simp add: counted_def size_needs)
  also have "\<dots> \<longleftrightarrow> enough t W = set t"
    by (metis (no_types, lifting) List.finite_set card_subset_eq enough_def mem_Collect_eq subsetI)
  also have "\<dots> \<longleftrightarrow> mset t \<subseteq># W"
  proof
    assume e: "enough t W = set t"
    show "mset t \<subseteq># W"
    proof (rule mset_subset_eqI)
      fix c
      show "count (mset t) c \<le> count W c"
      proof (cases "c \<in> set t")
        case True
        then have "c \<in> enough t W" by (simp only: e)
        then show ?thesis by (simp add: enough_def)
      next
        case False
        then show ?thesis by (metis count_eq_zero_iff le0 set_mset_mset)
      qed
    qed
  qed (auto simp: enough_def dest: mset_subset_eq_count)
  finally show ?thesis .
qed

section \<open>The window\<close>

definition window :: "string \<Rightarrow> nat \<Rightarrow> nat \<Rightarrow> char multiset" where
  "window s a b = mset (drop a (take b s))"

lemma window_right: "a \<le> b \<Longrightarrow> b < length s \<Longrightarrow> window s a (Suc b) = add_mset (s ! b) (window s a b)"
  by (simp add: window_def take_Suc_conv_app_nth)

lemma window_left:
  assumes "a < b" and "b \<le> length s"
  shows "window s a b = add_mset (s ! a) (window s (Suc a) b)"
proof -
  have "drop a (take b s) = take b s ! a # drop (Suc a) (take b s)"
    using assms by (intro Cons_nth_drop_Suc [symmetric]) simp
  with assms show ?thesis by (simp add: window_def)
qed

lemma window_empty [simp]: "b \<le> a \<Longrightarrow> window s a b = {#}"
  by (simp add: window_def)

lemma mset_drop_subset: "mset (drop k xs) \<subseteq># mset xs"
  by (metis append_take_drop_id mset_append mset_subset_eq_add_right)

lemma window_mono: "a \<le> a' \<Longrightarrow> window s a' b \<subseteq># window s a b"
  using mset_drop_subset [of "a' - a" "drop a (take b s)"] by (simp add: window_def)

definition covers :: "string \<Rightarrow> string \<Rightarrow> nat \<Rightarrow> nat \<Rightarrow> bool" where
  "covers s t a b \<longleftrightarrow> mset t \<subseteq># window s a b"

lemma covers_mono: "covers s t a' b \<Longrightarrow> a \<le> a' \<Longrightarrow> covers s t a b"
  using window_mono [of a a' s b] by (auto simp: covers_def intro: subset_mset.order_trans)

lemma covers_less: "t \<noteq> [] \<Longrightarrow> covers s t a b \<Longrightarrow> a < b"
  by (rule ccontr) (simp add: covers_def not_less)

text \<open>
  What holds at the tests of the inner loop: the counters describe \<open>s[left, right)\<close>, the best window covers \<open>t\<close>,
  windows that begin before \<open>left\<close> and end at \<open>right\<close> are not shorter, and no covering window that ends at or before
  \<open>bound\<close> is.
\<close>

definition window_inv :: "string \<Rightarrow> string \<Rightarrow> nat \<Rightarrow> nat \<Rightarrow> window_state \<Rightarrow> bool" where
  "window_inv s t bound right st = (case st of (wv, left, start, len) \<Rightarrow>
     counted t (window s left right) wv \<and> left \<le> right \<and>
     (len = INT_MAX \<or> 0 \<le> len \<and> start + nat len \<le> right \<and> covers s t start (start + nat len)) \<and>
     (\<forall>a < left. len \<le> int right - int a) \<and>
     (\<forall>a b. b \<le> bound \<and> covers s t a b \<longrightarrow> len \<le> int b - int a))"

lemma shrink_keeps:
  assumes inv: "window_inv s t bound right st" and t: "t \<noteq> []" and r: "right \<le> length s"
    and test: "snd (fst st) = int (length (needs_of t))"
  shows "\<exists>st'. shrink_step s (needs_of t) right st = Inr st' \<and> window_inv s t bound right st' \<and>
    right - fst (snd st') < right - fst (snd st)"
proof -
  obtain wv left start len where st: "st = (wv, left, start, len)" by (cases st)
  have I: "counted t (window s left right) wv" "left \<le> right"
    "len = INT_MAX \<or> 0 \<le> len \<and> start + nat len \<le> right \<and> covers s t start (start + nat len)"
    "\<And>a. a < left \<Longrightarrow> len \<le> int right - int a"
    "\<And>a b. b \<le> bound \<Longrightarrow> covers s t a b \<Longrightarrow> len \<le> int b - int a"
    using inv by (auto simp: window_inv_def st)
  have cov: "covers s t left right" using counted_full [OF I(1)] test by (simp add: st covers_def)
  then have lt: "left < right" by (rule covers_less [OF t])
  define best where "best = (if int right - int left < len then (left, int right - int left) else (start, len))"
  have step: "shrink_step s (needs_of t) right st =
      Inr (expel (needs_of t) (s ! left) wv, left + 1, fst best, snd best)"
    using lt r by (simp add: shrink_step_def st string_at_def best_def)
  have "counted t (window s (left + 1) right) (expel (needs_of t) (s ! left) wv)"
    using I(1) window_left [OF lt r] by (simp add: counted_expel)
  moreover have "snd best = INT_MAX \<or> 0 \<le> snd best \<and> fst best + nat (snd best) \<le> right \<and>
      covers s t (fst best) (fst best + nat (snd best))"
  proof -
    have "left + nat (int right - int left) = right" using lt by simp
    with I(3) cov lt show ?thesis by (simp add: best_def)
  qed
  moreover have "snd best \<le> int right - int a" if "a < left + 1" for a
    using that I(4) [of a] by (cases "a = left") (auto simp: best_def)
  moreover have "snd best \<le> int b - int a" if "b \<le> bound" "covers s t a b" for a b
    using I(5) [OF that] by (auto simp: best_def)
  ultimately have "window_inv s t bound right (expel (needs_of t) (s ! left) wv, left + 1, fst best, snd best)"
    using lt by (simp add: window_inv_def case_prod_beta)
  with step lt show ?thesis by (simp add: st)
qed

lemma window_round:
  assumes inv: "window_inv s t i i st" and t: "t \<noteq> []" and i: "i < length s"
  shows "\<exists>st'. window_step s (needs_of t) i st = Inr st' \<and> window_inv s t (Suc i) (Suc i) st'"
proof -
  obtain wv left start len where st: "st = (wv, left, start, len)" by (cases st)
  let ?c = "\<lambda>(wv :: counts \<times> int, left :: nat, start :: nat, len :: int). snd wv = int (length (needs_of t))"
  have "window_inv s t i (Suc i) (admit (needs_of t) (s ! i) wv, left, start, len)"
    using inv window_right [of left i s] i by (fastforce simp: window_inv_def st counted_admit)
  then have "\<exists>st'. while_res (length s + 3) ?c (shrink_step s (needs_of t) (Suc i))
      (admit (needs_of t) (s ! i) wv, left, start, len) = Inr st' \<and> window_inv s t i (Suc i) st' \<and> \<not> ?c st'"
  proof (rule while_res_rule [where m = "\<lambda>st. Suc i - fst (snd st)"])
    fix st
    assume "window_inv s t i (Suc i) st" and "?c st"
    with shrink_keeps [OF _ t, of s i "Suc i" st] i
    show "\<exists>st'. shrink_step s (needs_of t) (Suc i) st = Inr st' \<and> window_inv s t i (Suc i) st' \<and>
        Suc i - fst (snd st') < Suc i - fst (snd st)" by (simp add: case_prod_beta)
  qed (use i in simp)
  then obtain wv' left' start' len' where w: "while_res (length s + 3) ?c (shrink_step s (needs_of t) (Suc i))
      (admit (needs_of t) (s ! i) wv, left, start, len) = Inr (wv', left', start', len')"
    "window_inv s t i (Suc i) (wv', left', start', len')" "snd wv' \<noteq> int (length (needs_of t))" by auto
  have uncovered: "\<not> covers s t left' (Suc i)"
    using w(2,3) counted_full [of t "window s left' (Suc i)" wv'] by (simp add: window_inv_def covers_def)
  have "len' \<le> int b - int a" if b: "b \<le> Suc i" and c: "covers s t a b" for a b
  proof (cases "b = Suc i")
    case True
    with c uncovered covers_mono [of s t a "Suc i" left'] have "a < left'" by force
    with w(2) True show ?thesis by (simp add: window_inv_def)
  next
    case False
    with b have "b \<le> i" by simp
    with w(2) c show ?thesis unfolding window_inv_def by blast
  qed
  with w(2) have "window_inv s t (Suc i) (Suc i) (wv', left', start', len')" by (simp add: window_inv_def)
  moreover have "window_step s (needs_of t) i st = Inr (wv', left', start', len')"
    using w(1) i by (simp add: window_step_def st string_at_def)
  ultimately show ?thesis by blast
qed

lemma sublist_window: "sublist v s \<longleftrightarrow> (\<exists>a b. b \<le> length s \<and> a \<le> b \<and> v = drop a (take b s))"
proof
  assume "sublist v s"
  then obtain p q where "s = p @ v @ q" by (auto simp: sublist_def)
  then show "\<exists>a b. b \<le> length s \<and> a \<le> b \<and> v = drop a (take b s)"
    by (intro exI [of _ "length p"] exI [of _ "length p + length v"]) simp
next
  assume "\<exists>a b. b \<le> length s \<and> a \<le> b \<and> v = drop a (take b s)"
  then show "sublist v s" by (metis sublist_order.order_trans sublist_drop sublist_take)
qed

text \<open>C12: \<open>minWindow\<close> terminates and is correct: for a non-empty \<open>t\<close> and a string that an \<open>int\<close> can index, when some
  substring of \<open>s\<close> has all characters of \<open>t\<close> with their multiplicity, the result is one of least length, and otherwise
  it is empty.\<close>
theorem minWindow_shortest:
  assumes "t \<noteq> []" and "int (length s) < INT_MAX"
  shows "\<exists>w. minWindow s t = Inr w \<and>
    (if \<exists>v. sublist v s \<and> mset t \<subseteq># mset v
     then sublist w s \<and> mset t \<subseteq># mset w \<and> (\<forall>v. sublist v s \<and> mset t \<subseteq># mset v \<longrightarrow> length w \<le> length v)
     else w = [])"
proof -
  have "\<exists>st. for_each [0..<length s] (window_step s (needs_of t)) (([], 0), 0, 0, INT_MAX) = Inr st \<and>
      window_inv s t (length s) (length s) st"
  proof (rule for_each_inv [where I = "\<lambda>i. window_inv s t i i"])
    have "enough t {#} = {}" by (auto simp: enough_def)
    moreover have "\<not> covers s t a 0" for a using covers_less [OF assms(1), of s a 0] by auto
    ultimately show "window_inv s t 0 0 (([], 0), 0, 0, INT_MAX)"
      by (simp add: window_inv_def counted_def at_key_def)
  qed (use window_round [OF _ assms(1)] in simp_all)
  then obtain wv left start len where r: "for_each [0..<length s] (window_step s (needs_of t)) (([], 0), 0, 0, INT_MAX) =
      Inr (wv, left, start, len)" "window_inv s t (length s) (length s) (wv, left, start, len)" by (metis prod_cases4)
  have found: "len = INT_MAX \<or> 0 \<le> len \<and> start + nat len \<le> length s \<and> covers s t start (start + nat len)"
    and least: "\<And>a b. b \<le> length s \<Longrightarrow> covers s t a b \<Longrightarrow> len \<le> int b - int a"
    using r(2) by (auto simp: window_inv_def)
  have short: "len \<le> int (length v)" if "sublist v s" "mset t \<subseteq># mset v" for v
  proof -
    obtain a b where v: "b \<le> length s" "a \<le> b" "v = drop a (take b s)" using \<open>sublist v s\<close> unfolding sublist_window by auto
    then have "len \<le> int b - int a" using least [of b a] that(2) by (simp add: covers_def window_def)
    with v show ?thesis by simp
  qed
  have none: "\<not> (sublist v s \<and> mset t \<subseteq># mset v)" if "len = INT_MAX" for v
  proof
    assume v: "sublist v s \<and> mset t \<subseteq># mset v"
    then have "length v \<le> length s" by (meson sublist_length_le)
    with short [of v] v that assms(2) show False by simp
  qed
  show ?thesis
  proof (cases "len = INT_MAX")
    case True
    then show ?thesis using none r(1) by (auto simp: minWindow_def)
  next
    case False
    let ?w = "take (nat len) (drop start s)"
    have w: "?w = drop start (take (start + nat len) s)" by (simp add: drop_take)
    have "sublist ?w s" by (meson sublist_drop sublist_take sublist_order.order_trans)
    moreover have "mset t \<subseteq># mset ?w" using found False unfolding w by (simp add: covers_def window_def)
    moreover have "length ?w \<le> length v" if "sublist v s \<and> mset t \<subseteq># mset v" for v
    proof -
      have "len \<le> int (length v)" using short that by blast
      then show ?thesis by simp
    qed
    moreover have "minWindow s t = Inr ?w" using r(1) False by (simp add: minWindow_def)
    moreover from calculation have ex: "\<exists>v. sublist v s \<and> mset t \<subseteq># mset v" by blast
    ultimately show ?thesis unfolding if_P [OF ex] by blast
  qed
qed

theorem minWindow_shortest_witness:
  "\<exists>w. minWindow ''abcb'' ''cb'' = Inr w \<and> length w = 2 \<and> mset ''cb'' \<subseteq># mset w"
proof -
  have "''abcb'' = ''a'' @ ''bc'' @ ''b''" by simp
  then have "sublist ''bc'' ''abcb''" unfolding sublist_def by blast
  then have v: "sublist ''bc'' ''abcb'' \<and> mset ''cb'' \<subseteq># mset ''bc''" by simp
  then have ex: "\<exists>v. sublist v ''abcb'' \<and> mset ''cb'' \<subseteq># mset v" by blast
  have "''cb'' \<noteq> []" "int (length ''abcb'') < INT_MAX" by (simp_all add: INT_MAX_def)
  from minWindow_shortest [OF this] obtain w where w: "minWindow ''abcb'' ''cb'' = Inr w"
    "sublist w ''abcb'' \<and> mset ''cb'' \<subseteq># mset w \<and>
      (\<forall>v. sublist v ''abcb'' \<and> mset ''cb'' \<subseteq># mset v \<longrightarrow> length w \<le> length v)"
    unfolding if_P [OF ex] by blast
  then have "mset ''cb'' \<subseteq># mset w \<and> length w \<le> length ''bc''" using v by blast
  moreover from this have "size (mset ''cb'') \<le> size (mset w)" by (blast intro: size_mset_mono)
  ultimately show ?thesis using w(1) by simp
qed

text \<open>With an empty \<open>t\<close> the inner loop runs past the end of the string.\<close>

lemma minWindow_empty_pattern: "minWindow ''a'' [] = Inl Undefined"
  by (simp add: minWindow_def window_step_def shrink_step_def string_at_def needs_of_def admit_def expel_def
    eval_nat_numeral INT_MAX_def Let_def)

end
