(* ===== verification/Algorithm_Graph.thy ===== *)
theory Algorithm_Graph
  imports Algorithm_Arrays
begin

text \<open>
  Algorithm/graphy.cpp: the two course schedules by depth-first search over global \<open>onPath\<close>, \<open>visited\<close>,
  \<open>hasCycle\<close> and \<open>postorder\<close>, the breadth-first variant, the bipartiteness test, Dijkstra's and Prim's algorithm.
  A node is the index of a vector; an index out of range, a negative one included, is undefined behaviour. A
  prerequisite \<open>(to, from)\<close> is the vector of these two numbers.
\<close>

section \<open>The graph\<close>

definition push_edge :: "nat \<times> nat \<Rightarrow> nat list list \<Rightarrow> nat list list res" where
  "push_edge e G = (case e of (to, from) \<Rightarrow>
     res_bind (vat G from) (\<lambda>succs. vput G from (succs @ [to])))"

definition build_graph :: "nat \<Rightarrow> (nat \<times> nat) list \<Rightarrow> nat list list res" where
  "build_graph n pre = for_each pre push_edge (replicate n [])"

definition edges :: "(nat \<times> nat) list \<Rightarrow> (nat \<times> nat) set" where
  "edges pre = {(u, v). (v, u) \<in> set pre}"

definition in_range :: "nat \<Rightarrow> (nat \<times> nat) list \<Rightarrow> bool" where
  "in_range n pre \<longleftrightarrow> list_all (\<lambda>(to, from). to < n \<and> from < n) pre"

lemma build_graph_edges:
  assumes "in_range n pre"
  shows "\<exists>G. build_graph n pre = Inr G \<and> length G = n \<and>
    (\<forall>u < n. set (G ! u) = {v. (u, v) \<in> edges pre})"
proof -
  have "\<exists>G'. for_each pre push_edge G = Inr G' \<and> length G' = n \<and>
      (\<forall>u < n. set (G' ! u) = set (G ! u) \<union> {v. (u, v) \<in> edges pre})" if "length G = n" for G
    using assms that
  proof (induction pre arbitrary: G)
    case Nil
    then show ?case by (simp add: edges_def)
  next
    case (Cons e pre)
    obtain t f where e: "e = (t, f)" by (cases e)
    let ?G = "G[f := G ! f @ [t]]"
    have f: "f < n" "in_range n pre" using Cons.prems(1) by (auto simp: in_range_def e)
    then obtain G' where G': "for_each pre push_edge ?G = Inr G'" "length G' = n"
      "\<forall>u < n. set (G' ! u) = set (?G ! u) \<union> {v. (u, v) \<in> edges pre}"
      using Cons.IH [of ?G] Cons.prems(2) by auto
    have "set (G' ! u) = set (G ! u) \<union> {v. (u, v) \<in> edges (e # pre)}" if "u < n" for u
      using G'(3) that f Cons.prems(2) by (auto simp: e edges_def nth_list_update)
    moreover have "push_edge e G = Inr ?G" using f Cons.prems(2) by (simp add: e push_edge_def)
    ultimately show ?case using G'(1,2) by (intro exI [of _ G']) simp
  qed
  from this [of "replicate n []"] show ?thesis by (auto simp: build_graph_def)
qed

section \<open>Depth-first search with a postorder\<close>

record dfs =
  onPath :: "bool list"
  visited :: "bool list"
  hasCycle :: bool

record dfs_post = dfs +
  postorder :: "nat list"

primrec traverse :: "nat \<Rightarrow> nat list list \<Rightarrow> nat \<Rightarrow> dfs_post \<Rightarrow> dfs_post res" where
  "traverse 0 G i st = Inl Diverges"
| "traverse (Suc n) G i st =
     res_bind (vat (onPath st) i) (\<lambda>p.
     let st = (if p then st\<lparr>hasCycle := True\<rparr> else st) in
     res_bind (vat (visited st) i) (\<lambda>v.
     if v \<or> hasCycle st then Inr st
     else
       let st = st\<lparr>visited := (visited st)[i := True], onPath := (onPath st)[i := True]\<rparr> in
       res_bind (vat G i) (\<lambda>succs.
       res_bind (for_each succs (traverse n G) st) (\<lambda>st.
         Inr (st\<lparr>postorder := postorder st @ [i], onPath := (onPath st)[i := False]\<rparr>)))))"

definition findOrder :: "nat \<Rightarrow> (nat \<times> nat) list \<Rightarrow> dfs_post \<Rightarrow> (nat list \<times> dfs_post) res" where
  "findOrder n pre st =
     (let st = st\<lparr>onPath := replicate n False, visited := replicate n False\<rparr> in
      res_bind (build_graph n pre) (\<lambda>G.
      res_bind (for_each [0..<n] (traverse (n + 1) G) st) (\<lambda>st.
        if hasCycle st then Inr ([], st)
        else let st = st\<lparr>postorder := rev (postorder st)\<rparr> in Inr (postorder st, st))))"

text \<open>The variant for \<open>canFinish\<close>, without a postorder.\<close>

primrec traverse_flag :: "nat \<Rightarrow> nat list list \<Rightarrow> nat \<Rightarrow> dfs \<Rightarrow> dfs res" where
  "traverse_flag 0 G i st = Inl Diverges"
| "traverse_flag (Suc n) G i st =
     (if hasCycle st then Inr st
      else res_bind (vat (onPath st) i) (\<lambda>p.
        if p then Inr (st\<lparr>hasCycle := True\<rparr>)
        else res_bind (vat (visited st) i) (\<lambda>v.
          if v then Inr st
          else
            let st = st\<lparr>visited := (visited st)[i := True], onPath := (onPath st)[i := True]\<rparr> in
            res_bind (vat G i) (\<lambda>succs.
            res_bind (for_each succs (traverse_flag n G) st) (\<lambda>st.
              Inr (st\<lparr>onPath := (onPath st)[i := False]\<rparr>))))))"

definition canFinish :: "nat \<Rightarrow> (nat \<times> nat) list \<Rightarrow> dfs \<Rightarrow> (bool \<times> dfs) res" where
  "canFinish n pre st =
     (let st = st\<lparr>onPath := replicate n False, visited := replicate n False\<rparr> in
      res_bind (build_graph n pre) (\<lambda>G.
      res_bind (for_each [0..<n] (traverse_flag (n + 1) G) st) (\<lambda>st. Inr (\<not> hasCycle st, st))))"

subsection \<open>The invariant\<close>

text \<open>
  Every successor of a finished node is finished before it, unless a cycle has been reported; \<open>E\<close> is the relation of
  the graph \<open>G\<close>.
\<close>

definition ordered :: "nat list list \<Rightarrow> nat list \<Rightarrow> bool" where
  "ordered G L \<longleftrightarrow> (\<forall>xs u ys. L = xs @ u # ys \<longrightarrow> set (G ! u) \<subseteq> set xs)"

definition rel :: "nat list list \<Rightarrow> (nat \<times> nat) set" where
  "rel G = {(u, v). u < length G \<and> v \<in> set (G ! u)}"

definition graph_ok :: "nat list list \<Rightarrow> bool" where
  "graph_ok G \<longleftrightarrow> (\<forall>u < length G. \<forall>v \<in> set (G ! u). v < length G)"

definition dfs_inv :: "nat list list \<Rightarrow> dfs_post \<Rightarrow> bool" where
  "dfs_inv G st \<longleftrightarrow> length (onPath st) = length G \<and> length (visited st) = length G \<and>
     (\<forall>i < length G. i \<in> set (postorder st) \<longleftrightarrow> visited st ! i \<and> \<not> onPath st ! i) \<and>
     set (postorder st) \<subseteq> {..<length G} \<and> distinct (postorder st) \<and>
     (\<forall>i < length G. onPath st ! i \<longrightarrow> visited st ! i) \<and>
     (\<not> hasCycle st \<longrightarrow> ordered G (postorder st)) \<and>
     (hasCycle st \<longrightarrow> (\<exists>x. (x, x) \<in> (rel G)\<^sup>+))"

definition unvisited :: "dfs_post \<Rightarrow> nat" where
  "unvisited st = card {i. i < length (visited st) \<and> \<not> visited st ! i}"

text \<open>What a call from a state \<open>st\<close> does.\<close>

definition dfs_step :: "nat list list \<Rightarrow> dfs_post \<Rightarrow> dfs_post \<Rightarrow> bool" where
  "dfs_step G st st' \<longleftrightarrow> dfs_inv G st' \<and> onPath st' = onPath st \<and>
     (\<forall>i < length G. visited st ! i \<longrightarrow> visited st' ! i) \<and> (hasCycle st \<longrightarrow> hasCycle st') \<and>
     set (postorder st) \<subseteq> set (postorder st')"

lemma dfs_step_refl: "dfs_inv G st \<Longrightarrow> dfs_step G st st"
  by (simp add: dfs_step_def)

lemma dfs_step_trans: "dfs_step G st st' \<Longrightarrow> dfs_step G st' st'' \<Longrightarrow> dfs_step G st st''"
  by (auto simp: dfs_step_def)

lemma ordered_snoc:
  assumes "ordered G L" and "set (G ! i) \<subseteq> set L"
  shows "ordered G (L @ [i])"
  unfolding ordered_def
proof (intro allI impI)
  fix xs u ys
  assume "L @ [i] = xs @ u # ys"
  then consider "ys = []" "L = xs" "i = u" | zs where "L = xs @ u # zs"
    by (cases ys rule: rev_cases) auto
  then show "set (G ! u) \<subseteq> set xs"
    using assms by cases (auto simp: ordered_def)
qed

lemma ordered_acyclic:
  assumes "ordered G L" and "distinct L" and "(u, v) \<in> (rel G)\<^sup>+" and "u \<in> set L"
  shows "\<exists>xs ys. L = xs @ u # ys \<and> v \<in> set xs"
  using assms(3)
proof (induction rule: trancl_induct)
  case (base v)
  with assms(1,4) show ?case by (metis (mono_tags, lifting) case_prodD mem_Collect_eq ordered_def rel_def split_list subsetD)
next
  case (step v w)
  then obtain xs ys where L: "L = xs @ u # ys" "v \<in> set xs" by blast
  then obtain as bs where "xs = as @ v # bs" by (meson split_list)
  with L(1) assms(1) have "set (G ! v) \<subseteq> set as" unfolding ordered_def by (metis append.assoc append_Cons)
  moreover have "w \<in> set (G ! v)" using step.hyps(2) by (simp add: rel_def)
  ultimately show ?case using L(1) \<open>xs = as @ v # bs\<close> by (intro exI [of _ xs] exI [of _ ys]) auto
qed

subsection \<open>One call\<close>

lemma unvisited_mono:
  assumes "dfs_inv G st" and "dfs_step G st st'"
  shows "unvisited st' \<le> unvisited st"
  unfolding unvisited_def using assms by (intro card_mono) (auto simp: dfs_step_def dfs_inv_def)

lemma traverse_loop:
  assumes n: "\<And>j s. dfs_inv G s \<Longrightarrow> j < length G \<Longrightarrow> unvisited s < n \<Longrightarrow>
      (\<forall>p < length G. onPath s ! p \<longrightarrow> (p, j) \<in> (rel G)\<^sup>+) \<Longrightarrow>
      \<exists>s'. traverse n G j s = Inr s' \<and> dfs_step G s s' \<and> (\<not> hasCycle s' \<longrightarrow> j \<in> set (postorder s'))"
    and ok: "graph_ok G" and i: "i < length G" and st: "dfs_inv G st" "unvisited st < n"
    and path: "\<forall>p < length G. onPath st ! p \<longrightarrow> p = i \<or> (p, i) \<in> (rel G)\<^sup>+"
  shows "set js \<subseteq> set (G ! i) \<Longrightarrow> dfs_step G st s \<Longrightarrow>
    \<exists>s'. for_each js (traverse n G) s = Inr s' \<and> dfs_step G st s' \<and> dfs_step G s s' \<and>
      (\<not> hasCycle s' \<longrightarrow> set js \<subseteq> set (postorder s'))"
proof (induction js arbitrary: s)
  case Nil
  then show ?case by (auto simp: dfs_step_def)
next
  case (Cons j js)
  have e: "(i, j) \<in> rel G" using Cons.prems(1) i by (simp add: rel_def)
  have j: "j < length G" using e ok by (auto simp: rel_def graph_ok_def)
  have s: "dfs_inv G s" "unvisited s < n" "onPath s = onPath st"
    using Cons.prems(2) unvisited_mono [OF st(1) Cons.prems(2)] st(2) by (auto simp: dfs_step_def)
  have "\<forall>p < length G. onPath s ! p \<longrightarrow> (p, j) \<in> (rel G)\<^sup>+"
    using path e s(3) by (auto intro: r_into_trancl trancl_into_trancl)
  then obtain t where t: "traverse n G j s = Inr t" "dfs_step G s t" "\<not> hasCycle t \<longrightarrow> j \<in> set (postorder t)"
    using n [OF s(1) j s(2)] by blast
  obtain s' where s': "for_each js (traverse n G) t = Inr s'" "dfs_step G st s'" "dfs_step G t s'"
    "\<not> hasCycle s' \<longrightarrow> set js \<subseteq> set (postorder s')"
    using Cons.IH [OF _ dfs_step_trans [OF Cons.prems(2) t(2)]] Cons.prems(1) by auto
  have "\<not> hasCycle s' \<longrightarrow> set (j # js) \<subseteq> set (postorder s')"
    using t(3) s'(3,4) by (auto simp: dfs_step_def)
  with t(1) s' dfs_step_trans [OF t(2) s'(3)] show ?case by auto
qed

lemma dfs_enter:
  assumes "dfs_inv G st" and "i < length G" and "\<not> visited st ! i"
  defines "st1 \<equiv> st\<lparr>visited := (visited st)[i := True], onPath := (onPath st)[i := True]\<rparr>"
  shows "dfs_inv G st1" and "unvisited st1 < unvisited st"
proof -
  show "dfs_inv G st1" using assms(1-3) by (auto simp: dfs_inv_def st1_def nth_list_update)
  have "{k. k < length (visited st1) \<and> \<not> visited st1 ! k} \<subset> {k. k < length (visited st) \<and> \<not> visited st ! k}"
    using assms(1-3) by (auto simp: dfs_inv_def st1_def nth_list_update)
  then show "unvisited st1 < unvisited st" unfolding unvisited_def by (intro psubset_card_mono) auto
qed

lemma dfs_leave:
  assumes st: "dfs_inv G st" "i < length G" "\<not> visited st ! i" "\<not> hasCycle st"
    and st1: "st1 = st\<lparr>visited := (visited st)[i := True], onPath := (onPath st)[i := True]\<rparr>"
    and s: "dfs_step G st1 s" and succs: "\<not> hasCycle s \<longrightarrow> set (G ! i) \<subseteq> set (postorder s)"
  defines "s' \<equiv> s\<lparr>postorder := postorder s @ [i], onPath := (onPath s)[i := False]\<rparr>"
  shows "dfs_step G st s'"
proof -
  have len: "length (onPath st) = length G" "length (visited st) = length G" using st(1) by (auto simp: dfs_inv_def)
  have on: "onPath s = (onPath st)[i := True]" "\<not> onPath st ! i"
    using s st by (auto simp: dfs_step_def st1 dfs_inv_def)
  have same: "onPath s' = onPath st" using on len st(2) by (simp add: s'_def) (metis list_update_id)
  have inv: "dfs_inv G s" using s by (simp add: dfs_step_def)
  have new: "i \<notin> set (postorder s)" using inv on(1) st(2) len by (auto simp: dfs_inv_def)
  have vis: "visited s ! i" using s st(2) len by (auto simp: dfs_step_def st1)
  have "ordered G (postorder s @ [i])" if "\<not> hasCycle s"
    using that inv succs by (intro ordered_snoc) (auto simp: dfs_inv_def)
  moreover have "k \<in> set (postorder s') \<longleftrightarrow> visited s' ! k \<and> \<not> onPath s' ! k" if k: "k < length G" for k
  proof (cases "k = i")
    case True
    then show ?thesis using vis on(2) same by (simp add: s'_def)
  next
    case False
    then have "onPath s ! k = onPath st ! k" using on(1) by simp
    with False inv k same show ?thesis by (auto simp: dfs_inv_def s'_def)
  qed
  moreover have "visited s' ! k" if "k < length G" "onPath s' ! k" for k
    using that same on(1) inv by (cases "k = i") (auto simp: dfs_inv_def s'_def vis)
  ultimately have "dfs_inv G s'" using inv new st(2) len same unfolding dfs_inv_def
    by (auto simp: s'_def)
  moreover have "visited s' ! k" if "k < length G" "visited st ! k" for k
    using that s st(2) len by (auto simp: dfs_step_def st1 s'_def nth_list_update)
  moreover have "set (postorder st) \<subseteq> set (postorder s')" using s by (auto simp: dfs_step_def st1 s'_def)
  ultimately show ?thesis using same st(4) by (simp add: dfs_step_def)
qed

lemma traverse_correct:
  assumes "graph_ok G"
  shows "dfs_inv G st \<Longrightarrow> i < length G \<Longrightarrow> unvisited st < fuel \<Longrightarrow>
    (\<forall>p < length G. onPath st ! p \<longrightarrow> (p, i) \<in> (rel G)\<^sup>+) \<Longrightarrow>
    \<exists>st'. traverse fuel G i st = Inr st' \<and> dfs_step G st st' \<and> (\<not> hasCycle st' \<longrightarrow> i \<in> set (postorder st'))"
proof (induction fuel arbitrary: st i)
  case (Suc n)
  have len: "length (onPath st) = length G" "length (visited st) = length G"
    using Suc.prems(1) by (auto simp: dfs_inv_def)
  consider (on) "onPath st ! i" | (seen) "\<not> onPath st ! i" "visited st ! i \<or> hasCycle st"
    | (new) "\<not> onPath st ! i" "\<not> visited st ! i" "\<not> hasCycle st" by blast
  then show ?case
  proof cases
    case on
    then have "visited st ! i" "(i, i) \<in> (rel G)\<^sup>+" using Suc.prems by (auto simp: dfs_inv_def)
    then have "dfs_step G st (st\<lparr>hasCycle := True\<rparr>)" using Suc.prems(1) by (auto simp: dfs_step_def dfs_inv_def)
    with on Suc.prems(2) len show ?thesis by simp
  next
    case seen
    then have "\<not> hasCycle st \<longrightarrow> i \<in> set (postorder st)" using Suc.prems(1,2) by (auto simp: dfs_inv_def)
    with seen Suc.prems(2) len dfs_step_refl [OF Suc.prems(1)] show ?thesis by simp
  next
    case new
    let ?st = "st\<lparr>visited := (visited st)[i := True], onPath := (onPath st)[i := True]\<rparr>"
    note ent = dfs_enter [OF Suc.prems(1,2) new(2)]
    have "\<exists>s'. for_each (G ! i) (traverse n G) ?st = Inr s' \<and> dfs_step G ?st s' \<and> dfs_step G ?st s' \<and>
        (\<not> hasCycle s' \<longrightarrow> set (G ! i) \<subseteq> set (postorder s'))"
    proof (rule traverse_loop [OF Suc.IH assms Suc.prems(2) ent(1)])
      show "unvisited ?st < n" using ent(2) Suc.prems(3) by simp
      show "\<forall>p < length G. onPath ?st ! p \<longrightarrow> p = i \<or> (p, i) \<in> (rel G)\<^sup>+"
        using Suc.prems(2,4) len by (auto simp: nth_list_update)
      show "dfs_step G ?st ?st" by (rule dfs_step_refl [OF ent(1)])
    qed simp_all
    then obtain s where s: "for_each (G ! i) (traverse n G) ?st = Inr s" "dfs_step G ?st s"
      "\<not> hasCycle s \<longrightarrow> set (G ! i) \<subseteq> set (postorder s)" by blast
    have "traverse (Suc n) G i st = Inr (s\<lparr>postorder := postorder s @ [i], onPath := (onPath s)[i := False]\<rparr>)"
      using s(1) new Suc.prems(2) len by simp
    with dfs_leave [OF Suc.prems(1,2) new(2,3) refl s(2,3)] show ?thesis
      by (intro exI [of _ "s\<lparr>postorder := postorder s @ [i], onPath := (onPath s)[i := False]\<rparr>"])
        (simp del: traverse.simps)
  qed
qed simp

subsection \<open>The schedules\<close>

definition fresh :: "nat \<Rightarrow> 'a dfs_scheme \<Rightarrow> 'a dfs_scheme" where
  "fresh n st = st\<lparr>onPath := replicate n False, visited := replicate n False\<rparr>"

lemma dfs_all:
  assumes ok: "graph_ok G" and st: "postorder st = []" "\<not> hasCycle st"
  shows "\<exists>st'. for_each [0..<length G] (traverse (length G + 1) G) (fresh (length G) st) = Inr st' \<and>
    dfs_inv G st' \<and> (\<not> hasCycle st' \<longrightarrow> {..<length G} \<subseteq> set (postorder st'))"
proof -
  let ?n = "length G" and ?s = "fresh (length G) st"
  define I where "I = (\<lambda>i s. dfs_step G ?s s \<and> (\<not> hasCycle s \<longrightarrow> {..<i} \<subseteq> set (postorder s)))"
  have inv: "dfs_inv G ?s" using st by (simp add: fresh_def dfs_inv_def ordered_def)
  have "\<exists>s. for_each [0..<?n] (traverse (?n + 1) G) ?s = Inr s \<and> I ?n s"
  proof (rule for_each_inv)
    show "I 0 ?s" using dfs_step_refl [OF inv] by (simp add: I_def)
    fix i s
    assume i: "i < ?n" and I: "I i s"
    have s: "dfs_inv G s" "onPath s = replicate ?n False" using I by (auto simp: I_def dfs_step_def fresh_def)
    have "unvisited s \<le> card {..<?n}"
      unfolding unvisited_def using s(1) by (intro card_mono) (auto simp: dfs_inv_def)
    then obtain t where t: "traverse (?n + 1) G i s = Inr t" "dfs_step G s t" "\<not> hasCycle t \<longrightarrow> i \<in> set (postorder t)"
      using traverse_correct [OF ok s(1) i, of "?n + 1"] s(2) by auto
    have "I (Suc i) t"
      using I t dfs_step_trans [of G ?s s t] by (auto simp: I_def dfs_step_def less_Suc_eq)
    with t(1) show "\<exists>t. traverse (?n + 1) G i s = Inr t \<and> I (Suc i) t" by blast
  qed simp
  then show ?thesis by (auto simp: I_def dfs_step_def)
qed

lemma rel_edges:
  assumes "in_range n pre" and "length G = n" and "\<forall>u < n. set (G ! u) = {v. (u, v) \<in> edges pre}"
  shows "rel G = edges pre" and "graph_ok G"
proof -
  have r: "u < n \<and> v < n" if "(u, v) \<in> edges pre" for u v
    using that assms(1) by (auto simp: edges_def in_range_def list_all_iff)
  then show "rel G = edges pre" using assms(2,3) by (auto simp: rel_def)
  show "graph_ok G" using r assms(2,3) by (auto simp: graph_ok_def)
qed

lemma dfs_result:
  assumes inv: "dfs_inv G st" and all: "\<not> hasCycle st \<longrightarrow> {..<length G} \<subseteq> set (postorder st)"
  shows "hasCycle st \<longleftrightarrow> \<not> acyclic (rel G)"
proof
  assume "hasCycle st"
  with inv show "\<not> acyclic (rel G)" by (auto simp: dfs_inv_def acyclic_def)
next
  assume "\<not> acyclic (rel G)"
  then obtain x where x: "(x, x) \<in> (rel G)\<^sup>+" by (auto simp: acyclic_def)
  show "hasCycle st"
  proof (rule ccontr)
    assume n: "\<not> hasCycle st"
    have "x < length G" using x by (induction rule: converse_trancl_induct) (auto simp: rel_def)
    with n all have m: "x \<in> set (postorder st)" by auto
    have o: "ordered G (postorder st)" "distinct (postorder st)" using inv n by (auto simp: dfs_inv_def)
    from ordered_acyclic [OF o x m] obtain xs ys where "postorder st = xs @ x # ys" "x \<in> set xs" by blast
    with o(2) show False by simp
  qed
qed

text \<open>C10: \<open>findOrder\<close> is correct: with fresh globals, an acyclic course graph gives every course once, each
  before the courses that need it, and a cyclic one gives no course.\<close>
theorem findOrder_topological:
  assumes "in_range n pre" and "postorder st = []" and "\<not> hasCycle st"
  shows "\<exists>ord st'. findOrder n pre st = Inr (ord, st') \<and>
    (if acyclic (edges pre)
     then distinct ord \<and> set ord = {..<n} \<and>
       (\<forall>xs u ys v. ord = xs @ u # ys \<and> (u, v) \<in> edges pre \<longrightarrow> v \<in> set ys)
     else ord = [])"
proof -
  obtain G where G: "build_graph n pre = Inr G" "length G = n" "\<forall>u < n. set (G ! u) = {v. (u, v) \<in> edges pre}"
    using build_graph_edges [OF assms(1)] by blast
  note r = rel_edges [OF assms(1) G(2,3)]
  obtain st' where d: "for_each [0..<n] (traverse (n + 1) G) (fresh n st) = Inr st'" "dfs_inv G st'"
    "\<not> hasCycle st' \<longrightarrow> {..<n} \<subseteq> set (postorder st')"
    using dfs_all [OF r(2) assms(2,3)] G(2) by auto
  have flag: "hasCycle st' \<longleftrightarrow> \<not> acyclic (edges pre)" using dfs_result [OF d(2)] d(3) G(2) r(1) by simp
  show ?thesis
  proof (cases "acyclic (edges pre)")
    case True
    then have c: "\<not> hasCycle st'" using flag by simp
    have o: "ordered G (postorder st')" "distinct (postorder st')" "set (postorder st') = {..<n}"
      using d(2,3) c G(2) by (auto simp: dfs_inv_def)
    have "v \<in> set ys" if "rev (postorder st') = xs @ u # ys" "(u, v) \<in> edges pre" for xs u ys v
    proof -
      have "postorder st' = rev ys @ u # rev xs" using that(1) by (metis append.assoc append_Cons append_Nil rev.simps(2) rev_append rev_rev_ident)
      then have "set (G ! u) \<subseteq> set (rev ys)" using o(1) unfolding ordered_def by blast
      moreover have "v \<in> set (G ! u)" using that(2) r(1) by (auto simp: rel_def)
      ultimately show ?thesis by auto
    qed
    with True c o d(1) G(1) show ?thesis by (auto simp: findOrder_def fresh_def)
  next
    case False
    with flag d(1) G(1) show ?thesis by (simp add: findOrder_def fresh_def)
  qed
qed

theorem findOrder_topological_witness:
  "\<exists>ord st'. findOrder 2 [(0, 1)] \<lparr>onPath = [], visited = [], hasCycle = False, postorder = []\<rparr> = Inr (ord, st') \<and>
    ord = [1, 0]"
proof -
  let ?st = "\<lparr>onPath = [], visited = [], hasCycle = False, postorder = []\<rparr>"
  have ac: "acyclic (edges [(0, 1)])"
  proof (rule acyclicI_order [where f = "\<lambda>x. x"])
    fix a b :: nat
    assume "(a, b) \<in> edges [(0, 1)]"
    then show "b < a" by (simp add: edges_def)
  qed
  have "in_range 2 [(0, 1)]" by (simp add: in_range_def)
  from findOrder_topological [OF this, of ?st] obtain ord st' where
    f: "findOrder 2 [(0, 1)] ?st = Inr (ord, st')" "distinct ord" "set ord = {..<2}"
      "\<forall>xs u ys v. ord = xs @ u # ys \<and> (u, v) \<in> edges [(0, 1)] \<longrightarrow> v \<in> set ys"
    unfolding if_P [OF ac] by (metis dfs.select_convs(3) dfs_post.select_convs(1))
  have "length ord = 2" using f(2,3) by (metis card_lessThan distinct_card)
  then obtain a b where o: "ord = [a, b]" by (metis (no_types) One_nat_def Suc_1 length_0_conv length_Suc_conv)
  have "{..<2 :: nat} = {0, 1}" by (auto simp: numeral_2_eq_2 less_Suc_eq)
  then have "{a, b} = {0, 1}" using f(3) o by simp
  then have "a = 0 \<and> b = 1 \<or> a = 1 \<and> b = 0" unfolding doubleton_eq_iff by blast
  moreover have "\<not> b = 1"
  proof
    assume "b = 1"
    then have "ord = [a] @ 1 # [] \<and> (1, 0) \<in> edges [(0, 1)]" using o by (simp add: edges_def)
    with f(4) show False by (metis empty_iff list.set(1))
  qed
  ultimately show ?thesis using f(1) o by auto
qed

subsection \<open>\<open>canFinish\<close>\<close>

definition shape_ok :: "nat list list \<Rightarrow> 'a dfs_scheme \<Rightarrow> bool" where
  "shape_ok G st \<longleftrightarrow> length (onPath st) = length G \<and> length (visited st) = length G"

text \<open>\<open>same_run G r q\<close>: the run \<open>q\<close> without a postorder is the run \<open>r\<close> with its postorder left out.\<close>

definition same_run :: "nat list list \<Rightarrow> dfs_post res \<Rightarrow> dfs res \<Rightarrow> bool" where
  "same_run G r q \<longleftrightarrow> (case r of Inl e \<Rightarrow> q = Inl e | Inr s \<Rightarrow> shape_ok G s \<and> q = Inr (dfs.truncate s))"

lemma same_run_each:
  assumes "\<And>j s. j \<in> set js \<Longrightarrow> shape_ok G s \<Longrightarrow> same_run G (f j s) (g j (dfs.truncate s))" and "shape_ok G s"
  shows "same_run G (for_each js f s) (for_each js g (dfs.truncate s))"
  using assms
proof (induction js arbitrary: s)
  case (Cons j js)
  have "same_run G (f j s) (g j (dfs.truncate s))" using Cons.prems by simp
  with Cons show ?case by (cases "f j s") (auto simp: same_run_def)
qed (simp add: same_run_def)

lemma traverse_same_run:
  assumes "graph_ok G"
  shows "i < length G \<Longrightarrow> shape_ok G st \<Longrightarrow>
    same_run G (traverse fuel G i st) (traverse_flag fuel G i (dfs.truncate st))"
proof (induction fuel arbitrary: i st)
  case (Suc n)
  let ?st = "st\<lparr>visited := (visited st)[i := True], onPath := (onPath st)[i := True]\<rparr>"
  have tr: "dfs.truncate ?st = (dfs.truncate st)\<lparr>visited := (visited st)[i := True], onPath := (onPath st)[i := True]\<rparr>"
    by (simp add: dfs.truncate_def)
  have fields: "onPath (dfs.truncate st) = onPath st" "visited (dfs.truncate st) = visited st"
    "hasCycle (dfs.truncate st) = hasCycle st" by (simp_all add: dfs.truncate_def)
  have len: "i < length (onPath st)" "i < length (visited st)" using Suc.prems by (simp_all add: shape_ok_def)
  show ?case
  proof (cases "hasCycle st \<or> onPath st ! i \<or> visited st ! i")
    case True
    then show ?thesis using len Suc.prems(2) fields by (cases "onPath st ! i"; cases "hasCycle st")
        (auto simp: same_run_def shape_ok_def dfs.truncate_def)
  next
    case False
    have "same_run G (for_each (G ! i) (traverse n G) ?st) (for_each (G ! i) (traverse_flag n G) (dfs.truncate ?st))"
      using Suc assms by (intro same_run_each) (auto simp: graph_ok_def shape_ok_def)
    then show ?thesis using False len Suc.prems(1) fields unfolding tr
      by (cases "for_each (G ! i) (traverse n G) ?st") (auto simp: same_run_def shape_ok_def dfs.truncate_def)
  qed
qed (simp add: same_run_def)

text \<open>\<open>canFinish\<close> runs in step with \<open>findOrder\<close>: started with the same globals, the two searches set the
  same marks and the same flag, so that \<open>canFinish\<close> returns \<open>true\<close> exactly when \<open>findOrder\<close> finds no cycle; on fresh
  globals that is when the course graph is acyclic.\<close>

lemma canFinish_agrees_with_findOrder:
  assumes "in_range n pre"
  shows "(\<forall>st ord st'. findOrder n pre st = Inr (ord, st') \<longrightarrow>
      canFinish n pre (dfs.truncate st) = Inr (\<not> hasCycle st', dfs.truncate st')) \<and>
    (\<forall>st. \<not> hasCycle st \<longrightarrow> (\<exists>st'. canFinish n pre st = Inr (acyclic (edges pre), st')))"
proof -
  obtain G where G: "build_graph n pre = Inr G" "length G = n" "\<forall>u < n. set (G ! u) = {v. (u, v) \<in> edges pre}"
    using build_graph_edges [OF assms(1)] by blast
  note r = rel_edges [OF assms(1) G(2,3)]
  have run: "same_run G (for_each [0..<n] (traverse (n + 1) G) (fresh n st))
      (for_each [0..<n] (traverse_flag (n + 1) G) (fresh n (dfs.truncate st)))" for st :: dfs_post
  proof -
    have "same_run G (for_each [0..<n] (traverse (n + 1) G) (fresh n st))
      (for_each [0..<n] (traverse_flag (n + 1) G) (dfs.truncate (fresh n st)))"
      using G(2) by (intro same_run_each traverse_same_run [OF r(2)]) (auto simp: shape_ok_def fresh_def)
    then show ?thesis by (simp add: fresh_def dfs.truncate_def)
  qed
  have "canFinish n pre (dfs.truncate st) = Inr (\<not> hasCycle st', dfs.truncate st')"
    if f: "findOrder n pre st = Inr (ord, st')" for st ord st'
  proof -
    obtain t where t: "for_each [0..<n] (traverse (n + 1) G) (fresh n st) = Inr t" "hasCycle st' = hasCycle t"
      "dfs.truncate st' = dfs.truncate t"
      using f G(1) by (auto simp: findOrder_def Let_def fresh_def dfs.truncate_def split: if_splits)
    with run [of st] have "for_each [0..<n] (traverse_flag (n + 1) G) (fresh n (dfs.truncate st)) = Inr (dfs.truncate t)"
      by (simp add: same_run_def)
    moreover have "hasCycle (dfs.truncate t) = hasCycle t" by (simp add: dfs.truncate_def)
    ultimately show ?thesis using G(1) t(2,3) by (simp add: canFinish_def fresh_def)
  qed
  moreover have "\<exists>st'. canFinish n pre st = Inr (acyclic (edges pre), st')" if "\<not> hasCycle st" for st
  proof -
    let ?st = "dfs.extend st (dfs_post.fields [])"
    have e: "dfs.truncate ?st = st" "postorder ?st = []" "\<not> hasCycle ?st"
      using that by (simp_all add: dfs.defs dfs_post.defs)
    obtain t where t: "for_each [0..<n] (traverse (n + 1) G) (fresh n ?st) = Inr t" "dfs_inv G t"
      "\<not> hasCycle t \<longrightarrow> {..<n} \<subseteq> set (postorder t)"
      using dfs_all [OF r(2) e(2,3)] G(2) by auto
    have "hasCycle t \<longleftrightarrow> \<not> acyclic (edges pre)" using dfs_result [OF t(2)] t(3) G(2) r(1) by simp
    moreover have "for_each [0..<n] (traverse_flag (n + 1) G) (fresh n st) = Inr (dfs.truncate t)"
      using run [of ?st] t(1) e(1) by (simp add: same_run_def)
    moreover have "hasCycle (dfs.truncate t) = hasCycle t" by (simp add: dfs.truncate_def)
    ultimately show ?thesis using G(1) by (simp add: canFinish_def fresh_def)
  qed
  ultimately show ?thesis by blast
qed

lemma canFinish_agrees_with_findOrder_witness:
  "\<exists>st'. canFinish 2 [(0, 1)] \<lparr>onPath = [], visited = [], hasCycle = False\<rparr> = Inr (acyclic (edges [(0, 1)]), st')"
proof -
  have "in_range 2 [(0, 1)]" by (simp add: in_range_def)
  from conjunct2 [OF canFinish_agrees_with_findOrder [OF this]] show ?thesis by (metis dfs.select_convs(3))
qed

text \<open>Nothing resets \<open>hasCycle\<close>: after one cyclic graph every later answer is \<open>false\<close>.\<close>

lemma canFinish_stale:
  assumes "in_range n pre" and "hasCycle st"
  shows "\<exists>st'. canFinish n pre st = Inr (False, st')"
proof -
  obtain G where G: "build_graph n pre = Inr G" using build_graph_edges [OF assms(1)] by blast
  have "for_each js (traverse_flag (n + 1) G) s = Inr s" if "hasCycle s" for js s
    using that by (induction js) simp_all
  then show ?thesis using G assms(2) by (simp add: canFinish_def)
qed

end
