(* ===== verification/Algorithm_DP.thy ===== *)
theory Algorithm_DP
  imports Algorithm_Arrays
begin

text \<open>
  The tables of Algorithm/DynamicProgramming.cpp. A table is a list of rows; an access outside of it is
  undefined. \<open>knapsack\<close> names an undeclared variable and has no meaning.
\<close>

type_synonym 'a table = "'a list list"

definition tget :: "'a table \<Rightarrow> nat \<Rightarrow> nat \<Rightarrow> 'a res" where
  "tget dp i j = res_bind (vat dp i) (\<lambda>row. vat row j)"

definition tput :: "'a table \<Rightarrow> nat \<Rightarrow> nat \<Rightarrow> 'a \<Rightarrow> 'a table res" where
  "tput dp i j x = res_bind (vat dp i) (\<lambda>row. res_bind (vput row j x) (vput dp i))"

definition table :: "nat \<Rightarrow> nat \<Rightarrow> 'a \<Rightarrow> 'a table" where
  "table m n x = replicate m (replicate n x)"

text \<open>\<open>shape\<close> is kept by writes inside of it, and a read then sees the last write.\<close>

definition shape :: "nat \<Rightarrow> nat \<Rightarrow> 'a table \<Rightarrow> bool" where
  "shape m n dp \<longleftrightarrow> length dp = m \<and> (\<forall>i < m. length (dp ! i) = n)"

definition cell :: "'a table \<Rightarrow> nat \<Rightarrow> nat \<Rightarrow> 'a" where
  "cell dp i j = dp ! i ! j"

definition set_cell :: "'a table \<Rightarrow> nat \<Rightarrow> nat \<Rightarrow> 'a \<Rightarrow> 'a table" where
  "set_cell dp i j x = dp[i := (dp ! i)[j := x]]"

lemma tget_ok [simp]: "shape m n dp \<Longrightarrow> i < m \<Longrightarrow> j < n \<Longrightarrow> tget dp i j = Inr (cell dp i j)"
  by (simp add: tget_def shape_def cell_def)

lemma tput_ok [simp]: "shape m n dp \<Longrightarrow> i < m \<Longrightarrow> j < n \<Longrightarrow> tput dp i j x = Inr (set_cell dp i j x)"
  by (simp add: tput_def shape_def set_cell_def)

lemma shape_set_cell [simp]: "shape m n (set_cell dp i j x) = shape m n dp"
  by (cases "i < length dp") (auto simp: shape_def set_cell_def nth_list_update)

lemma cell_set_cell [simp]:
  "shape m n dp \<Longrightarrow> i < m \<Longrightarrow> j < n \<Longrightarrow> cell (set_cell dp i j x) k l = (if k = i \<and> l = j then x else cell dp k l)"
  by (auto simp: shape_def cell_def set_cell_def nth_list_update)

lemma shape_table [simp]: "shape m n (table m n x)"
  by (simp add: shape_def table_def)

lemma cell_table [simp]: "i < m \<Longrightarrow> j < n \<Longrightarrow> cell (table m n x) i j = x"
  by (simp add: cell_def table_def)

text \<open>
  Filling the rows \<open>1..m\<close> of a table from left to right: when the value computed for \<open>(i, j)\<close> depends only on rows
  above and cells to the left, and is \<open>v i j\<close> if those hold \<open>v\<close>, the table holds \<open>v\<close> at the end.
\<close>

definition fill :: "(nat \<Rightarrow> nat \<Rightarrow> 'a table \<Rightarrow> 'a table res) \<Rightarrow> nat \<Rightarrow> nat \<Rightarrow> 'a table \<Rightarrow> 'a table res" where
  "fill step m n = for_each [1..<m + 1] (\<lambda>i. for_each [1..<n + 1] (\<lambda>j. step i j))"

lemma fill_values:
  assumes sh: "shape (m + 1) (n + 1) dp"
    and top: "\<And>j. j \<le> n \<Longrightarrow> cell dp 0 j = v 0 j" and left: "\<And>i. i \<le> m \<Longrightarrow> cell dp i 0 = v i 0"
    and step: "\<And>i j dp. 1 \<le> i \<Longrightarrow> i \<le> m \<Longrightarrow> 1 \<le> j \<Longrightarrow> j \<le> n \<Longrightarrow> shape (m + 1) (n + 1) dp \<Longrightarrow>
      (\<forall>k < i. \<forall>l \<le> n. cell dp k l = v k l) \<Longrightarrow> (\<forall>l < j. cell dp i l = v i l) \<Longrightarrow>
      step i j dp = Inr (set_cell dp i j (v i j))"
  shows "\<exists>dp'. fill step m n dp = Inr dp' \<and> shape (m + 1) (n + 1) dp' \<and> (\<forall>i \<le> m. \<forall>j \<le> n. cell dp' i j = v i j)"
proof -
  define I where "I = (\<lambda>i dp. shape (m + 1) (n + 1) dp \<and> (\<forall>k < i. \<forall>l \<le> n. cell dp k l = v k l) \<and>
    (\<forall>k \<le> m. cell dp k 0 = v k 0))"
  define J where "J = (\<lambda>i j dp. I i dp \<and> (\<forall>l < j. cell dp i l = v i l))"
  have row: "\<exists>dp'. for_each [1..<n + 1] (step i) dp = Inr dp' \<and> J i (n + 1) dp'"
    if i: "1 \<le> i" "i \<le> m" and I: "I i dp" for i dp
  proof (rule for_each_inv)
    show "J i 1 dp" using I i by (simp add: J_def I_def)
    fix j dp
    assume j: "1 \<le> j" "j < n + 1" and J: "J i j dp"
    have "step i j dp = Inr (set_cell dp i j (v i j))" using step [OF i] j J by (auto simp: J_def I_def)
    moreover have "J i (Suc j) (set_cell dp i j (v i j))"
    proof -
      have "cell (set_cell dp i j x) k l = (if k = i \<and> l = j then x else cell dp k l)" for x k l
        using J i j by (intro cell_set_cell [where m = "m + 1" and n = "n + 1"]) (simp_all add: J_def I_def)
      with J i j show ?thesis by (auto simp: J_def I_def less_Suc_eq)
    qed
    ultimately show "\<exists>dp'. step i j dp = Inr dp' \<and> J i (Suc j) dp'" by blast
  qed simp
  have "\<exists>dp'. for_each [1..<m + 1] (\<lambda>i. for_each [1..<n + 1] (step i)) dp = Inr dp' \<and> I (m + 1) dp'"
  proof (rule for_each_inv)
    show "I 1 dp" using sh top left by (simp add: I_def)
    fix i dp
    assume "1 \<le> i" "i < m + 1" "I i dp"
    with row [of i dp] obtain dp' where r: "for_each [1..<n + 1] (step i) dp = Inr dp'" "J i (n + 1) dp'" by auto
    then have "I (Suc i) dp'" unfolding J_def I_def by (metis Suc_eq_plus1 less_Suc_eq less_Suc_eq_le)
    with r(1) show "\<exists>dp'. for_each [1..<n + 1] (step i) dp = Inr dp' \<and> I (Suc i) dp'" by blast
  qed simp
  then show ?thesis by (auto simp: fill_def I_def less_Suc_eq_le)
qed

section \<open>\<open>longestCommonSubsequence\<close>\<close>

definition lcs_step :: "string \<Rightarrow> string \<Rightarrow> nat \<Rightarrow> nat \<Rightarrow> int table \<Rightarrow> int table res" where
  "lcs_step s1 s2 i j dp =
     res_bind (vat s1 (i - 1)) (\<lambda>a. res_bind (vat s2 (j - 1)) (\<lambda>b.
       if a = b then res_bind (tget dp (i - 1) (j - 1)) (tput dp i j)
       else res_bind (tget dp i (j - 1)) (\<lambda>x. res_bind (tget dp (i - 1) j) (\<lambda>y. tput dp i j (max x y)))))"

definition longestCommonSubsequence :: "string \<Rightarrow> string \<Rightarrow> int res" where
  "longestCommonSubsequence s1 s2 = (let m = length s1; n = length s2 in
     res_bind (fill (lcs_step s1 s2) m n (table (m + 1) (n + 1) 0)) (\<lambda>dp. tget dp m n))"

text \<open>A match adds nothing to the diagonal, so every table stays zero.\<close>

lemma longestCommonSubsequence_zero: "longestCommonSubsequence s1 s2 = Inr 0"
proof -
  let ?m = "length s1" and ?n = "length s2"
  have "\<exists>dp'. fill (lcs_step s1 s2) ?m ?n (table (?m + 1) (?n + 1) 0) = Inr dp' \<and>
      shape (?m + 1) (?n + 1) dp' \<and> (\<forall>i \<le> ?m. \<forall>j \<le> ?n. cell dp' i j = 0)"
  proof (rule fill_values)
    fix i j and dp :: "int table"
    assume h: "1 \<le> i" "i \<le> ?m" "1 \<le> j" "j \<le> ?n" "shape (?m + 1) (?n + 1) dp"
      "\<forall>k < i. \<forall>l \<le> ?n. cell dp k l = 0" "\<forall>l < j. cell dp i l = 0"
    have "i - 1 < i" "j - 1 < j" using h by auto
    with h show "lcs_step s1 s2 i j dp = Inr (set_cell dp i j 0)"
      by (simp add: lcs_step_def tget_ok [OF h(5)] tput_ok [OF h(5)])
  qed simp_all
  then show ?thesis by (auto simp: longestCommonSubsequence_def Let_def)
qed

section \<open>\<open>canPartition\<close> with a table\<close>

definition sum_step :: "int \<Rightarrow> int \<Rightarrow> int res" where
  "sum_step num s = int_add s num"

definition partition_step :: "int list \<Rightarrow> nat \<Rightarrow> nat \<Rightarrow> bool table \<Rightarrow> bool table res" where
  "partition_step nums i j dp =
     res_bind (vat nums (i - 1)) (\<lambda>x.
       if int j - x < 0 then res_bind (tget dp (i - 1) j) (tput dp i j)
       else res_bind (tget dp (i - 1) j) (\<lambda>b.
         if b then tput dp i j True
         else res_bind (tget dp (i - 1) (nat (int j - x))) (tput dp i j)))"

definition canPartition :: "int list \<Rightarrow> bool res" where
  "canPartition nums =
     res_bind (for_each nums sum_step 0) (\<lambda>s.
       if s mod 2 \<noteq> 0 then Inr False
       else if s < 0 then Inl Length_Error
       else let n = length nums; s = nat (s div 2) in
         res_bind (for_each [0..<n + 1] (\<lambda>i dp. tput dp i 0 True) (table (n + 1) (s + 1) False)) (\<lambda>dp.
         res_bind (fill (partition_step nums) n s dp) (\<lambda>dp. tget dp n s)))"

text \<open>Some of the first \<open>i\<close> numbers have the sum \<open>j\<close>.\<close>

definition reach :: "int list \<Rightarrow> nat \<Rightarrow> nat \<Rightarrow> bool" where
  "reach nums i j \<longleftrightarrow> (\<exists>S. S \<subseteq> {..<i} \<and> (\<Sum>k \<in> S. nums ! k) = int j)"

lemma reach_0: "reach nums 0 j \<longleftrightarrow> j = 0"
  by (auto simp: reach_def)

lemma reach_zero: "reach nums i 0"
  unfolding reach_def by (intro exI [of _ "{}"]) simp

lemma reach_Suc:
  assumes "0 \<le> nums ! i" and nonneg: "\<And>k. k < i \<Longrightarrow> 0 \<le> nums ! k"
  shows "reach nums (Suc i) j \<longleftrightarrow> reach nums i j \<or> nums ! i \<le> int j \<and> reach nums i (nat (int j - nums ! i))"
proof
  assume "reach nums (Suc i) j"
  then obtain S where S: "S \<subseteq> {..<Suc i}" "(\<Sum>k \<in> S. nums ! k) = int j" by (auto simp: reach_def)
  show "reach nums i j \<or> nums ! i \<le> int j \<and> reach nums i (nat (int j - nums ! i))"
  proof (cases "i \<in> S")
    case True
    let ?T = "S - {i}"
    have T: "?T \<subseteq> {..<i}" "finite S" using S(1) by (auto simp: less_Suc_eq finite_subset)
    then have sum: "(\<Sum>k \<in> ?T. nums ! k) = int j - nums ! i" using S(2) True by (simp add: sum_diff1)
    moreover have "0 \<le> (\<Sum>k \<in> ?T. nums ! k)" using T nonneg by (intro sum_nonneg) auto
    ultimately show ?thesis unfolding reach_def using T(1) by (intro disjI2 conjI exI [of _ ?T]) auto
  next
    case False
    with S(1) have "S \<subseteq> {..<i}" by (auto simp: less_Suc_eq)
    with S(2) show ?thesis unfolding reach_def by blast
  qed
next
  assume "reach nums i j \<or> nums ! i \<le> int j \<and> reach nums i (nat (int j - nums ! i))"
  then show "reach nums (Suc i) j"
  proof
    assume "reach nums i j"
    then obtain S where "S \<subseteq> {..<i}" "(\<Sum>k \<in> S. nums ! k) = int j" by (auto simp: reach_def)
    then show ?thesis unfolding reach_def by (intro exI [of _ S]) auto
  next
    assume "nums ! i \<le> int j \<and> reach nums i (nat (int j - nums ! i))"
    then obtain S where S: "S \<subseteq> {..<i}" "(\<Sum>k \<in> S. nums ! k) = int j - nums ! i" by (auto simp: reach_def)
    then have "finite S" "i \<notin> S" by (auto simp: finite_subset)
    with S show ?thesis unfolding reach_def by (intro exI [of _ "insert i S"]) auto
  qed
qed

definition fits_sums :: "int list \<Rightarrow> bool" where
  "fits_sums nums \<longleftrightarrow> (\<forall>i \<le> length nums. int32 (\<Sum>k < i. nums ! k))"

lemma sum_loop:
  assumes "fits_sums nums"
  shows "for_each nums sum_step 0 = Inr (\<Sum>k < length nums. nums ! k)"
proof -
  have "for_each (take i nums) sum_step 0 = Inr (\<Sum>k < i. nums ! k)" if "i \<le> length nums" for i
    using that
  proof (induction i)
    case (Suc i)
    then have "int32 (\<Sum>k < Suc i. nums ! k)" using assms by (simp add: fits_sums_def del: sum.lessThan_Suc)
    with Suc show ?case by (simp add: take_Suc_conv_app_nth for_each_append sum_step_def int_add_def add.commute)
  qed simp
  then show ?thesis by force
qed

lemma base_column:
  assumes "shape (m + 1) (n + 1) dp"
  shows "\<exists>dp'. for_each [0..<m + 1] (\<lambda>i dp. tput dp i 0 x) dp = Inr dp' \<and> shape (m + 1) (n + 1) dp' \<and>
    (\<forall>i \<le> m. \<forall>j \<le> n. cell dp' i j = (if j = 0 then x else cell dp i j))"
proof -
  define I where "I = (\<lambda>i dp'. shape (m + 1) (n + 1) dp' \<and>
    (\<forall>k \<le> m. \<forall>j \<le> n. cell dp' k j = (if j = 0 \<and> k < i then x else cell dp k j)))"
  have "\<exists>dp'. for_each [0..<m + 1] (\<lambda>i dp. tput dp i 0 x) dp = Inr dp' \<and> I (m + 1) dp'"
  proof (rule for_each_inv)
    show "I 0 dp" using assms by (simp add: I_def)
    fix i dp'
    assume i: "i < m + 1" and I: "I i dp'"
    have sh: "shape (m + 1) (n + 1) dp'" using I by (simp add: I_def)
    have c: "cell (set_cell dp' i 0 x) k l = (if k = i \<and> l = 0 then x else cell dp' k l)" for k l
      using sh i by (intro cell_set_cell [where m = "m + 1" and n = "n + 1"]) simp_all
    have "tput dp' i 0 x = Inr (set_cell dp' i 0 x)" using sh i by (intro tput_ok [where m = "m + 1" and n = "n + 1"]) simp_all
    moreover have "I (Suc i) (set_cell dp' i 0 x)" using I c by (auto simp: I_def less_Suc_eq)
    ultimately show "\<exists>t. tput dp' i 0 x = Inr t \<and> I (Suc i) t" by blast
  qed simp
  then show ?thesis by (auto simp: I_def)
qed

text \<open>\<open>canPartition\<close> decides: on numbers that are not negative and whose sums fit an \<open>int\<close> it returns whether
  the positions can be split into two parts of the same sum.\<close>

lemma canPartition_decides:
  assumes "\<forall>x \<in> set nums. 0 \<le> x" and "fits_sums nums"
  shows "canPartition nums = Inr (\<exists>S \<subseteq> {..<length nums}.
    (\<Sum>k \<in> S. nums ! k) = (\<Sum>k \<in> {..<length nums} - S. nums ! k))"
proof -
  let ?n = "length nums" and ?s = "\<Sum>k < length nums. nums ! k"
  have half: "(\<Sum>k \<in> S. nums ! k) = (\<Sum>k \<in> {..<?n} - S. nums ! k) \<longleftrightarrow> 2 * (\<Sum>k \<in> S. nums ! k) = ?s"
    if "S \<subseteq> {..<?n}" for S
    using sum.subset_diff [OF that finite_lessThan, of "\<lambda>k. nums ! k"] by linarith
  show ?thesis
  proof (cases "?s mod 2 = 0")
    case False
    have "\<not> (\<exists>S \<subseteq> {..<?n}. (\<Sum>k \<in> S. nums ! k) = (\<Sum>k \<in> {..<?n} - S. nums ! k))"
      using half False by (metis mod_mult_self1_is_0)
    with False sum_loop [OF assms(2)] show ?thesis by (simp add: canPartition_def)
  next
    case True
    define h where "h = nat (?s div 2)"
    have s0: "0 \<le> ?s" using assms(1) by (intro sum_nonneg) simp
    then have h: "int h * 2 = ?s" using True by (simp add: h_def) (metis dvd_eq_mod_eq_0 dvd_div_mult_self)
    obtain dp where dp: "for_each [0..<?n + 1] (\<lambda>i dp. tput dp i 0 True) (table (?n + 1) (h + 1) False) = Inr dp"
      "shape (?n + 1) (h + 1) dp" "\<And>i j. i \<le> ?n \<Longrightarrow> j \<le> h \<Longrightarrow> cell dp i j = (j = 0)"
      using base_column [of ?n h "table (?n + 1) (h + 1) False" True] by auto
    have "\<exists>dp'. fill (partition_step nums) ?n h dp = Inr dp' \<and> shape (?n + 1) (h + 1) dp' \<and>
        (\<forall>i \<le> ?n. \<forall>j \<le> h. cell dp' i j = reach nums i j)"
    proof (rule fill_values)
      fix i j and dp :: "bool table"
      assume a: "1 \<le> i" "i \<le> ?n" "1 \<le> j" "j \<le> h" "shape (?n + 1) (h + 1) dp"
        "\<forall>k < i. \<forall>l \<le> h. cell dp k l = reach nums k l"
      then have i: "i - 1 < i" "i - 1 < ?n" "Suc (i - 1) = i" by auto
      have x0: "0 \<le> nums ! (i - 1)" using assms(1) i(2) by simp
      have r: "reach nums i j \<longleftrightarrow> reach nums (i - 1) j \<or>
          nums ! (i - 1) \<le> int j \<and> reach nums (i - 1) (nat (int j - nums ! (i - 1)))"
        using reach_Suc [of nums "i - 1" j] assms(1) i by simp
      have below: "nat (int j - nums ! (i - 1)) \<le> h" using a x0 by simp
      show "partition_step nums i j dp = Inr (set_cell dp i j (reach nums i j))"
        using a i r below by (auto simp: partition_step_def tget_ok [OF a(5)] tput_ok [OF a(5)])
    qed (use dp reach_0 reach_zero in auto)
    then obtain dp' where f: "fill (partition_step nums) ?n h dp = Inr dp'" "shape (?n + 1) (h + 1) dp'"
      "cell dp' ?n h = reach nums ?n h" by blast
    have "canPartition nums = Inr (reach nums ?n h)"
      using dp(1) f True s0 sum_loop [OF assms(2)] tget_ok [OF f(2), of ?n h]
      by (simp add: canPartition_def Let_def flip: h_def)
    moreover have "reach nums ?n h \<longleftrightarrow> (\<exists>S \<subseteq> {..<?n}. (\<Sum>k \<in> S. nums ! k) = (\<Sum>k \<in> {..<?n} - S. nums ! k))"
      unfolding reach_def using half h by (metis mult.commute mult_left_cancel zero_neq_numeral)
    ultimately show ?thesis by simp
  qed
qed

lemma canPartition_decides_witness:
  "canPartition [1, 2, 3] = Inr (\<exists>S \<subseteq> {..<3}. (\<Sum>k \<in> S. [1, 2, 3 :: int] ! k) = (\<Sum>k \<in> {..<3} - S. [1, 2, 3] ! k))"
proof -
  have "fits_sums [1, 2, 3]" by (simp add: fits_sums_def le_Suc_eq all_conj_distrib int32_def numeral_eq_Suc)
  with canPartition_decides [of "[1, 2, 3]"] show ?thesis by (simp add: numeral_eq_Suc)
qed

section \<open>\<open>canPartition\<close> with one row\<close>

definition compressed_step :: "int list \<Rightarrow> nat \<Rightarrow> nat \<Rightarrow> bool list \<Rightarrow> bool list res" where
  "compressed_step nums i j dp =
     res_bind (vat nums i) (\<lambda>x.
       if 0 \<le> int j - x then
         res_bind (vat dp j) (\<lambda>b. if b then vput dp j True
           else res_bind (vat dp (nat (int j - x))) (vput dp j))
       else Inr dp)"

definition canPartition_compressed :: "int list \<Rightarrow> bool res" where
  "canPartition_compressed nums =
     res_bind (for_each nums sum_step 0) (\<lambda>s.
       if s mod 2 \<noteq> 0 then Inr False
       else if s < 0 then Inl Length_Error
       else let s = nat (s div 2) in
         res_bind (vput (replicate (s + 1) False) 0 True) (\<lambda>dp.
         res_bind (for_each [1..<length nums + 1] (\<lambda>i. for_each [1..<s + 1] (compressed_step nums i)) dp)
           (\<lambda>dp. vat dp s)))"

lemma for_each_undefined:
  assumes "\<And>x s. x \<in> set xs \<Longrightarrow> f x s = Inl Undefined \<or> (\<exists>s'. f x s = Inr s')"
  shows "for_each xs f s = Inl Undefined \<or> (\<exists>s'. for_each xs f s = Inr s')"
  using assms
proof (induction xs arbitrary: s)
  case (Cons x xs)
  then show ?case by (cases "f x s") (auto, metis old.sum.inject(1) sum.simps(4))
qed simp

lemma vat_undefined: "vat xs i = Inl Undefined \<or> (\<exists>x. vat xs i = Inr x)"
  by (simp add: vat_def)

lemma vput_undefined: "vput xs i x = Inl Undefined \<or> (\<exists>ys. vput xs i x = Inr ys)"
  by (simp add: vput_def)

lemma compressed_step_undefined:
  "compressed_step nums i j dp = Inl Undefined \<or> (\<exists>dp'. compressed_step nums i j dp = Inr dp')"
  by (simp add: compressed_step_def vat_def vput_def)

text \<open>The loop over \<open>i = 1..n\<close> reads \<open>nums[i]\<close>, one past the end in its last round, whenever the half sum is positive.\<close>

lemma canPartition_compressed_undefined:
  assumes "fits_sums nums" and "2 \<le> (\<Sum>k < length nums. nums ! k)" and "even (\<Sum>k < length nums. nums ! k)"
  shows "canPartition_compressed nums = Inl Undefined"
proof -
  let ?s = "\<Sum>k < length nums. nums ! k"
  define h where "h = nat (?s div 2)"
  have h: "1 \<le> h" using assms(2) by (simp add: h_def)
  have n: "1 \<le> length nums" using assms(2) by (cases nums) auto
  have last: "for_each [1..<h + 1] (compressed_step nums (length nums)) dp = Inl Undefined" for dp
  proof -
    have "[1..<h + 1] = 1 # [2..<h + 1]" using h by (simp add: upt_conv_Cons numeral_2_eq_2)
    then show ?thesis by (simp only: for_each.simps) (simp add: compressed_step_def vat_def)
  qed
  have pre: "for_each [1..<length nums] (\<lambda>i. for_each [1..<h + 1] (compressed_step nums i)) dp = Inl Undefined \<or>
      (\<exists>dp'. for_each [1..<length nums] (\<lambda>i. for_each [1..<h + 1] (compressed_step nums i)) dp = Inr dp')" for dp
    by (intro for_each_undefined) (use compressed_step_undefined in blast)
  have "[1..<length nums + 1] = [1..<length nums] @ [length nums]" using n by simp
  then have "for_each [1..<length nums + 1] (\<lambda>i. for_each [1..<h + 1] (compressed_step nums i)) dp = Inl Undefined" for dp
    using pre [of dp] last by (auto simp only: for_each_append for_each.simps res_bind.simps)
  then show ?thesis using sum_loop [OF assms(1)] assms(2,3)
    by (simp add: canPartition_compressed_def Let_def flip: h_def)
qed

section \<open>\<open>change\<close>\<close>

definition change_step :: "int list \<Rightarrow> nat \<Rightarrow> nat \<Rightarrow> int table \<Rightarrow> int table res" where
  "change_step coins i j dp =
     res_bind (vat coins (i - 1)) (\<lambda>c.
       if 0 \<le> int j - c then
         res_bind (tget dp (i - 1) j) (\<lambda>x. res_bind (tget dp i (nat (int j - c))) (\<lambda>y.
           res_bind (int_add x y) (tput dp i j)))
       else res_bind (tget dp (i - 1) j) (tput dp i j))"

definition change :: "nat \<Rightarrow> int list \<Rightarrow> int res" where
  "change amount coins = (let n = length coins in
     res_bind (for_each [0..<n + 1] (\<lambda>i dp. tput dp i 0 1) (table (n + 1) (amount + 1) 0)) (\<lambda>dp.
     res_bind (fill (change_step coins) n amount dp) (\<lambda>dp. tget dp n amount)))"

text \<open>\<open>ways coins i j\<close>: the numbers of coins of each of the first \<open>i\<close> kinds that make up the amount \<open>j\<close>.\<close>

definition worth :: "int list \<Rightarrow> nat list \<Rightarrow> int" where
  "worth coins ns = (\<Sum>k < length ns. int (ns ! k) * coins ! k)"

definition ways :: "int list \<Rightarrow> nat \<Rightarrow> nat \<Rightarrow> nat list set" where
  "ways coins i j = {ns. length ns = i \<and> worth coins ns = int j}"

lemma worth_snoc: "worth coins (ns @ [x]) = worth coins ns + int x * coins ! length ns"
  by (simp add: worth_def nth_append)

lemma ways_0: "ways coins 0 j = (if j = 0 then {[]} else {})"
  by (auto simp: ways_def worth_def)

lemma ways_Suc:
  "ways coins (Suc i) j = {ns @ [x] | ns x. length ns = i \<and> worth coins ns + int x * coins ! i = int j}"
proof (intro set_eqI iffI)
  fix ns
  assume a: "ns \<in> ways coins (Suc i) j"
  then have "ns \<noteq> []" by (auto simp: ways_def)
  then obtain ms x where "ns = ms @ [x]" by (metis append_butlast_last_id)
  with a show "ns \<in> {ns @ [x] | ns x. length ns = i \<and> worth coins ns + int x * coins ! i = int j}"
    by (auto simp: ways_def worth_snoc)
qed (auto simp: ways_def worth_snoc)

lemma worth_nonneg: "\<forall>k < length ns. 0 < coins ! k \<Longrightarrow> 0 \<le> worth coins ns"
  unfolding worth_def by (intro sum_nonneg) (simp add: less_imp_le)

text \<open>Either the last kind is not used, or one coin less of it makes up the amount less its value.\<close>

definition one_more :: "nat list \<Rightarrow> nat list" where
  "one_more ns = butlast ns @ [Suc (last ns)]"

lemma one_more_snoc [simp]: "one_more (ns @ [x]) = ns @ [Suc x]"
  by (simp add: one_more_def)

lemma one_more_worth:
  assumes "length ns = Suc i"
  shows "length (one_more ns) = Suc i" and "worth coins (one_more ns) = worth coins ns + coins ! i"
proof -
  from assms obtain ms x where "ns = ms @ [x]" "length ms = i" by (cases ns rule: rev_cases) auto
  then show "length (one_more ns) = Suc i" "worth coins (one_more ns) = worth coins ns + coins ! i"
    by (simp_all add: worth_snoc algebra_simps)
qed

lemma ways_split:
  assumes "\<forall>k \<le> i. 0 < coins ! k"
  shows "ways coins (Suc i) j = (\<lambda>ns. ns @ [0]) ` ways coins i j \<union>
    (if coins ! i \<le> int j then one_more ` ways coins (Suc i) (nat (int j - coins ! i)) else {})"
    (is "?l = ?a \<union> ?b")
proof (intro set_eqI iffI)
  fix ms
  assume "ms \<in> ?l"
  then obtain ns x where ms: "ms = ns @ [x]" "length ns = i" "worth coins ns + int x * coins ! i = int j"
    by (auto simp: ways_Suc)
  show "ms \<in> ?a \<union> ?b"
  proof (cases x)
    case 0
    with ms show ?thesis by (auto simp: ways_def)
  next
    case (Suc y)
    have "0 \<le> worth coins ns" using assms ms(2) by (intro worth_nonneg) simp
    moreover have "0 \<le> int y * coins ! i" using assms by (simp add: less_imp_le)
    moreover have e: "worth coins ns + int y * coins ! i = int j - coins ! i"
      using ms(3) Suc by (simp add: algebra_simps)
    ultimately have le: "coins ! i \<le> int j" by linarith
    then have "ns @ [y] \<in> ways coins (Suc i) (nat (int j - coins ! i))"
      using e ms(2) by (auto simp: ways_Suc)
    then have "one_more (ns @ [y]) \<in> ?b" using le by (auto simp only: if_True intro: imageI)
    with ms(1) Suc show ?thesis by simp
  qed
next
  fix ms
  assume "ms \<in> ?a \<union> ?b"
  then show "ms \<in> ?l" by (auto simp: ways_def worth_snoc one_more_worth split: if_splits)
qed

lemma ways_finite: "\<forall>k < i. 0 < coins ! k \<Longrightarrow> finite (ways coins i j)"
proof (induction i arbitrary: j)
  case (Suc i)
  have "finite (ways coins (Suc i) j)" for j
  proof (induction j rule: less_induct)
    case (less j)
    have pos: "\<forall>k \<le> i. 0 < coins ! k" using Suc.prems by simp
    have "finite (ways coins (Suc i) (nat (int j - coins ! i)))" if "coins ! i \<le> int j"
      using that pos by (intro less.IH) auto
    then show ?case using Suc.IH [of j] Suc.prems by (subst ways_split [OF pos]) auto
  qed
  then show ?case .
qed (simp add: ways_0)

lemma card_ways_Suc:
  assumes "\<forall>k \<le> i. 0 < coins ! k"
  shows "card (ways coins (Suc i) j) = card (ways coins i j) +
    (if coins ! i \<le> int j then card (ways coins (Suc i) (nat (int j - coins ! i))) else 0)"
proof -
  let ?b = "ways coins (Suc i) (nat (int j - coins ! i))"
  have fin: "finite (ways coins i j)" "finite ?b" using assms by (auto intro!: ways_finite)
  have "inj_on (\<lambda>ns. ns @ [0 :: nat]) (ways coins i j)" by (simp add: inj_on_def)
  moreover have "inj_on one_more ?b"
  proof (rule inj_onI)
    fix x y
    assume "x \<in> ?b" "y \<in> ?b" "one_more x = one_more y"
    then have "x \<noteq> []" "y \<noteq> []" "butlast x = butlast y" "last x = last y"
      by (auto simp: ways_def one_more_def)
    then show "x = y" by (metis append_butlast_last_id)
  qed
  moreover have "(\<lambda>ns. ns @ [0]) ` ways coins i j \<inter> one_more ` ?b = {}"
  proof -
    have "ns @ [0] \<noteq> one_more ms" for ns ms by (simp add: one_more_def)
    then show ?thesis by blast
  qed
  ultimately have "card ((\<lambda>ns. ns @ [0]) ` ways coins i j \<union> one_more ` ?b) = card (ways coins i j) + card ?b"
    "card ((\<lambda>ns. ns @ [0 :: nat]) ` ways coins i j) = card (ways coins i j)"
    using fin by (simp_all only: card_image card_Un_disjoint finite_imageI)
  then show ?thesis unfolding ways_split [OF assms, of j] by (cases "coins ! i \<le> int j") simp_all
qed

lemma card_ways_zero: "\<forall>k < i. 0 < coins ! k \<Longrightarrow> card (ways coins i 0) = 1"
proof (induction i)
  case (Suc i)
  moreover from this have "\<not> coins ! i \<le> int 0" by (simp add: not_le)
  ultimately show ?case using card_ways_Suc [of i coins 0] by simp
qed (simp add: ways_0)

text \<open>C26: \<open>change\<close> counts: for positive coins, when the counts fit an \<open>int\<close>, it is the number of ways to pay the
  amount with coins of the given kinds, however many of each.\<close>
theorem change_counts:
  assumes pos: "\<forall>k < length coins. 0 < coins ! k"
    and fits: "\<forall>i \<le> length coins. \<forall>j \<le> amount. int32 (int (card (ways coins i j)))"
  shows "change amount coins = Inr (int (card {ns. length ns = length coins \<and> worth coins ns = int amount}))"
proof -
  let ?n = "length coins" and ?v = "\<lambda>i j. int (card (ways coins i j))"
  obtain dp where dp: "for_each [0..<?n + 1] (\<lambda>i dp. tput dp i 0 1) (table (?n + 1) (amount + 1) 0) = Inr dp"
    "shape (?n + 1) (amount + 1) dp" "\<And>i j. i \<le> ?n \<Longrightarrow> j \<le> amount \<Longrightarrow> cell dp i j = (if j = 0 then 1 else 0 :: int)"
    using base_column [of ?n amount "table (?n + 1) (amount + 1) 0" "1 :: int"] by auto
  have "\<exists>dp'. fill (change_step coins) ?n amount dp = Inr dp' \<and> shape (?n + 1) (amount + 1) dp' \<and>
      (\<forall>i \<le> ?n. \<forall>j \<le> amount. cell dp' i j = ?v i j)"
  proof (rule fill_values)
    fix i j and dp :: "int table"
    assume a: "1 \<le> i" "i \<le> ?n" "1 \<le> j" "j \<le> amount" "shape (?n + 1) (amount + 1) dp"
      "\<forall>k < i. \<forall>l \<le> amount. cell dp k l = ?v k l" "\<forall>l < j. cell dp i l = ?v i l"
    obtain k where k: "i = Suc k" using a(1) by (cases i) auto
    have c0: "0 < coins ! k" "\<forall>l \<le> k. 0 < coins ! l" using pos a(2) k by auto
    have f: "int32 (?v i j)" using fits a by blast
    note split = card_ways_Suc [OF c0(2), of j]
    show "change_step coins i j dp = Inr (set_cell dp i j (?v i j))"
    proof (cases "coins ! k \<le> int j")
      case True
      let ?l = "nat (int j - coins ! k)"
      have "?l < j" "?l \<le> amount" using True c0(1) a(3,4) by auto
      with True k a split f show ?thesis
        by (simp add: change_step_def tget_ok [OF a(5)] tput_ok [OF a(5)] int_add_def)
    next
      case False
      with k a split show ?thesis by (simp add: change_step_def tget_ok [OF a(5)] tput_ok [OF a(5)])
    qed
  qed (use dp pos in \<open>auto simp: ways_0 card_ways_zero\<close>)
  then obtain dp' where f: "fill (change_step coins) ?n amount dp = Inr dp'" "shape (?n + 1) (amount + 1) dp'"
    "cell dp' ?n amount = ?v ?n amount" by blast
  then show ?thesis using dp(1) tget_ok [OF f(2), of ?n amount] by (simp add: change_def Let_def ways_def)
qed

theorem change_counts_witness:
  "change 3 [2] = Inr (int (card {ns. length ns = 1 \<and> worth [2] ns = 3}))"
proof -
  have "card (ways [2] (Suc 0) j) = (if even j then 1 else 0)" for j
  proof (induction j rule: less_induct)
    case (less j)
    then show ?case using card_ways_Suc [of 0 "[2]" j] less.IH [of "nat (int j - 2)"]
      by (auto simp: ways_0 even_nat_iff)
  qed
  then have "\<forall>i \<le> length [2 :: int]. \<forall>j \<le> 3. int32 (int (card (ways [2] i j)))"
    by (auto simp: le_Suc_eq ways_0 int32_def)
  with change_counts [of "[2]" 3] show ?thesis by simp
qed

section \<open>\<open>substr\<close> and \<open>LongestPalindromicSubString\<close>\<close>

text \<open>
  The inner loop of \<open>substr\<close> increments \<open>i\<close> instead of \<open>j\<close>; \<open>str[str.size()]\<close> is the null character.
\<close>

definition char_at :: "string \<Rightarrow> nat \<Rightarrow> char res" where
  "char_at s i = (if i < length s then Inr (s ! i) else if i = length s then Inr (CHR 0x00) else Inl Undefined)"

fun substr_inner :: "nat \<Rightarrow> string \<Rightarrow> string \<Rightarrow> nat \<Rightarrow> nat \<times> int table \<Rightarrow> (nat \<times> int table) res" where
  "substr_inner 0 str1 str2 j s = Inl Diverges"
| "substr_inner (Suc fuel) str1 str2 j (i, dp) =
     (if j < length str2 then
        res_bind (char_at str1 i) (\<lambda>a. res_bind (char_at str2 j) (\<lambda>b.
          res_bind (if a = b then res_bind (tget dp (i - 1) (j - 1)) (\<lambda>x. tput dp i j (x + 1)) else Inr dp)
            (\<lambda>dp. substr_inner fuel str1 str2 j (i + 1, dp))))
      else Inr (i, dp))"

fun substr_outer :: "nat \<Rightarrow> string \<Rightarrow> string \<Rightarrow> nat \<times> int table \<Rightarrow> int table res" where
  "substr_outer 0 str1 str2 s = Inl Diverges"
| "substr_outer (Suc fuel) str1 str2 (i, dp) =
     (if i < length str1 then
        res_bind (substr_inner (length str1 + 3) str1 str2 1 (i, dp))
          (\<lambda>(i, dp). substr_outer fuel str1 str2 (i + 1, dp))
      else Inr dp)"

text \<open>The last two loops compare with \<open>longest\<close>, which nothing assigns.\<close>

definition substr_scan :: "nat \<Rightarrow> nat \<Rightarrow> int table \<Rightarrow> (int \<times> nat) res" where
  "substr_scan m n dp = for_each [0..<m] (\<lambda>i. for_each [0..<n] (\<lambda>j (longest, longest_index).
     res_bind (tget dp i j) (\<lambda>x. Inr (longest, if longest < x then i else longest_index)))) (0, 0)"

definition substr :: "string \<Rightarrow> string \<Rightarrow> int res" where
  "substr str1 str2 = (let m = length str1; n = length str2 in
     res_bind (for_each [0..<m] (\<lambda>i dp. res_bind (char_at str1 i) (\<lambda>a. res_bind (char_at str2 0) (\<lambda>b.
                 tput dp i 0 (if a = b then 1 else 0)))) (table m n 0)) (\<lambda>dp.
     res_bind (for_each [0..<n] (\<lambda>j dp. res_bind (char_at str1 0) (\<lambda>a. res_bind (char_at str2 j) (\<lambda>b.
                 tput dp 0 j (if a = b then 1 else 0)))) dp) (\<lambda>dp.
     res_bind (substr_outer (m + 1) str1 str2 (1, dp)) (\<lambda>dp.
     res_bind (substr_scan m n dp) (\<lambda>(longest, longest_index). Inr longest)))))"

lemma for_each_keeps:
  assumes "for_each xs f s = Inr s'" and "P s" and "\<And>x s s'. f x s = Inr s' \<Longrightarrow> P s \<Longrightarrow> P s'"
  shows "P s'"
  using assms(1,2)
proof (induction xs arbitrary: s)
  case (Cons x xs)
  then obtain t where "f x s = Inr t" "for_each xs f t = Inr s'" by auto
  with Cons assms(3) show ?case by blast
qed simp

text \<open>Whatever the strings, a call that returns returns zero.\<close>

lemma substr_never_counts: "substr str1 str2 = Inr r \<Longrightarrow> r = 0"
proof -
  assume "substr str1 str2 = Inr r"
  then obtain dp i where "substr_scan (length str1) (length str2) dp = Inr (r, i)"
    by (auto simp: substr_def Let_def)
  then have "fst (r, i) = 0" unfolding substr_scan_def
    by (rule for_each_keeps [where P = "\<lambda>s. fst s = 0"]) (auto elim: for_each_keeps)
  then show ?thesis by simp
qed

text \<open>The first round of the outer loop runs \<open>i\<close> off the first string when both have two characters.\<close>

lemma char_at_ok: "i \<le> length s \<Longrightarrow> \<exists>c. char_at s i = Inr c"
  by (simp add: char_at_def)

lemma substr_inner_runs_off:
  "1 < length str2 \<Longrightarrow> i \<le> length str1 + 1 \<Longrightarrow> length str1 + 1 < fuel + i \<Longrightarrow>
    substr_inner fuel str1 str2 1 (i, dp) = Inl Undefined"
proof (induction fuel arbitrary: i dp)
  case (Suc n)
  show ?case
  proof (cases "i \<le> length str1")
    case True
    let ?w = "if char_at str1 i = char_at str2 1
      then res_bind (tget dp (i - 1) 0) (\<lambda>x. tput dp i 1 (x + 1)) else Inr dp"
    obtain a b where ab: "char_at str1 i = Inr a" "char_at str2 1 = Inr b"
      using True Suc.prems(1) char_at_ok [of i str1] char_at_ok [of 1 str2] by auto
    have "?w = Inl Undefined \<or> (\<exists>dp'. ?w = Inr dp')"
      by (auto simp: tget_def tput_def vat_def vput_def)
    moreover have "substr_inner n str1 str2 1 (i + 1, dp') = Inl Undefined" for dp'
      using True Suc.prems by (intro Suc.IH) auto
    ultimately show ?thesis using Suc.prems(1) ab by auto
  next
    case False
    with Suc.prems show ?thesis by (auto simp: char_at_def)
  qed
qed simp

text \<open>
  \<open>LongestPalindromicSubString\<close> counts \<open>i\<close> down in a \<open>size_t\<close>: its test \<open>i >= 0\<close> always holds, so that the loop
  is left by an access out of range only. \<open>j\<close> is the \<open>int\<close> that \<open>i + 1\<close> converts to.
\<close>

definition to_int :: "nat \<Rightarrow> int" where
  "to_int i = (if i mod 2 ^ 32 < 2 ^ 31 then int (i mod 2 ^ 32) else int (i mod 2 ^ 32) - 2 ^ 32)"

definition pal_cell :: "string \<Rightarrow> nat \<Rightarrow> nat \<Rightarrow> int \<times> int table \<Rightarrow> (int \<times> int table) res" where
  "pal_cell a i j s = (case s of (max_len, dp) \<Rightarrow>
     res_bind (char_at a i) (\<lambda>x. res_bind (char_at a j) (\<lambda>y.
       if x = y then
         res_bind (if sz_sub j i = 1 then tput dp i j 2
                   else if 1 < sz_sub j i then res_bind (tget dp (sz_add i 1) (j - 1)) (\<lambda>v. tput dp i j (v + 2))
                   else Inr dp) (\<lambda>dp.
         res_bind (tget dp i j) (\<lambda>v. Inr (if max_len < v then v else max_len, dp)))
       else res_bind (tput dp i j 0) (\<lambda>dp. Inr (max_len, dp)))))"

definition pal_row :: "string \<Rightarrow> nat \<times> int \<times> int table \<Rightarrow> (nat \<times> int \<times> int table) res" where
  "pal_row a s = (case s of (i, max_len, dp) \<Rightarrow>
     let j0 = to_int (sz_add i 1) in
     if j0 < 0 then Inl Undefined
     else res_bind (for_each [nat j0..<length a] (pal_cell a i) (max_len, dp)) (\<lambda>(max_len, dp).
       Inr (sz_sub i 1, max_len, dp)))"

definition LongestPalindromicSubString :: "nat \<Rightarrow> string \<Rightarrow> int res" where
  "LongestPalindromicSubString fuel a = (let n = length a in
     res_bind (for_each [0..<n] (\<lambda>i dp. tput dp i i 1) (table n n 0)) (\<lambda>dp.
     res_bind (while_res fuel (\<lambda>(i, max_len, dp). 0 \<le> i) (pal_row a) (sz_sub n 2, 1, dp))
       (\<lambda>(i, max_len, dp). Inr max_len)))"

lemma while_true: "(\<And>s. b s) \<Longrightarrow> while_res fuel b c s \<noteq> Inr s'"
  by (induction fuel arbitrary: s) auto

lemma LongestPalindromicSubString_never_returns: "LongestPalindromicSubString fuel a \<noteq> Inr r"
  using while_true [of "\<lambda>(i, max_len, dp). 0 \<le> (i :: nat)" fuel "pal_row a"]
  by (auto simp: LongestPalindromicSubString_def Let_def)

end
