(* ===== verification/Algorithm_Paths.thy ===== *)
theory Algorithm_Paths
  imports Algorithm_Graph Algorithm_DP
begin

text \<open>
  The rest of Algorithm/graphy.cpp: the breadth-first course schedule, the bipartiteness test, Dijkstra's and Prim's
  algorithm, with the behaviour each shows on concrete graphs.
\<close>

section \<open>The breadth-first \<open>canFinish\<close>\<close>

definition count_degree :: "nat \<times> nat \<Rightarrow> int list \<Rightarrow> int list res" where
  "count_degree e indeg = res_bind (vat indeg (fst e)) (\<lambda>d. res_bind (int_add d 1) (vput indeg (fst e)))"

text \<open>The code pushes \<open>j\<close> when its decremented degree is \<^emph>\<open>not\<close> zero.\<close>

definition relax_degree :: "nat \<Rightarrow> int list \<times> nat list \<Rightarrow> (int list \<times> nat list) res" where
  "relax_degree j s = (case s of (indeg, q) \<Rightarrow>
     res_bind (vat indeg j) (\<lambda>d. res_bind (int_add d (-1)) (\<lambda>d. res_bind (vput indeg j d) (\<lambda>indeg.
       Inr (indeg, if d \<noteq> 0 then q @ [j] else q)))))"

fun bfs_loop :: "nat \<Rightarrow> nat list list \<Rightarrow> int list \<Rightarrow> nat list \<Rightarrow> int \<Rightarrow> int res" where
  "bfs_loop 0 G indeg q cnt = Inl Diverges"
| "bfs_loop (Suc n) G indeg [] cnt = Inr cnt"
| "bfs_loop (Suc n) G indeg (i # q) cnt =
     res_bind (vat G i) (\<lambda>succs. res_bind (for_each succs relax_degree (indeg, q)) (\<lambda>(indeg, q).
       bfs_loop n G indeg q (cnt + 1)))"

definition canFinish_bfs :: "nat \<Rightarrow> nat \<Rightarrow> (nat \<times> nat) list \<Rightarrow> bool res" where
  "canFinish_bfs fuel n pre =
     res_bind (build_graph n pre) (\<lambda>G. res_bind (for_each pre count_degree (replicate n 0)) (\<lambda>indeg.
       let q = filter (\<lambda>i. indeg ! i = 0) [0..<n] in
       res_bind (bfs_loop fuel G indeg q 0) (\<lambda>cnt. Inr (cnt = int n))))"

text \<open>Both answers can be wrong: an acyclic graph is refused and a cyclic one accepted.\<close>

lemma canFinish_bfs_wrong:
  "acyclic (edges [(1, 0)]) \<and> canFinish_bfs 9 2 [(1, 0)] = Inr False"
  "\<not> acyclic (edges [(1, 0), (1, 1)]) \<and> canFinish_bfs 9 2 [(1, 0), (1, 1)] = Inr True"
proof -
  have "acyclic (edges [(1, 0)])"
    by (rule acyclicI_order [where f = "\<lambda>x. - int x"]) (auto simp: edges_def)
  moreover have "canFinish_bfs 9 2 [(1, 0)] = Inr False"
    by (simp add: canFinish_bfs_def build_graph_def push_edge_def count_degree_def relax_degree_def int_add_def
      int32_def eval_nat_numeral)
  ultimately show "acyclic (edges [(1, 0)]) \<and> canFinish_bfs 9 2 [(1, 0)] = Inr False" ..
  have "(1, 1) \<in> (edges [(1, 0), (1, 1)])\<^sup>+" by (rule r_into_trancl) (simp add: edges_def)
  then have "\<not> acyclic (edges [(1, 0), (1, 1)])" by (auto simp: acyclic_def)
  moreover have "canFinish_bfs 9 2 [(1, 0), (1, 1)] = Inr True"
    by (simp add: canFinish_bfs_def build_graph_def push_edge_def count_degree_def relax_degree_def int_add_def
      int32_def eval_nat_numeral)
  ultimately show "\<not> acyclic (edges [(1, 0), (1, 1)]) \<and> canFinish_bfs 9 2 [(1, 0), (1, 1)] = Inr True" ..
qed

section \<open>\<open>isBipartite\<close>\<close>

record coloring =
  col_ok :: bool
  color :: "bool list"
  col_visited :: "bool list"

text \<open>The loop over the neighbours stops at the first conflict.\<close>

fun color_neighbours :: "nat \<Rightarrow> nat list \<Rightarrow> coloring \<Rightarrow> coloring res" where
  "color_neighbours i [] st = Inr st"
| "color_neighbours i (j # js) st =
     res_bind (vat (col_visited st) j) (\<lambda>v.
     res_bind (vat (color st) i) (\<lambda>ci.
       if \<not> v then
         res_bind (vput (color st) j (\<not> ci)) (\<lambda>c. color_neighbours i js (st\<lparr>color := c\<rparr>))
       else
         res_bind (vat (color st) j) (\<lambda>cj.
           if ci = cj then Inr (st\<lparr>col_ok := False\<rparr>) else color_neighbours i js st)))"

definition color_traverse :: "nat list list \<Rightarrow> nat \<Rightarrow> coloring \<Rightarrow> coloring res" where
  "color_traverse G i st =
     (if \<not> col_ok st then Inr st
      else res_bind (vput (col_visited st) i True) (\<lambda>v. res_bind (vat G i) (\<lambda>js.
        color_neighbours i js (st\<lparr>col_visited := v\<rparr>))))"

definition color_graph :: "nat list list \<Rightarrow> coloring \<Rightarrow> coloring res" where
  "color_graph G st = (let n = length G in
     for_each [0..<n] (\<lambda>i st. res_bind (vat (col_visited st) i) (\<lambda>v.
       if \<not> v then color_traverse G i st else Inr st))
     (st\<lparr>color := replicate n False, col_visited := replicate n False\<rparr>))"

text \<open>The function has no \<open>return\<close>: flowing off its end is undefined.\<close>

definition isBipartite :: "nat list list \<Rightarrow> coloring \<Rightarrow> bool res" where
  "isBipartite G st = res_bind (color_graph G st) (\<lambda>st. Inl Undefined)"

lemma isBipartite_undefined: "isBipartite G st \<noteq> Inr b"
  by (cases "color_graph G st") (auto simp: isBipartite_def)

text \<open>
  The colour of a node not yet reached is read as the initial one, so that the flag is wrong too: the path
  \<open>0 - 3 - 2 - 1\<close>, which two colours suffice for, is rejected.
\<close>

lemma color_graph_rejects_path:
  "\<exists>st. color_graph [[3], [2], [3, 1], [0, 2]] \<lparr>col_ok = True, color = [], col_visited = []\<rparr> = Inr st \<and> \<not> col_ok st"
  by (simp add: color_graph_def color_traverse_def eval_nat_numeral upt_rec)

section \<open>\<open>dijkstra\<close>\<close>

record dijkstra_state =
  dist :: "int list"
  dj_visited :: "bool list"

definition nearest :: "nat \<Rightarrow> dijkstra_state \<Rightarrow> (nat option \<times> int) res" where
  "nearest n st = for_each [0..<n] (\<lambda>j (u, m).
     res_bind (vat (dist st) j) (\<lambda>d. res_bind (vat (dj_visited st) j) (\<lambda>v.
       Inr (if d < m \<and> \<not> v then (Some j, d) else (u, m))))) (None, INT_MAX)"

definition relax_node :: "int table \<Rightarrow> nat \<Rightarrow> nat \<Rightarrow> dijkstra_state \<Rightarrow> dijkstra_state res" where
  "relax_node G u v st =
     res_bind (vat (dj_visited st) v) (\<lambda>vis. res_bind (tget G u v) (\<lambda>w.
       if vis \<or> w = INT_MAX then Inr st
       else res_bind (vat (dist st) v) (\<lambda>dv. res_bind (vat (dist st) u) (\<lambda>du. res_bind (int_add du w) (\<lambda>x.
         if x < dv then res_bind (vput (dist st) v x) (\<lambda>ds. Inr (st\<lparr>dist := ds\<rparr>)) else Inr st)))))"

text \<open>One round; \<open>None\<close> is the early return.\<close>

definition dijkstra_round :: "int table \<Rightarrow> nat \<Rightarrow> dijkstra_state \<Rightarrow> dijkstra_state option res" where
  "dijkstra_round G n st =
     res_bind (nearest n st) (\<lambda>(u, m). case u of
       None \<Rightarrow> Inr None
     | Some u \<Rightarrow> res_bind (vput (dj_visited st) u True) (\<lambda>vs.
         res_bind (for_each [0..<n] (relax_node G u) (st\<lparr>dj_visited := vs\<rparr>)) (\<lambda>st. Inr (Some st))))"

fun dijkstra_rounds :: "nat \<Rightarrow> int table \<Rightarrow> nat \<Rightarrow> dijkstra_state \<Rightarrow> dijkstra_state res" where
  "dijkstra_rounds 0 G n st = Inr st"
| "dijkstra_rounds (Suc k) G n st = res_bind (dijkstra_round G n st) (\<lambda>r. case r of
     None \<Rightarrow> Inr st
   | Some st \<Rightarrow> dijkstra_rounds k G n st)"

definition dijkstra :: "int table \<Rightarrow> nat \<Rightarrow> nat \<Rightarrow> dijkstra_state \<Rightarrow> dijkstra_state res" where
  "dijkstra G n src st =
     res_bind (for_each [0..<n] (\<lambda>i st. res_bind (tget G src i) (\<lambda>w. res_bind (vput (dist st) i w) (\<lambda>ds.
       res_bind (vput (dj_visited st) i False) (\<lambda>vs. Inr (st\<lparr>dist := ds, dj_visited := vs\<rparr>))))) st) (\<lambda>st.
     dijkstra_rounds n G n st)"

text \<open>The distances that \<open>dijkstra\<close> writes are weights of paths: \<open>walk G n u w v\<close> is a path of weight \<open>w\<close>.\<close>

inductive walk :: "int table \<Rightarrow> nat \<Rightarrow> nat \<Rightarrow> int \<Rightarrow> nat \<Rightarrow> bool" for G n u where
  walk_edge: "v < n \<Longrightarrow> cell G u v \<noteq> INT_MAX \<Longrightarrow> walk G n u (cell G u v) v"
| walk_step: "walk G n u w m \<Longrightarrow> v < n \<Longrightarrow> cell G m v \<noteq> INT_MAX \<Longrightarrow> walk G n u (w + cell G m v) v"

definition dist_ok :: "int table \<Rightarrow> nat \<Rightarrow> nat \<Rightarrow> dijkstra_state \<Rightarrow> bool" where
  "dist_ok G n src st \<longleftrightarrow> length (dist st) = n \<and> length (dj_visited st) = n \<and>
     (\<forall>v < n. dist st ! v = INT_MAX \<or> walk G n src (dist st ! v) v)"

text \<open>While \<open>u\<close> is relaxed, it is visited and at a finite distance.\<close>

definition relaxing :: "int table \<Rightarrow> nat \<Rightarrow> nat \<Rightarrow> nat \<Rightarrow> dijkstra_state \<Rightarrow> bool" where
  "relaxing G n src u st \<longleftrightarrow> dist_ok G n src st \<and> dj_visited st ! u \<and> dist st ! u \<noteq> INT_MAX"

lemma relax_node_ok:
  assumes "shape n n G" and "u < n" and "v < n" and "relaxing G n src u st"
  shows "relax_node G u v st = Inl Undefined \<or> (\<exists>st'. relax_node G u v st = Inr st' \<and> relaxing G n src u st')"
proof (cases "dj_visited st ! v \<or> cell G u v = INT_MAX")
  case True
  with assms show ?thesis by (auto simp: relax_node_def relaxing_def dist_ok_def tget_ok [OF assms(1)])
next
  case False
  have w: "walk G n src (dist st ! u + cell G u v) v"
    using assms False by (intro walk_step) (auto simp: relaxing_def dist_ok_def)
  have "u \<noteq> v" using False assms(4) by (auto simp: relaxing_def)
  with w False assms show ?thesis
    by (auto simp: relax_node_def relaxing_def dist_ok_def tget_ok [OF assms(1)] int_add_def nth_list_update)
qed

lemma nearest_ok:
  assumes "length (dist st) = n" and "length (dj_visited st) = n"
  shows "\<exists>u m. nearest n st = Inr (u, m) \<and> (\<forall>i. u = Some i \<longrightarrow> i < n \<and> dist st ! i < INT_MAX)"
proof -
  have "\<exists>s. nearest n st = Inr s \<and> (snd s \<le> INT_MAX \<and> (\<forall>i. fst s = Some i \<longrightarrow> i < n \<and> dist st ! i < INT_MAX))"
    unfolding nearest_def by (rule for_each_inv [where I = "\<lambda>_ s. snd s \<le> INT_MAX \<and>
      (\<forall>i. fst s = Some i \<longrightarrow> i < n \<and> dist st ! i < INT_MAX)"]) (use assms in auto)
  then show ?thesis by auto
qed

lemma for_each_or_undefined:
  assumes "I s" and "\<And>x s. x \<in> set xs \<Longrightarrow> I s \<Longrightarrow> f x s = Inl Undefined \<or> (\<exists>s'. f x s = Inr s' \<and> I s')"
  shows "for_each xs f s = Inl Undefined \<or> (\<exists>s'. for_each xs f s = Inr s' \<and> I s')"
  using assms
proof (induction xs arbitrary: s)
  case (Cons x xs)
  have "f x s = Inl Undefined \<or> (\<exists>s'. f x s = Inr s' \<and> I s')" using Cons.prems by simp
  then show ?case
  proof
    assume "\<exists>s'. f x s = Inr s' \<and> I s'"
    then obtain t where "f x s = Inr t" "I t" by blast
    with Cons.IH [of t] Cons.prems(2) show ?case by simp
  qed simp
qed simp

lemma dijkstra_rounds_ok:
  assumes "shape n n G"
  shows "dist_ok G n src st \<Longrightarrow> dijkstra_rounds k G n st = Inl Undefined \<or>
    (\<exists>st'. dijkstra_rounds k G n st = Inr st' \<and> dist_ok G n src st')"
proof (induction k arbitrary: st)
  case (Suc k)
  obtain u m where u: "nearest n st = Inr (u, m)" "\<forall>i. u = Some i \<longrightarrow> i < n \<and> dist st ! i < INT_MAX"
    using nearest_ok [of st n] Suc.prems by (auto simp: dist_ok_def)
  show ?case
  proof (cases u)
    case None
    with u Suc.prems show ?thesis by (simp add: dijkstra_round_def)
  next
    case (Some i)
    let ?st = "st\<lparr>dj_visited := (dj_visited st)[i := True]\<rparr>"
    have st: "relaxing G n src i ?st" "i < n" "i < length (dj_visited st)"
      using Suc.prems u(2) Some by (auto simp: relaxing_def dist_ok_def)
    have "for_each [0..<n] (relax_node G i) ?st = Inl Undefined \<or>
        (\<exists>s'. for_each [0..<n] (relax_node G i) ?st = Inr s' \<and> relaxing G n src i s')"
      by (rule for_each_or_undefined) (use st relax_node_ok [OF assms] in auto)
    then show ?thesis
    proof
      assume "for_each [0..<n] (relax_node G i) ?st = Inl Undefined"
      with u Some st show ?thesis by (simp add: dijkstra_round_def)
    next
      assume "\<exists>s'. for_each [0..<n] (relax_node G i) ?st = Inr s' \<and> relaxing G n src i s'"
      then obtain s' where s': "for_each [0..<n] (relax_node G i) ?st = Inr s'" "dist_ok G n src s'"
        by (auto simp: relaxing_def)
      then have "dijkstra_round G n st = Inr (Some s')" using u Some st by (simp add: dijkstra_round_def)
      with Suc.IH [OF s'(2)] show ?thesis by simp
    qed
  qed
qed simp

text \<open>\<open>dijkstra\<close> terminates; unless a sum overflows, every distance is the weight of a path from the source.\<close>

lemma dijkstra_sound:
  assumes "shape n n G" and "src < n" and "length (dist st) = n" and "length (dj_visited st) = n"
  shows "dijkstra G n src st = Inl Undefined \<or> (\<exists>st'. dijkstra G n src st = Inr st' \<and> dist_ok G n src st')"
proof -
  define I where "I = (\<lambda>i (st :: dijkstra_state). length (dist st) = n \<and> length (dj_visited st) = n \<and>
    (\<forall>v < i. dist st ! v = INT_MAX \<or> walk G n src (dist st ! v) v))"
  have "\<exists>s. for_each [0..<n] (\<lambda>i st. res_bind (tget G src i) (\<lambda>w. res_bind (vput (dist st) i w) (\<lambda>ds.
       res_bind (vput (dj_visited st) i False) (\<lambda>vs. Inr (st\<lparr>dist := ds, dj_visited := vs\<rparr>))))) st = Inr s \<and> I n s"
  proof (rule for_each_inv)
    fix i s
    assume i: "i < n" and I: "I i s"
    let ?s = "s\<lparr>dist := (dist s)[i := cell G src i], dj_visited := (dj_visited s)[i := False]\<rparr>"
    have "I (Suc i) ?s" using I i by (auto simp: I_def nth_list_update less_Suc_eq intro: walk_edge)
    then show "\<exists>s'. res_bind (tget G src i) (\<lambda>w. res_bind (vput (dist s) i w) (\<lambda>ds.
       res_bind (vput (dj_visited s) i False) (\<lambda>vs. Inr (s\<lparr>dist := ds, dj_visited := vs\<rparr>)))) = Inr s' \<and> I (Suc i) s'"
      using I i tget_ok [OF assms(1,2) i] by (auto simp: I_def)
  qed (use assms in \<open>simp_all add: I_def\<close>)
  then obtain s where "for_each [0..<n] (\<lambda>i st. res_bind (tget G src i) (\<lambda>w. res_bind (vput (dist st) i w) (\<lambda>ds.
       res_bind (vput (dj_visited st) i False) (\<lambda>vs. Inr (st\<lparr>dist := ds, dj_visited := vs\<rparr>))))) st = Inr s"
    "dist_ok G n src s" by (auto simp: I_def dist_ok_def)
  with dijkstra_rounds_ok [OF assms(1), of src s n] show ?thesis by (simp add: dijkstra_def)
qed

section \<open>\<open>Prim\<close>\<close>

text \<open>
  \<open>State\<close> is a candidate edge; \<open>pick\<close> stands for \<open>top\<close> of the priority queue, and \<open>top\<close> of an empty queue is
  undefined. \<open>gn\<close> is the global \<open>n\<close>, which sizes the result before the local \<open>n\<close> hides it.
\<close>

datatype candidate = Candidate (cand_u: nat) (cand_v: nat) (cand_w: int)

record prim_state =
  pr_graph :: "int table"
  pr_visited :: "bool list"
  pr_queue :: "candidate list"

definition offer :: "nat \<Rightarrow> nat \<Rightarrow> nat \<Rightarrow> prim_state \<Rightarrow> prim_state res" where
  "offer u row i st =
     res_bind (vat (pr_visited st) i) (\<lambda>vis. res_bind (tget (pr_graph st) u i) (\<lambda>w.
       if \<not> vis \<and> w \<noteq> INT_MAX
       then res_bind (tget (pr_graph st) row i) (\<lambda>x. Inr (st\<lparr>pr_queue := pr_queue st @ [Candidate u i x]\<rparr>))
       else Inr st))"

text \<open>A round reads the top of the queue, does not remove it, and offers the edges of \<open>v\<close> with weights of \<open>src\<close>.\<close>

definition prim_round :: "(candidate list \<Rightarrow> candidate) \<Rightarrow> nat \<Rightarrow> nat \<Rightarrow> prim_state \<Rightarrow> prim_state res" where
  "prim_round pick src n st =
     (if pr_queue st = [] then Inl Undefined
      else let s = pick (pr_queue st) in
        res_bind (tput (pr_graph st) (cand_u s) (cand_v s) (cand_w s)) (\<lambda>G.
        res_bind (vput (pr_visited st) (cand_v s) True) (\<lambda>vis.
        for_each [0..<n] (offer (cand_v s) src) (st\<lparr>pr_graph := G, pr_visited := vis\<rparr>))))"

text \<open>\<open>while (--n)\<close> also changes the bound of the inner loop.\<close>

fun prim_rounds :: "(candidate list \<Rightarrow> candidate) \<Rightarrow> nat \<Rightarrow> nat \<Rightarrow> prim_state \<Rightarrow> prim_state res" where
  "prim_rounds pick src 0 st = Inl Undefined"
| "prim_rounds pick src (Suc n) st =
     (if n = 0 then Inr st else res_bind (prim_round pick src n st) (prim_rounds pick src n))"

definition Prim :: "(candidate list \<Rightarrow> candidate) \<Rightarrow> nat \<Rightarrow> int table \<Rightarrow> nat \<Rightarrow> prim_state \<Rightarrow> int table res" where
  "Prim pick gn G src st =
     (let result = table gn gn INT_MAX; n = length G in
      res_bind (vput (pr_visited st) src True) (\<lambda>vis.
      res_bind (for_each [0..<n] (offer src src) (st\<lparr>pr_graph := G, pr_visited := vis, pr_queue := []\<rparr>)) (\<lambda>st.
      res_bind (prim_rounds pick src n st) (\<lambda>st. Inr result))))"

text \<open>Nothing writes the result: whatever the graph, a call that returns returns no edge.\<close>

lemma Prim_no_edge: "Prim pick gn G src st = Inr r \<Longrightarrow> i < gn \<Longrightarrow> j < gn \<Longrightarrow> cell r i j = INT_MAX"
  by (auto simp: Prim_def Let_def)

end
