(* ===== verification/Algorithm_Backtrack.thy ===== *)
theory Algorithm_Backtrack
  imports Prelude
begin

text \<open>
  The two searches of Algorithm/BackTrack.cpp over the global \<open>res\<close>, \<open>track\<close> and \<open>used\<close>: the permutations of a
  vector and the sub-multisets of a sorted vector. Recursion has fuel for its depth.
\<close>

section \<open>\<open>permutate\<close>\<close>

record perm_state =
  ps_res :: "int list list"
  ps_track :: "int list"
  ps_used :: "bool list"

text \<open>The body of the loop, around the recursive call \<open>rec\<close>.\<close>

definition perm_choice :: "(perm_state \<Rightarrow> perm_state res) \<Rightarrow> int list \<Rightarrow> nat \<Rightarrow> perm_state \<Rightarrow> perm_state res" where
  "perm_choice rec nums i st =
     res_bind (vat (ps_used st) i) (\<lambda>u.
       if u then Inr st
       else res_bind (vput (ps_used st) i True) (\<lambda>us.
         res_bind (rec (st\<lparr>ps_used := us, ps_track := ps_track st @ [nums ! i]\<rparr>)) (\<lambda>st.
           res_bind (vput (ps_used st) i False) (\<lambda>us.
             Inr (st\<lparr>ps_used := us, ps_track := butlast (ps_track st)\<rparr>)))))"

primrec backtrack :: "nat \<Rightarrow> int list \<Rightarrow> perm_state \<Rightarrow> perm_state res" where
  "backtrack 0 nums st = Inl Diverges"
| "backtrack (Suc n) nums st =
     (if length (ps_track st) = length nums then Inr (st\<lparr>ps_res := ps_res st @ [ps_track st]\<rparr>)
      else for_each [0..<length nums] (perm_choice (backtrack n nums) nums) st)"

definition permutate :: "int list \<Rightarrow> perm_state \<Rightarrow> perm_state res" where
  "permutate nums st =
     backtrack (length nums + 1) nums (st\<lparr>ps_used := replicate (length nums) False\<rparr>)"

text \<open>The completions of a track by \<open>k\<close> of the numbers that are not used.\<close>

definition extend :: "(bool list \<Rightarrow> int list list) \<Rightarrow> int list \<Rightarrow> bool list \<Rightarrow> nat \<Rightarrow> int list list" where
  "extend rec nums used i = (if used ! i then [] else map ((#) (nums ! i)) (rec (used[i := True])))"

primrec completions :: "nat \<Rightarrow> int list \<Rightarrow> bool list \<Rightarrow> int list list" where
  "completions 0 nums used = [[]]"
| "completions (Suc k) nums used = concat (map (extend (completions k nums) nums used) [0..<length nums])"

definition unused :: "bool list \<Rightarrow> nat set" where
  "unused used = {i. i < length used \<and> \<not> used ! i}"

lemma finite_unused [simp]: "finite (unused used)"
  by (simp add: unused_def)

lemma unused_use: "i \<in> unused used \<Longrightarrow> unused (used[i := True]) = unused used - {i}"
  by (auto simp: unused_def nth_list_update)

lemma perm_choice_extend:
  assumes "length (ps_used st) = length nums" and "i < length nums"
    and "\<And>st'. length (ps_used st') = length nums \<Longrightarrow> length (ps_track st') = Suc (length (ps_track st)) \<Longrightarrow>
      card (unused (ps_used st')) + 1 = card (unused (ps_used st)) \<Longrightarrow>
      rec st' = Inr (st'\<lparr>ps_res := ps_res st' @ map ((@) (ps_track st')) (fin (ps_used st'))\<rparr>)"
  shows "perm_choice rec nums i st =
    Inr (st\<lparr>ps_res := ps_res st @ map ((@) (ps_track st)) (extend fin nums (ps_used st) i)\<rparr>)"
proof (cases "ps_used st ! i")
  case False
  let ?st = "st\<lparr>ps_used := (ps_used st)[i := True], ps_track := ps_track st @ [nums ! i]\<rparr>"
  have "i \<in> unused (ps_used st)" using False assms by (simp add: unused_def)
  then have "card (unused (ps_used ?st)) + 1 = card (unused (ps_used st))"
    using card_Suc_Diff1 [OF finite_unused] by (simp add: unused_use)
  with assms have "rec ?st = Inr (?st\<lparr>ps_res := ps_res ?st @ map ((@) (ps_track ?st)) (fin (ps_used ?st))\<rparr>)" by simp
  moreover have "(ps_used st)[i := False] = ps_used st" using False by (metis list_update_id)
  ultimately show ?thesis using False assms(1,2) by (simp add: perm_choice_def extend_def comp_def)
qed (use assms in \<open>simp add: perm_choice_def extend_def\<close>)

lemma backtrack_completions:
  assumes "length (ps_used st) = length nums" and "length nums = length (ps_track st) + k"
    and "card (unused (ps_used st)) = k" and "k < fuel"
  shows "backtrack fuel nums st =
    Inr (st\<lparr>ps_res := ps_res st @ map ((@) (ps_track st)) (completions k nums (ps_used st))\<rparr>)"
  using assms
proof (induction k arbitrary: fuel st)
  case 0
  then show ?case by (cases fuel) simp_all
next
  case (Suc k)
  obtain n where n: "fuel = Suc n" using Suc.prems by (cases fuel) auto
  let ?us = "ps_used st" and ?tr = "ps_track st"
  have choice: "perm_choice (backtrack n nums) nums i (st\<lparr>ps_res := rs\<rparr>) =
      Inr (st\<lparr>ps_res := rs @ map ((@) ?tr) (extend (completions k nums) nums ?us i)\<rparr>)"
    if "i < length nums" for i rs
    using perm_choice_extend [of "st\<lparr>ps_res := rs\<rparr>" nums i "backtrack n nums" "completions k nums"]
      Suc.IH Suc.prems n that by simp
  have "for_each [0..<j] (perm_choice (backtrack n nums) nums) (st\<lparr>ps_res := ps_res st\<rparr>) =
      Inr (st\<lparr>ps_res := ps_res st @ map ((@) ?tr) (concat (map (extend (completions k nums) nums ?us) [0..<j]))\<rparr>)"
    if "j \<le> length nums" for j
    using that by (induction j) (simp_all add: for_each_append choice)
  from this [of "length nums"] show ?case using Suc.prems(2) by (simp add: n)
qed

text \<open>What the completions are.\<close>

definition unused_values :: "int list \<Rightarrow> bool list \<Rightarrow> int multiset" where
  "unused_values nums used = image_mset ((!) nums) (mset_set (unused used))"

lemma unused_values_use:
  "i \<in> unused used \<Longrightarrow> unused_values nums used = add_mset (nums ! i) (unused_values nums (used[i := True]))"
  by (simp add: unused_values_def unused_use flip: mset_set.remove)
    (metis finite_unused image_mset_add_mset mset_set.remove)

lemma set_completions:
  "length used = length nums \<Longrightarrow> card (unused used) = k \<Longrightarrow>
    set (completions k nums used) = {xs. mset xs = unused_values nums used}"
proof (induction k arbitrary: used)
  case 0
  then have "unused used = {}" by simp
  then show ?case by (simp add: unused_values_def)
next
  case (Suc k)
  have rec: "set (extend (completions k nums) nums used i) = (#) (nums ! i) ` {xs. mset xs = unused_values nums (used[i := True])}"
    if "i \<in> unused used" for i
    using that Suc.IH [of "used[i := True]"] Suc.prems
    by (simp add: extend_def unused_use) (simp add: unused_def)
  have skip: "extend c nums used i = []" if "i < length used" "i \<notin> unused used" for c i
    using that by (simp add: extend_def unused_def)
  have "set (completions (Suc k) nums used) = (\<Union>i \<in> unused used. (#) (nums ! i) ` {xs. mset xs = unused_values nums (used[i := True])})"
  proof -
    have "set (completions (Suc k) nums used) = (\<Union>i \<in> {..<length nums}. set (extend (completions k nums) nums used i))"
      by auto
    also have "\<dots> = (\<Union>i \<in> unused used. set (extend (completions k nums) nums used i))"
      using skip Suc.prems(1) by (auto simp: unused_def)
    also have "\<dots> = (\<Union>i \<in> unused used. (#) (nums ! i) ` {xs. mset xs = unused_values nums (used[i := True])})"
      using rec by simp
    finally show ?thesis .
  qed
  also have "\<dots> = {xs. mset xs = unused_values nums used}"
  proof (intro set_eqI iffI)
    fix xs
    assume "xs \<in> {xs. mset xs = unused_values nums used}"
    then have m: "mset xs = unused_values nums used" by simp
    moreover have "unused_values nums used \<noteq> {#}"
      using Suc.prems(2) by (auto simp: unused_values_def mset_set_empty_iff)
    ultimately obtain x ys where xs: "xs = x # ys" by (cases xs) auto
    have "x \<in># unused_values nums used" using m xs by (metis list.set_intros(1) set_mset_mset)
    then obtain i where i: "i \<in> unused used" "x = nums ! i" by (auto simp: unused_values_def)
    have "mset ys = unused_values nums (used[i := True])"
      using m xs unused_values_use [OF i(1), of nums] i(2) by simp
    with i xs show "xs \<in> (\<Union>i \<in> unused used. (#) (nums ! i) ` {xs. mset xs = unused_values nums (used[i := True])})"
      by blast
  qed (auto simp: unused_values_use)
  finally show ?case .
qed

lemma distinct_completions:
  "distinct nums \<Longrightarrow> distinct (completions k nums used)"
proof (induction k arbitrary: used)
  case (Suc k)
  let ?e = "extend (completions k nums) nums used"
  have d: "distinct (?e i)" for i using Suc by (simp add: extend_def distinct_map)
  have e: "x \<notin> set (?e j)" if "x \<in> set (?e i)" "i < length nums" "j < length nums" "i \<noteq> j" for x i j
    using that Suc.prems by (auto simp: extend_def nth_eq_iff_index_eq split: if_splits)
  have "distinct (concat (map ?e [0..<n]))" if "n \<le> length nums" for n
    using that
  proof (induction n)
    case (Suc n)
    have "x \<notin> set (?e n)" if "x \<in> set (concat (map ?e [0..<n]))" for x
      using that Suc.prems e [where j = n] by fastforce
    with Suc d show ?case by (auto simp del: set_concat)
  qed simp
  then show ?case by simp
qed simp

text \<open>C24: \<open>permutate\<close> is correct: for distinct numbers and an empty track it terminates and appends to \<open>res\<close> every
  permutation of the numbers exactly once; what \<open>res\<close> held from an earlier call stays in front.\<close>
theorem permutate_permutations:
  assumes "distinct nums" and "ps_track st = []"
  shows "\<exists>ps st'. permutate nums st = Inr st' \<and> ps_res st' = ps_res st @ ps \<and> ps_track st' = [] \<and>
    distinct ps \<and> set ps = {xs. mset xs = mset nums}"
proof -
  let ?us = "replicate (length nums) False"
  let ?st = "st\<lparr>ps_used := ?us\<rparr>"
  have u: "unused ?us = {..<length nums}" by (auto simp: unused_def)
  have "unused_values nums ?us = mset nums"
    using mset_map [of "(!) nums" "[0..<length nums]"] by (simp add: unused_values_def u map_nth lessThan_atLeast0 mset_upt)
  moreover have "permutate nums st = Inr (?st\<lparr>ps_res := ps_res ?st @ map ((@) (ps_track ?st)) (completions (length nums) nums ?us)\<rparr>)"
    unfolding permutate_def using backtrack_completions [of ?st nums "length nums" "length nums + 1"] assms(2) u by simp
  moreover have "map ((@) []) ps = ps" for ps :: "int list list" by (simp add: map_idI)
  ultimately show ?thesis
    using set_completions [of ?us nums "length nums"] distinct_completions [OF assms(1)] u assms(2)
    by (intro exI [of _ "completions (length nums) nums ?us"]) simp
qed

theorem permutate_permutations_witness:
  "\<exists>ps st'. permutate [1, 2, 3] \<lparr>ps_res = [[7]], ps_track = [], ps_used = []\<rparr> = Inr st' \<and>
    ps_res st' = [[7]] @ ps \<and> [3, 1, 2] \<in> set ps"
proof -
  have m: "mset [3, 1, 2 :: int] = mset [1, 2, 3]" by simp
  from permutate_permutations [of "[1, 2, 3]" "\<lparr>ps_res = [[7]], ps_track = [], ps_used = []\<rparr>"]
  obtain ps st' where "permutate [1, 2, 3] \<lparr>ps_res = [[7]], ps_track = [], ps_used = []\<rparr> = Inr st'"
    "ps_res st' = [[7]] @ ps" "set ps = {xs. mset xs = mset [1, 2, 3]}" by auto
  with m show ?thesis by blast
qed

section \<open>\<open>subsetWithDup\<close>\<close>

record subset_state =
  ss_res :: "int list list"
  ss_track :: "int list"

primrec backtrack_from :: "nat \<Rightarrow> int list \<Rightarrow> nat \<Rightarrow> subset_state \<Rightarrow> subset_state res" where
  "backtrack_from 0 nums start st = Inl Diverges"
| "backtrack_from (Suc n) nums start st =
     for_each [start..<length nums] (\<lambda>i st.
       if start < i \<and> nums ! i = nums ! (i - 1) then Inr st
       else res_bind (backtrack_from n nums (i + 1) (st\<lparr>ss_track := ss_track st @ [nums ! i]\<rparr>)) (\<lambda>st.
         Inr (st\<lparr>ss_track := butlast (ss_track st)\<rparr>)))
     (st\<lparr>ss_res := ss_res st @ [ss_track st]\<rparr>)"

definition subsetWithDup :: "int list \<Rightarrow> subset_state \<Rightarrow> subset_state res" where
  "subsetWithDup nums st = backtrack_from (length nums + 1) (sort nums) 0 st"

text \<open>The extensions of a track by elements of a sorted list, each value tried once at every place.\<close>

function picks :: "int list \<Rightarrow> int list list" where
  "picks [] = []"
| "picks (a # xs) = map ((#) a) ([] # picks xs) @ picks (dropWhile (\<lambda>x. x = a) xs)"
  by pat_completeness auto
termination
  by (relation "measure length") (simp_all add: le_imp_less_Suc length_dropWhile_le)

definition choices :: "int list \<Rightarrow> int list list" where
  "choices xs = [] # picks xs"

lemma picks_Cons: "picks (a # xs) = map ((#) a) (choices xs) @ picks (dropWhile (\<lambda>x. x = a) xs)"
  by (simp add: choices_def)

declare picks.simps(2) [simp del]

lemma backtrack_from_choices:
  assumes "start \<le> length nums" and "length nums < fuel + start"
  shows "backtrack_from fuel nums start st =
    Inr (st\<lparr>ss_res := ss_res st @ map ((@) (ss_track st)) (choices (drop start nums))\<rparr>)"
  using assms
proof (induction fuel arbitrary: start st)
  case (Suc n)
  let ?f = "\<lambda>i st. if start < i \<and> nums ! i = nums ! (i - 1) then Inr st
       else res_bind (backtrack_from n nums (i + 1) (st\<lparr>ss_track := ss_track st @ [nums ! i]\<rparr>)) (\<lambda>st.
         Inr (st\<lparr>ss_track := butlast (ss_track st)\<rparr>))"
  have round: "?f i st = Inr (st\<lparr>ss_res := ss_res st @
      (if start < i \<and> nums ! i = nums ! (i - 1) then []
       else map ((@) (ss_track st)) (map ((#) (nums ! i)) (choices (drop (i + 1) nums))))\<rparr>)"
    if "i < length nums" "start \<le> i" for i st
    using that Suc.IH [of "i + 1"] Suc.prems by (simp add: comp_def)
  let ?rest = "\<lambda>i. if start < i then picks (dropWhile (\<lambda>x. x = nums ! (i - 1)) (drop i nums)) else picks (drop i nums)"
  have loop: "for_each [i..<length nums] ?f st = Inr (st\<lparr>ss_res := ss_res st @ map ((@) (ss_track st)) (?rest i)\<rparr>)"
    if "i \<le> length nums" "start \<le> i" for i st
    using that
  proof (induction "length nums - i" arbitrary: i st)
    case 0
    then show ?case by simp
  next
    case (Suc d)
    then have i: "i < length nums" by simp
    have cons: "drop i nums = nums ! i # drop (Suc i) nums" using i by (rule Cons_nth_drop_Suc [symmetric])
    have next_i: "for_each [Suc i..<length nums] ?f st =
        Inr (st\<lparr>ss_res := ss_res st @ map ((@) (ss_track st)) (?rest (Suc i))\<rparr>)" for st
      using Suc.hyps Suc.prems by (intro Suc.hyps(1)) auto
    have "[i..<length nums] = i # [Suc i..<length nums]" using i by (rule upt_conv_Cons)
    then show ?case
      using i Suc.prems(2) cons by (simp only: for_each.simps round [OF i Suc.prems(2)] res_bind.simps next_i)
        (auto simp: picks_Cons comp_def)
  qed
  have "for_each [start..<length nums] ?f (st\<lparr>ss_res := ss_res st @ [ss_track st]\<rparr>) =
      Inr (st\<lparr>ss_res := ss_res st @ map ((@) (ss_track st)) (choices (drop start nums))\<rparr>)"
    unfolding loop [OF Suc.prems(1) order_refl] by (simp add: choices_def)
  then show ?case by simp
qed simp

lemma sorted_subset_first:
  assumes "sorted (b # zs)" and "mset (b # zs) \<subseteq># mset (a # xs)" and "sorted (a # xs)" and "b \<noteq> a"
  shows "mset (b # zs) \<subseteq># mset (dropWhile (\<lambda>x. x = a) xs)"
proof -
  have "b \<in># mset (a # xs)" using assms(2) by (metis list.set_intros(1) mset_subset_eqD set_mset_mset)
  then have "a < b" using assms(3,4) by auto
  then have no: "a \<notin> set (b # zs)" using assms(1) by auto
  have "mset (a # xs) = mset (a # takeWhile (\<lambda>x. x = a) xs) + mset (dropWhile (\<lambda>x. x = a) xs)"
    by (metis append_Cons mset_append takeWhile_dropWhile_id)
  with assms(2) have sub: "mset (b # zs) \<subseteq># mset (a # takeWhile (\<lambda>x. x = a) xs) + mset (dropWhile (\<lambda>x. x = a) xs)" by simp
  have only: "set (takeWhile (\<lambda>x. x = a) xs) \<subseteq> {a}" by (auto dest: set_takeWhileD)
  show ?thesis
  proof (rule mset_subset_eqI)
    fix c
    show "count (mset (b # zs)) c \<le> count (mset (dropWhile (\<lambda>x. x = a) xs)) c"
    proof (cases "c = a")
      case True
      then have "count (mset (b # zs)) c = 0" using no by (metis count_eq_zero_iff set_mset_mset)
      then show ?thesis by simp
    next
      case False
      then have "c \<notin># mset (a # takeWhile (\<lambda>x. x = a) xs)" using only by auto
      then have "count (mset (a # takeWhile (\<lambda>x. x = a) xs)) c = 0" by (rule not_in_iff [THEN iffD1])
      then show ?thesis using mset_subset_eq_count [OF sub, of c] unfolding count_union by linarith
    qed
  qed
qed

lemma set_picks: "sorted xs \<Longrightarrow> set (picks xs) = {ys. ys \<noteq> [] \<and> sorted ys \<and> mset ys \<subseteq># mset xs}"
proof (induction xs rule: picks.induct)
  case (2 a xs)
  let ?d = "dropWhile (\<lambda>x. x = a) xs"
  have s: "sorted xs" "sorted ?d" "\<forall>x \<in> set xs. a \<le> x" using "2.prems" by (simp_all add: sorted_dropWhile)
  have "mset xs = mset (takeWhile (\<lambda>x. x = a) xs) + mset ?d" by (metis mset_append takeWhile_dropWhile_id)
  then have d: "mset ?d \<subseteq># mset (a # xs)"
    by (metis mset.simps(2) mset_subset_eq_add_right union_mset_add_mset_left)
  show ?case
  proof (intro set_eqI iffI)
    fix ys
    assume "ys \<in> set (picks (a # xs))"
    then consider zs where "ys = a # zs" "zs = [] \<or> zs \<in> set (picks xs)" | "ys \<in> set (picks ?d)"
      by (auto simp: picks_Cons choices_def)
    then show "ys \<in> {ys. ys \<noteq> [] \<and> sorted ys \<and> mset ys \<subseteq># mset (a # xs)}"
    proof cases
      case 1
      have "zs = [] \<or> sorted zs \<and> mset zs \<subseteq># mset xs" using 1(2) unfolding "2.IH"(1) [OF s(1)] by blast
      then have z: "sorted zs" "mset zs \<subseteq># mset xs" by (elim disjE; simp)+
      then have "set zs \<subseteq> set xs" by (metis set_mset_mono set_mset_mset)
      with 1 z s(3) show ?thesis by auto
    next
      case 2
      then show ?thesis using "2.IH"(2) s(2) d by (auto intro: subset_mset.order_trans)
    qed
  next
    fix ys
    assume "ys \<in> {ys. ys \<noteq> [] \<and> sorted ys \<and> mset ys \<subseteq># mset (a # xs)}"
    then obtain b zs where y: "ys = b # zs" "sorted (b # zs)" "mset (b # zs) \<subseteq># mset (a # xs)" by (cases ys) auto
    show "ys \<in> set (picks (a # xs))"
    proof (cases "b = a")
      case True
      then have "zs = [] \<or> zs \<in> set (picks xs)" using y "2.IH"(1) s(1) by auto
      with True y(1) show ?thesis by (auto simp: picks_Cons choices_def)
    next
      case False
      with sorted_subset_first [OF y(2,3) "2.prems"] y "2.IH"(2) s(2) show ?thesis
        by (auto simp: picks_Cons)
    qed
  qed
qed simp

lemma distinct_picks: "sorted xs \<Longrightarrow> distinct (picks xs)"
proof (induction xs rule: picks.induct)
  case (2 a xs)
  let ?d = "dropWhile (\<lambda>x. x = a) xs"
  have s: "sorted xs" "sorted ?d" using "2.prems" by (simp_all add: sorted_dropWhile)
  have "a \<notin> set ?d"
  proof
    assume "a \<in> set ?d"
    then have ne: "?d \<noteq> []" by (metis empty_iff list.set(1))
    then have b: "hd ?d \<noteq> a" "hd ?d \<in> set xs" using hd_dropWhile [OF ne] set_dropWhileD [OF hd_in_set [OF ne]] by simp_all
    with "2.prems" have "a < hd ?d" by auto
    moreover have "hd ?d \<le> a" using \<open>a \<in> set ?d\<close> s(2) ne by (cases ?d) auto
    ultimately show False by simp
  qed
  have "zs \<notin> set (picks ?d)" if zs: "hd zs = a" "zs \<noteq> []" for zs
  proof
    assume "zs \<in> set (picks ?d)"
    then have "mset zs \<subseteq># mset ?d" using set_picks [OF s(2)] by blast
    then have "set zs \<subseteq> set ?d" by (metis set_mset_mono set_mset_mset)
    with zs \<open>a \<notin> set ?d\<close> show False by (metis hd_in_set subsetD)
  qed
  moreover have "[] \<notin> set (picks xs)" using set_picks [OF s(1)] by simp
  ultimately show ?case using "2.IH" s by (auto simp: picks_Cons choices_def distinct_map)
qed simp

text \<open>\<open>subsetWithDup\<close> is correct: from an empty track it terminates and appends to \<open>res\<close> every sub-multiset
  of the numbers exactly once, repeated values or not, each as a sorted list.\<close>

lemma subsetWithDup_subsets:
  assumes "ss_track st = []"
  shows "\<exists>rs. subsetWithDup nums st = Inr (st\<lparr>ss_res := ss_res st @ rs\<rparr>) \<and> distinct rs \<and>
    set rs = {ys. sorted ys \<and> mset ys \<subseteq># mset nums}"
proof -
  have "subsetWithDup nums st = Inr (st\<lparr>ss_res := ss_res st @ choices (sort nums)\<rparr>)"
    using backtrack_from_choices [of 0 "sort nums" "length nums + 1" st] assms
    by (simp add: subsetWithDup_def map_idI)
  moreover have "distinct (choices (sort nums))"
    using distinct_picks [of "sort nums"] set_picks [of "sort nums"] by (simp add: choices_def)
  moreover have "set (choices (sort nums)) = {ys. sorted ys \<and> mset ys \<subseteq># mset nums}"
  proof (rule set_eqI)
    fix ys
    show "ys \<in> set (choices (sort nums)) \<longleftrightarrow> ys \<in> {ys. sorted ys \<and> mset ys \<subseteq># mset nums}"
      unfolding choices_def list.set(2) set_picks [OF sorted_sort] by (cases "ys = []") simp_all
  qed
  ultimately show ?thesis by blast
qed

lemma subsetWithDup_subsets_witness:
  "\<exists>rs. subsetWithDup [2, 1, 2] \<lparr>ss_res = [], ss_track = []\<rparr> = Inr \<lparr>ss_res = rs, ss_track = []\<rparr> \<and>
    [2, 2] \<in> set rs \<and> [1, 1] \<notin> set rs"
proof -
  obtain rs where "subsetWithDup [2, 1, 2] \<lparr>ss_res = [], ss_track = []\<rparr> = Inr \<lparr>ss_res = rs, ss_track = []\<rparr>"
    "set rs = {ys. sorted ys \<and> mset ys \<subseteq># mset [2, 1, 2]}"
    using subsetWithDup_subsets [of "\<lparr>ss_res = [], ss_track = []\<rparr>" "[2, 1, 2]"] by auto
  moreover have "sorted [2, 2 :: int] \<and> mset [2, 2 :: int] \<subseteq># mset [2, 1, 2]" by simp
  moreover have "\<not> mset [1, 1 :: int] \<subseteq># mset [2, 1, 2]"
    using mset_subset_eq_count [of "mset [1, 1 :: int]" "mset [2, 1, 2]" 1] by auto
  ultimately show ?thesis by blast
qed

end
