(* ===== verification/Dbcp_Pool.thy ===== *)
theory Dbcp_Pool
  imports Prelude
begin

text \<open>
  The connection pool of DBCP-mgkl (src/ConnectionPool.cpp, src/Connection.cpp) and the level names of its
  logger (include/Log.hpp). Every operation holds the mutex, so each is one step; the handles of MySQL, the clock and
  the decoded configuration are arguments. The pool is a static object: its counters start at zero.
\<close>

section \<open>\<open>Connection\<close>\<close>

text \<open>\<open>conn_\<close> is \<open>None\<close> when it is null; times are milliseconds of the steady clock.\<close>

record connection =
  cn_handle :: "nat option"
  cn_aliveTime :: int

definition Connection_new :: "nat option \<Rightarrow> connection" where
  "Connection_new mysql_init = \<lparr>cn_handle = mysql_init, cn_aliveTime = 0\<rparr>"

text \<open>\<open>Connect\<close> overwrites the handle with the answer of \<open>mysql_real_connect\<close>, a null pointer included.\<close>

definition Connect :: "nat option \<Rightarrow> connection \<Rightarrow> bool \<times> connection" where
  "Connect answer c = (answer \<noteq> None, c\<lparr>cn_handle := answer\<rparr>)"

definition RefreshAliveTime :: "int \<Rightarrow> connection \<Rightarrow> connection" where
  "RefreshAliveTime now c = c\<lparr>cn_aliveTime := now\<rparr>"

definition GetAliveTime :: "int \<Rightarrow> connection \<Rightarrow> int" where
  "GetAliveTime now c = now - cn_aliveTime c"

text \<open>Statements: \<open>failed\<close> is the answer of \<open>mysql_query\<close>, \<open>answer\<close> that of \<open>mysql_use_result\<close>.\<close>

definition Update :: "bool \<Rightarrow> bool" where
  "Update failed = (if failed then False else True)"

definition Query :: "bool \<Rightarrow> nat option \<Rightarrow> nat option" where
  "Query failed answer = (if failed then None else answer)"

section \<open>\<open>ConnectionPool\<close>\<close>

text \<open>Connections are addresses; \<open>pl_used\<close> are those that a \<open>shared_ptr\<close> of a caller owns.\<close>

record pool =
  pl_ip :: string
  pl_port :: "16 word"
  pl_user :: string
  pl_password :: string
  pl_dbname :: string
  pl_minSize :: nat
  pl_maxSize :: nat
  pl_maxIdleTime :: nat
  pl_timeout :: nat
  pl_queue :: "nat list"
  pl_count :: int
  pl_exit :: bool
  pl_conns :: "nat \<rightharpoonup> connection"
  pl_used :: "nat set"

definition pool_zero :: pool where
  "pool_zero = \<lparr>pl_ip = '''', pl_port = 0, pl_user = '''', pl_password = '''', pl_dbname = '''', pl_minSize = 0, pl_maxSize = 0, pl_maxIdleTime = 0, pl_timeout = 0, pl_queue = [], pl_count = 0,
     pl_exit = False, pl_conns = Map.empty, pl_used = {}\<rparr>"

text \<open>The result of \<open>Connect\<close> is ignored: a connection that failed is queued like any other.\<close>

definition AddConnection :: "nat \<Rightarrow> nat option \<Rightarrow> int \<Rightarrow> pool \<Rightarrow> pool" where
  "AddConnection a answer now p = (let
     conn = Connection_new (Some 0);
     conn = snd (Connect answer conn);
     conn = RefreshAliveTime now conn
   in p\<lparr>pl_conns := (pl_conns p)(a \<mapsto> conn), pl_queue := pl_queue p @ [a], pl_count := pl_count p + 1\<rparr>)"

text \<open>\<open>GetConnection\<close> after its wait, which ends by the predicate or the timeout: \<open>None\<close> is \<open>nullptr\<close>.\<close>

definition GetConnection :: "pool \<Rightarrow> nat option \<times> pool" where
  "GetConnection p = (case pl_queue p of
     [] \<Rightarrow> (None, p)
   | a # q \<Rightarrow> (Some a, p\<lparr>pl_queue := q, pl_used := insert a (pl_used p)\<rparr>))"

text \<open>The deleter of the \<open>shared_ptr\<close>.\<close>

definition release :: "nat \<Rightarrow> int \<Rightarrow> pool \<Rightarrow> pool" where
  "release a now p = (let p = p\<lparr>pl_used := pl_used p - {a}\<rparr> in
     if \<not> pl_exit p then
       p\<lparr>pl_conns := (pl_conns p)(a := map_option (RefreshAliveTime now) (pl_conns p a)), pl_queue := pl_queue p @ [a]\<rparr>
     else p\<lparr>pl_conns := (pl_conns p)(a := None)\<rparr>)"

fun delete_all :: "nat list \<Rightarrow> (nat \<rightharpoonup> connection) \<Rightarrow> (nat \<rightharpoonup> connection)" where
  "delete_all [] m = m"
| "delete_all (a # q) m = delete_all q (m(a := None))"

definition pool_close :: "pool \<Rightarrow> pool" where
  "pool_close p = p\<lparr>pl_exit := True, pl_conns := delete_all (pl_queue p) (pl_conns p), pl_queue := []\<rparr>"

text \<open>The destructor closes a pool that is not closed.\<close>

definition pool_destroy :: "pool \<Rightarrow> pool" where
  "pool_destroy p = (if \<not> pl_exit p then pool_close p else p)"

text \<open>
  The values of a configuration file; floating-point numbers are left out. \<open>js[key]\<close> of a missing key is a null value,
  which is neither a string nor a number. A file that is missing or is no JSON text makes \<open>ifs >> js\<close> throw.
\<close>

datatype json = Json_String string | Json_Number int | Json_Other

datatype config_file = Unparsable | Not_Object | Object "string \<rightharpoonup> json"

fun is_string :: "json option \<Rightarrow> bool" where
  "is_string (Some (Json_String _)) \<longleftrightarrow> True"
| "is_string _ \<longleftrightarrow> False"

fun is_number :: "json option \<Rightarrow> bool" where
  "is_number (Some (Json_Number _)) \<longleftrightarrow> True"
| "is_number _ \<longleftrightarrow> False"

fun get_string :: "json option \<Rightarrow> string" where
  "get_string (Some (Json_String cs)) = cs"
| "get_string _ = []"

fun get_number :: "json option \<Rightarrow> int" where
  "get_number (Some (Json_Number x)) = x"
| "get_number _ = 0"

definition get_size_t :: "json option \<Rightarrow> nat" where
  "get_size_t j = nat (get_number j mod 2 ^ 64)"

definition LoadConfigFile :: "config_file \<Rightarrow> pool \<Rightarrow> (bool \<times> pool) res" where
  "LoadConfigFile config p = (case config of
     Unparsable \<Rightarrow> Inl (Runtime_Error ''parse_error'')
   | Not_Object \<Rightarrow> Inr (False, p)
   | Object js \<Rightarrow>
       if \<not> (is_string (js ''ip'') \<and> is_number (js ''port'') \<and> is_string (js ''user'') \<and> is_string (js ''pwd'') \<and>
            is_string (js ''db'') \<and> is_number (js ''minSize'') \<and> is_number (js ''maxSize'') \<and>
            is_number (js ''maxIdleTime'') \<and> is_number (js ''timeout'')) then Inr (False, p)
       else Inr (True, p\<lparr>pl_ip := get_string (js ''ip''), pl_port := word_of_int (get_number (js ''port'')),
         pl_user := get_string (js ''user''), pl_password := get_string (js ''pwd''), pl_dbname := get_string (js ''db''),
         pl_minSize := get_size_t (js ''minSize''), pl_maxSize := get_size_t (js ''maxSize''),
         pl_maxIdleTime := get_size_t (js ''maxIdleTime''), pl_timeout := get_size_t (js ''timeout'')\<rparr>))"

lemma LoadConfigFile_fields:
  "LoadConfigFile config p = Inr (b, q) \<Longrightarrow> pl_queue q = pl_queue p \<and> pl_count q = pl_count p \<and>
    pl_exit q = pl_exit p \<and> pl_conns q = pl_conns p \<and> pl_used q = pl_used p"
  by (auto simp: LoadConfigFile_def split: config_file.splits if_splits)

text \<open>\<open>fresh\<close> are the addresses that \<open>new\<close> gives.\<close>

definition pool_start ::
  "config_file \<Rightarrow> nat list \<Rightarrow> (nat \<Rightarrow> nat option) \<Rightarrow> int \<Rightarrow> pool \<Rightarrow> pool res" where
  "pool_start config fresh answer now p = res_bind (LoadConfigFile config p) (\<lambda>(ok, p).
     if \<not> ok then Inr p
     else Inr ((fold (\<lambda>a. AddConnection a (answer a) now) (take (pl_minSize p) fresh) p)\<lparr>pl_exit := False\<rparr>))"

lemma start_without_config: "pool_start Not_Object fresh answer now p = Inr p"
  by (simp add: pool_start_def LoadConfigFile_def)

text \<open>A round of the producer after its wait; \<open>None\<close> ends the thread.\<close>

definition produce :: "nat \<Rightarrow> nat option \<Rightarrow> int \<Rightarrow> pool \<Rightarrow> pool option" where
  "produce a answer now p =
     (if pl_exit p then None
      else Some (if (if pl_count p < 0 then pl_count p + 2 ^ 64 else pl_count p) < int (pl_maxSize p)
                 then AddConnection a answer now p else p))"

text \<open>
  A round of the scanner after its wait. \<open>ready\<close> is the predicate at the end of the wait; the comparisons with the
  \<open>size_t\<close> members are unsigned. \<open>front\<close> of an empty queue is undefined.
\<close>

fun reap :: "nat \<Rightarrow> int \<Rightarrow> pool \<Rightarrow> pool res" where
  "reap 0 now p = Inl Diverges"
| "reap (Suc n) now p =
     (if int (pl_minSize p) < (if pl_count p < 0 then pl_count p + 2 ^ 64 else pl_count p) then
        (case pl_queue p of
           [] \<Rightarrow> Inl Undefined
         | a # q \<Rightarrow> res_bind (res_of (pl_conns p a)) (\<lambda>conn.
             if int (sz_mul (pl_maxIdleTime p) 1000) \<le> GetAliveTime now conn then
               reap n now (p\<lparr>pl_queue := q, pl_count := pl_count p - 1, pl_conns := (pl_conns p)(a := None)\<rparr>)
             else Inr p))
      else Inr p)"

definition scan :: "bool \<Rightarrow> int \<Rightarrow> pool \<Rightarrow> pool option res" where
  "scan ready now p =
     (if \<not> ready then Inr None
      else if pl_exit p then Inr None
      else res_bind (reap (length (pl_queue p) + 2) now p) (\<lambda>p. Inr (Some p)))"

section \<open>The invariant\<close>

text \<open>
  Every connection is in the queue or handed out, never both, and counted once. It holds from \<open>start\<close> on until the
  pool is closed.
\<close>

definition pool_inv :: "pool \<Rightarrow> bool" where
  "pool_inv p \<longleftrightarrow> \<not> pl_exit p \<and> distinct (pl_queue p) \<and> finite (pl_used p) \<and> set (pl_queue p) \<inter> pl_used p = {} \<and>
     dom (pl_conns p) = set (pl_queue p) \<union> pl_used p \<and>
     pl_count p = int (length (pl_queue p)) + int (card (pl_used p)) \<and>
     length (pl_queue p) + card (pl_used p) \<le> max (pl_minSize p) (pl_maxSize p)"

lemma AddConnection_inv:
  assumes "distinct (pl_queue p)" and "set (pl_queue p) \<inter> pl_used p = {}" and "finite (pl_used p)"
    and "dom (pl_conns p) = set (pl_queue p) \<union> pl_used p" and "pl_conns p a = None"
    and "pl_count p = int (length (pl_queue p)) + int (card (pl_used p))"
    and "length (pl_queue p) + card (pl_used p) < max (pl_minSize p) (pl_maxSize p)" and "\<not> pl_exit p"
  shows "pool_inv (AddConnection a answer now p)"
proof -
  have "a \<notin> set (pl_queue p) \<union> pl_used p" using assms(4,5) by (metis domIff)
  with assms show ?thesis by (simp add: pool_inv_def AddConnection_def)
qed

lemma GetConnection_inv: "pool_inv p \<Longrightarrow> pool_inv (snd (GetConnection p))"
  by (auto simp: pool_inv_def GetConnection_def split: list.split)

lemma release_inv:
  assumes "pool_inv p" and "a \<in> pl_used p"
  shows "pool_inv (release a now p)"
proof -
  have "card (pl_used p - {a}) + 1 = card (pl_used p)"
    using assms card_Suc_Diff1 [of "pl_used p" a] by (simp add: pool_inv_def)
  moreover have "pl_conns p a \<noteq> None" using assms by (auto simp: pool_inv_def domIff)
  ultimately show ?thesis using assms by (auto simp: pool_inv_def release_def Let_def domIff)
qed

lemma produce_inv:
  assumes "pool_inv p" and "pl_conns p a = None" and "produce a answer now p = Some p'"
  shows "pool_inv p'"
  using assms AddConnection_inv [of p a answer now]
  by (auto simp: produce_def pool_inv_def split: if_splits)

lemma reap_inv:
  "pool_inv p \<Longrightarrow> reap n now p = Inr p' \<Longrightarrow> pool_inv p'"
proof (induction n arbitrary: p)
  case (Suc n)
  show ?case
  proof (cases "pl_queue p")
    case Nil
    with Suc.prems show ?thesis by (auto split: if_splits)
  next
    case (Cons a q)
    let ?p = "p\<lparr>pl_queue := q, pl_count := pl_count p - 1, pl_conns := (pl_conns p)(a := None)\<rparr>"
    have "pool_inv ?p" using Suc.prems(1) Cons by (auto simp: pool_inv_def)
    with Suc.IH [of ?p] Suc.prems Cons show ?thesis by (auto split: if_splits)
  qed
qed simp

section \<open>The pool with its users\<close>

inductive pool_step :: "pool \<Rightarrow> pool \<Rightarrow> bool" where
  step_get: "pool_step p (snd (GetConnection p))"
| step_release: "a \<in> pl_used p \<Longrightarrow> pool_step p (release a now p)"
| step_produce: "pl_conns p a = None \<Longrightarrow> produce a answer now p = Some p' \<Longrightarrow> pool_step p p'"
| step_scan: "scan ready now p = Inr (Some p') \<Longrightarrow> pool_step p p'"

inductive_cases pool_stepE: "pool_step p p'"

definition started :: "pool \<Rightarrow> bool" where
  "started p \<longleftrightarrow> (\<exists>config q fresh answer now.
     LoadConfigFile config pool_zero = Inr (True, q) \<and> distinct fresh \<and> length fresh = pl_minSize q \<and>
     pool_start config fresh answer now pool_zero = Inr p)"

lemma AddConnection_fields:
  "dom (pl_conns (AddConnection a answer now p)) = insert a (dom (pl_conns p))"
  "pl_queue (AddConnection a answer now p) = pl_queue p @ [a]"
  "pl_count (AddConnection a answer now p) = pl_count p + 1"
  "pl_used (AddConnection a answer now p) = pl_used p" "pl_exit (AddConnection a answer now p) = pl_exit p"
  "pl_minSize (AddConnection a answer now p) = pl_minSize p" "pl_maxSize (AddConnection a answer now p) = pl_maxSize p"
  by (auto simp: AddConnection_def split: if_splits)

lemma AddConnections:
  assumes "distinct as" and "set as \<inter> dom (pl_conns p) = {}" and "\<not> pl_exit p" and "pl_used p = {}"
    and "dom (pl_conns p) = set (pl_queue p)" and "distinct (pl_queue p)" and "pl_count p = int (length (pl_queue p))"
    and "length (pl_queue p) + length as \<le> max (pl_minSize p) (pl_maxSize p)"
  shows "pool_inv (fold (\<lambda>a. AddConnection a (answer a) now) as p)"
  using assms
proof (induction as arbitrary: p)
  case Nil
  then show ?case by (simp add: pool_inv_def)
next
  case (Cons a as)
  have "a \<notin> set (pl_queue p)" using Cons.prems(2,5) by auto
  with Cons.prems have "pool_inv (fold (\<lambda>a. AddConnection a (answer a) now) as (AddConnection a (answer a) now p))"
    by (intro Cons.IH) (simp_all add: AddConnection_fields)
  then show ?case by simp
qed

lemma started_inv: "started p \<Longrightarrow> pool_inv p"
proof -
  assume "started p"
  then obtain config q fresh answer now where load: "LoadConfigFile config pool_zero = Inr (True, q)"
    and d: "distinct fresh" "length fresh = pl_minSize q"
    and p: "pool_start config fresh answer now pool_zero = Inr p" by (auto simp: started_def)
  have "pool_inv (fold (\<lambda>a. AddConnection a (answer a) now) fresh q)"
    using d LoadConfigFile_fields [OF load] by (intro AddConnections) (simp_all add: pool_zero_def)
  then have "pool_inv ((fold (\<lambda>a. AddConnection a (answer a) now) fresh q)\<lparr>pl_exit := False\<rparr>)"
    by (simp add: pool_inv_def)
  with p d load show "pool_inv p" by (simp add: pool_start_def)
qed

lemma pool_step_inv: "pool_inv p \<Longrightarrow> pool_step p p' \<Longrightarrow> pool_inv p'"
  by (erule pool_stepE)
    (auto simp: GetConnection_inv release_inv produce_inv scan_def simp del: reap.simps intro: reap_inv split: if_splits)

interpretation pooled: invariant_system started pool_step pool_inv
  by unfold_locales (auto intro: started_inv pool_step_inv)

text \<open>C15: The connection pool loses and duplicates no connection: after \<open>start\<close>, through every sequence of
  \<open>GetConnection\<close>, releases and rounds of the producer and the scanner, every connection is either queued once or
  handed out, \<open>connectionCount_\<close> is their number, and there are at most \<open>maxSize\<close> of them, or \<open>minSize\<close> if that
  is larger.\<close>
theorem pool_conserves_connections:
  assumes "started p" and "pool_step\<^sup>*\<^sup>* p p'"
  shows "distinct (pl_queue p') \<and> set (pl_queue p') \<inter> pl_used p' = {} \<and>
    dom (pl_conns p') = set (pl_queue p') \<union> pl_used p' \<and>
    pl_count p' = int (length (pl_queue p') + card (pl_used p')) \<and>
    pl_count p' \<le> int (max (pl_minSize p') (pl_maxSize p'))"
  using pooled.reachable_inv [OF assms] by (simp add: pool_inv_def)

definition demo_config :: config_file where
  "demo_config = Object (map_of
     [(''ip'', Json_String ''127.0.0.1''), (''port'', Json_Number 3306), (''user'', Json_String ''root''),
      (''pwd'', Json_String ''root''), (''db'', Json_String ''test''), (''minSize'', Json_Number 1),
      (''maxSize'', Json_Number 2), (''maxIdleTime'', Json_Number 60), (''timeout'', Json_Number 5)])"

definition demo_loaded :: pool where
  "demo_loaded = pool_zero\<lparr>pl_ip := ''127.0.0.1'', pl_port := 3306, pl_user := ''root'', pl_password := ''root'',
     pl_dbname := ''test'', pl_minSize := 1, pl_maxSize := 2, pl_maxIdleTime := 60, pl_timeout := 5\<rparr>"

lemma demo_load: "LoadConfigFile demo_config pool_zero = Inr (True, demo_loaded)"
  by (simp add: demo_config_def LoadConfigFile_def demo_loaded_def get_size_t_def)

definition demo_pool :: pool where
  "demo_pool = AddConnection 7 (Some 7) 0 demo_loaded"

lemma demo_started: "started demo_pool"
proof -
  have "pool_start demo_config [7] (\<lambda>a. Some a) 0 pool_zero = Inr demo_pool"
    unfolding pool_start_def demo_load
    by (simp add: demo_pool_def demo_loaded_def pool_zero_def AddConnection_def)
  moreover have "length [7 :: nat] = pl_minSize demo_loaded" by (simp add: demo_loaded_def)
  moreover have "distinct [7 :: nat]" by simp
  ultimately show ?thesis unfolding started_def using demo_load by blast
qed

theorem pool_conserves_connections_witness:
  "pl_used (snd (GetConnection demo_pool)) = {7} \<and>
   pl_count (snd (GetConnection demo_pool)) =
     int (length (pl_queue (snd (GetConnection demo_pool))) + card (pl_used (snd (GetConnection demo_pool))))"
proof -
  have "pool_step\<^sup>*\<^sup>* demo_pool (snd (GetConnection demo_pool))" by (rule r_into_rtranclp) (rule step_get)
  from pool_conserves_connections [OF demo_started this] show ?thesis
    by (simp add: demo_pool_def demo_loaded_def pool_zero_def AddConnection_def GetConnection_def)
qed

section \<open>The scanner on an empty queue\<close>

text \<open>
  The scanner takes \<open>front\<close> while more than \<open>minSize\<close> connections exist, queued or not: when all of them are handed out
  it reads the front of an empty queue.
\<close>

lemma reap_all_used:
  assumes "pool_inv p" and "pl_queue p = []" and "pl_minSize p < card (pl_used p)"
  shows "scan True now p = Inl Undefined"
  using assms by (simp add: pool_inv_def scan_def)

text \<open>With an idle connection for every one above \<open>minSize\<close> the round is safe, and what is left is at least \<open>minSize\<close>.\<close>

lemma reap_safe:
  assumes "pool_inv p" and "card (pl_used p) \<le> pl_minSize p" and "length (pl_queue p) < n"
  shows "\<exists>p'. reap n now p = Inr p' \<and> pool_inv p' \<and> pl_used p' = pl_used p \<and>
    int (min (pl_minSize p) (length (pl_queue p) + card (pl_used p))) \<le> pl_count p'"
  using assms
proof (induction n arbitrary: p)
  case (Suc n)
  have c: "pl_count p = int (length (pl_queue p)) + int (card (pl_used p))" using Suc.prems(1) by (simp add: pool_inv_def)
  show ?case
  proof (cases "int (pl_minSize p) < pl_count p")
    case False
    with Suc.prems(1) c show ?thesis by auto
  next
    case True
    then obtain a q where q: "pl_queue p = a # q" using c Suc.prems(2) by (cases "pl_queue p") auto
    let ?p = "p\<lparr>pl_queue := q, pl_count := pl_count p - 1, pl_conns := (pl_conns p)(a := None)\<rparr>"
    have inv: "pool_inv ?p" using Suc.prems(1) q by (auto simp: pool_inv_def)
    obtain conn where conn: "pl_conns p a = Some conn" using Suc.prems(1) q by (auto simp: pool_inv_def)
    have nn: "\<not> pl_count p < 0" using c by simp
    obtain p' where p': "reap n now ?p = Inr p'" "pool_inv p'" "pl_used p' = pl_used p"
      "int (min (pl_minSize p) (length q + card (pl_used p))) \<le> pl_count p'"
      using Suc.IH [OF inv] Suc.prems(2,3) q by auto
    show ?thesis
    proof (cases "int (sz_mul (pl_maxIdleTime p) 1000) \<le> GetAliveTime now conn")
      case True
      moreover have "int (min (pl_minSize p) (length (pl_queue p) + card (pl_used p))) \<le> pl_count p'"
        using p'(4) q \<open>int (pl_minSize p) < pl_count p\<close> c by simp
      ultimately show ?thesis using p' q conn nn \<open>int (pl_minSize p) < pl_count p\<close> by simp
    next
      case False
      with Suc.prems(1) q conn nn c \<open>int (pl_minSize p) < pl_count p\<close> show ?thesis by simp
    qed
  qed
qed simp

text \<open>C32: A round of the scanner on a pool in use: it is safe and keeps the invariant and \<open>minSize\<close> connections when at
  most \<open>minSize\<close> are handed out; when more than \<open>minSize\<close> are handed out and none is idle, it reads the front of an
  empty queue.\<close>
theorem scanner_round:
  assumes "started p" and "pool_step\<^sup>*\<^sup>* p p'"
  shows "(card (pl_used p') \<le> pl_minSize p' \<longrightarrow> (\<exists>p''. scan True now p' = Inr (Some p'') \<and> pool_inv p'' \<and>
      int (min (pl_minSize p') (length (pl_queue p') + card (pl_used p'))) \<le> pl_count p'')) \<and>
    (pl_minSize p' < card (pl_used p') \<and> pl_queue p' = [] \<longrightarrow> scan True now p' = Inl Undefined)"
proof -
  have inv: "pool_inv p'" using pooled.reachable_inv [OF assms] .
  then have "\<not> pl_exit p'" by (simp add: pool_inv_def)
  then have "scan True now p' = res_bind (reap (length (pl_queue p') + 2) now p') (\<lambda>p. Inr (Some p))"
    by (simp add: scan_def del: reap.simps)
  with reap_safe [OF inv, of "length (pl_queue p') + 2" now] reap_all_used [OF inv]
  show ?thesis by (auto simp del: reap.simps)
qed

theorem scanner_round_witness:
  "\<exists>p. pl_queue p = [] \<and> pl_used p = {7, 8} \<and> scan True 0 p = Inl Undefined"
proof -
  let ?p1 = "snd (GetConnection demo_pool)"
  let ?p2 = "AddConnection 8 (Some 8) 0 ?p1"
  let ?p3 = "snd (GetConnection ?p2)"
  have d: "pl_queue demo_pool = [7]" "pl_used demo_pool = {}" "pl_minSize demo_pool = 1" "pl_maxSize demo_pool = 2"
    "pl_count demo_pool = 1" "\<not> pl_exit demo_pool" "pl_conns demo_pool 8 = None"
    by (simp_all add: demo_pool_def demo_loaded_def pool_zero_def AddConnection_def)
  have "pool_step demo_pool ?p1" by (rule step_get)
  moreover have "pool_step ?p1 ?p2"
    by (rule step_produce [where a = 8 and answer = "Some 8" and now = 0])
      (use d in \<open>simp_all add: GetConnection_def produce_def\<close>)
  moreover have "pool_step ?p2 ?p3" by (rule step_get)
  ultimately have "pool_step\<^sup>*\<^sup>* demo_pool ?p3" by (meson rtranclp.rtrancl_into_rtrancl r_into_rtranclp)
  from scanner_round [OF demo_started this, of 0] d have "scan True 0 ?p3 = Inl Undefined" "pl_queue ?p3 = []" "pl_used ?p3 = {7, 8}"
    by (auto simp: GetConnection_def AddConnection_def Let_def)
  then show ?thesis by blast
qed

text \<open>\<open>close\<close> leaves \<open>connectionCount_\<close> as it is: a pool started again believes it has the old connections too.\<close>

lemma close_keeps_count: "pl_count (pool_close p) = pl_count p \<and> pl_queue (pool_close p) = []"
  by (simp add: pool_close_def)

text \<open>A release after \<open>close\<close> deletes the connection instead of queueing it.\<close>

lemma release_after_close:
  "pl_exit p \<Longrightarrow> pl_conns (release a now p) a = None \<and> pl_queue (release a now p) = pl_queue p"
  by (simp add: release_def)

lemma dom_delete_all: "dom (delete_all q m) = dom m - set q"
  by (induction q arbitrary: m) auto

lemma close_frees_idle: "pool_inv p \<Longrightarrow> dom (pl_conns (pool_close p)) = pl_used p"
proof -
  assume inv: "pool_inv p"
  have "dom (pl_conns (pool_close p)) = dom (pl_conns p) - set (pl_queue p)"
    by (simp add: pool_close_def dom_delete_all)
  with inv show ?thesis unfolding pool_inv_def by blast
qed

section \<open>Level names of the logger\<close>

datatype LogLevel = NONE | DEBUG | INFO | WARN | ERROR | FATAL

definition ToString :: "LogLevel \<Rightarrow> string" where
  "ToString level = (case level of DEBUG \<Rightarrow> ''DEBUG'' | INFO \<Rightarrow> ''INFO'' | WARN \<Rightarrow> ''WARN'' | ERROR \<Rightarrow> ''ERROR''
     | FATAL \<Rightarrow> ''FATAL'' | _ \<Rightarrow> ''NONE'')"

definition FromString :: "string \<Rightarrow> LogLevel" where
  "FromString str = (if str = ''DEBUG'' then DEBUG else if str = ''INFO'' then INFO else if str = ''WARN'' then WARN
     else if str = ''ERROR'' then ERROR else if str = ''FATAL'' then FATAL else NONE)"

lemma FromString_ToString: "FromString (ToString level) = level"
  by (cases level) (simp_all add: ToString_def FromString_def)

record log_event =
  ev_level :: LogLevel
  ev_fileName :: string
  ev_line :: "32 word"
  ev_time :: string
  ev_msg :: string
  ev_threadId :: string

text \<open>\<open>LogFormat\<close>: the formatted text is measured and then printed into a buffer with its null character.\<close>

definition LogFormat :: "string \<Rightarrow> string" where
  "LogFormat text = (let size = length text + 1 in snprintf size text)"

definition LogEvent_new :: "LogLevel \<Rightarrow> string \<Rightarrow> 32 word \<Rightarrow> string \<Rightarrow> string \<Rightarrow> string \<Rightarrow> log_event" where
  "LogEvent_new level fileName line time text threadId =
     \<lparr>ev_level = level, ev_fileName = fileName, ev_line = line, ev_time = time, ev_msg = LogFormat text,
      ev_threadId = threadId\<rparr>"

definition log_fields :: "log_event \<Rightarrow> string" where
  "log_fields e = ev_time e @ '' '' @ ToString (ev_level e) @ '' '' @ ev_threadId e @ '' '' @ ev_fileName e @ '' '' @
     dec (unat (ev_line e)) @ '' '' @ ev_msg e"

definition stdout_log :: "log_event \<Rightarrow> string" where
  "stdout_log e = log_fields e @ ''\<newline>''"

definition file_log :: "string option \<Rightarrow> log_event \<Rightarrow> string option" where
  "file_log file e = map_option (\<lambda>out. out @ log_fields e @ '' '' @ ''\<newline>'') file"

lemma LogFormat_text: "LogFormat text = text"
  by (simp add: LogFormat_def snprintf_def)

text \<open>
  \<open>FileLogAppender\<close> over the contents of files: the constructor opens its file to append to it, when the system lets it
  (\<open>can_open\<close>), and the destructor closes it. \<open>FileLog\<close> makes one.
\<close>

type_synonym files = "string \<rightharpoonup> string"

record file_appender =
  fa_fileName :: string
  fa_is_open :: bool

definition FileLogAppender_new :: "bool \<Rightarrow> string \<Rightarrow> files \<Rightarrow> file_appender \<times> files" where
  "FileLogAppender_new can_open fileName fs =
     (if can_open then (\<lparr>fa_fileName = fileName, fa_is_open = True\<rparr>,
        fs(fileName \<mapsto> (case fs fileName of None \<Rightarrow> [] | Some out \<Rightarrow> out)))
      else (\<lparr>fa_fileName = fileName, fa_is_open = False\<rparr>, fs))"

definition FileLogAppender_destroy :: "file_appender \<Rightarrow> file_appender" where
  "FileLogAppender_destroy a = (if fa_is_open a then a\<lparr>fa_is_open := False\<rparr> else a)"

definition FileLogAppender_Log :: "file_appender \<Rightarrow> log_event \<Rightarrow> files \<Rightarrow> files" where
  "FileLogAppender_Log a e fs =
     (if fa_is_open a then fs(fa_fileName a := file_log (fs (fa_fileName a)) e) else fs)"

definition FileLog :: "bool \<Rightarrow> string \<Rightarrow> files \<Rightarrow> file_appender \<times> files" where
  "FileLog can_open path fs = FileLogAppender_new can_open path fs"

text \<open>
  What was in the file stays, and the lines of the events follow in their order, over any number of appenders; one that
  could not open its file, or that was destroyed, drops its events silently.
\<close>

lemma fold_Log:
  "fa_is_open a \<Longrightarrow> fs (fa_fileName a) = Some out \<Longrightarrow>
    fold (FileLogAppender_Log a) es fs = fs(fa_fileName a \<mapsto> out @ concat (map (\<lambda>e. log_fields e @ '' '' @ ''\<newline>'') es))"
proof (induction es arbitrary: fs out)
  case (Cons e es)
  have "FileLogAppender_Log a e fs = fs(fa_fileName a \<mapsto> out @ log_fields e @ '' '' @ ''\<newline>'')"
    using Cons.prems by (simp add: FileLogAppender_Log_def file_log_def)
  moreover have "fold (FileLogAppender_Log a) es (fs(fa_fileName a \<mapsto> out @ log_fields e @ '' '' @ ''\<newline>'')) =
      fs(fa_fileName a \<mapsto> out @ log_fields e @ '' '' @ ''\<newline>'', fa_fileName a \<mapsto>
        (out @ log_fields e @ '' '' @ ''\<newline>'') @ concat (map (\<lambda>e. log_fields e @ '' '' @ ''\<newline>'') es))"
    by (rule Cons.IH [OF Cons.prems(1)]) simp
  ultimately show ?case by (simp only: fold.simps comp_def list.map concat.simps append_assoc fun_upd_upd)
qed (simp add: fun_upd_idem)

lemma FileLog_appends:
  assumes "FileLog True path fs = (a, fs')"
  shows "fold (FileLogAppender_Log a) es fs' path =
    Some ((case fs path of None \<Rightarrow> [] | Some out \<Rightarrow> out) @ concat (map (\<lambda>e. log_fields e @ '' '' @ ''\<newline>'') es))"
  using assms by (auto simp: FileLog_def FileLogAppender_new_def fold_Log)

lemma closed_appender_drops:
  "FileLog False path fs = (a, fs') \<Longrightarrow> FileLogAppender_Log a e fs' = fs"
  "FileLogAppender_Log (FileLogAppender_destroy a) e fs = fs"
  by (auto simp: FileLog_def FileLogAppender_new_def FileLogAppender_Log_def FileLogAppender_destroy_def)

end
