(* ===== verification/Timer_Queue.thy ===== *)
theory Timer_Queue
  imports Prelude "HOL-Library.AList"
begin

text \<open>
  Timer-mgkl: the locked \<open>hash_map\<close> of include/hash_map.h and the timer of include/timer.h. Every operation holds its
  mutex. The header spells the type of the node in \<open>run_after\<close> \<open>TimeNode\<close>; it is read as \<open>TimerNode\<close>. Fields that no
  initialiser sets are \<open>None\<close>, and reading one is undefined. Times are microseconds; the callbacks, whose execution is
  commented out, do not appear.
\<close>

section \<open>\<open>hash_map\<close>\<close>

type_synonym ('k, 'v) hash_map = "('k \<times> 'v) list"

definition hm_emplace :: "'k \<Rightarrow> 'v \<Rightarrow> ('k, 'v) hash_map \<Rightarrow> ('k, 'v) hash_map" where
  "hm_emplace k v m = AList.update k v m"

definition hm_erase :: "'k \<Rightarrow> ('k, 'v) hash_map \<Rightarrow> ('k, 'v) hash_map" where
  "hm_erase k m = (if map_of m k \<noteq> None then AList.delete k m else m)"

text \<open>\<open>get\<close> through a reference: the flag and the new value of the variable.\<close>

definition hm_get :: "'k \<Rightarrow> 'v \<Rightarrow> ('k, 'v) hash_map \<Rightarrow> bool \<times> 'v" where
  "hm_get k val m = (case map_of m k of Some v \<Rightarrow> (True, v) | None \<Rightarrow> (False, val))"

definition hm_exist :: "'k \<Rightarrow> ('k, 'v) hash_map \<Rightarrow> bool" where
  "hm_exist k m \<longleftrightarrow> map_of m k \<noteq> None"

definition hm_size :: "('k, 'v) hash_map \<Rightarrow> nat" where
  "hm_size m = length m"

lemma exist_emplace [simp]: "hm_exist k (hm_emplace k' v m) \<longleftrightarrow> k = k' \<or> hm_exist k m"
  by (simp add: hm_exist_def hm_emplace_def update_conv')

lemma exist_erase [simp]: "hm_exist k (hm_erase k' m) \<longleftrightarrow> k \<noteq> k' \<and> hm_exist k m"
  by (auto simp: hm_exist_def hm_erase_def delete_conv')

lemma get_emplace: "hm_get k x (hm_emplace k' v m) = (if k = k' then (True, v) else hm_get k x m)"
  by (simp add: hm_get_def hm_emplace_def update_conv')

lemma size_is_card: "distinct (map fst m) \<Longrightarrow> hm_size m = card (dom (map_of m))"
  by (metis distinct_card dom_map_of_conv_image_fst hm_size_def length_map list.set_map)

lemma keys_distinct:
  "distinct (map fst m) \<Longrightarrow> distinct (map fst (hm_emplace k v m)) \<and> distinct (map fst (hm_erase k m))"
  by (simp add: hm_emplace_def hm_erase_def distinct_update distinct_delete)

section \<open>The timer\<close>

record timer_node =
  tn_tm_point :: int
  tn_id :: "32 word"
  tn_repeated_num :: "int option"
  tn_is_period :: "bool option"
  tn_is_repeated :: "bool option"
  tn_period :: int

datatype id_state = Runing

record timer =
  tm_queue :: "timer_node list"
  tm_runing :: bool
  tm_id :: "32 word"
  tm_id_state_map :: "(32 word, id_state) hash_map"

definition Timer_new :: timer where
  "Timer_new = \<lparr>tm_queue = [], tm_runing = True, tm_id = 0, tm_id_state_map = []\<rparr>"

text \<open>
  The destructor joins the ticking thread before it notifies it: \<open>asleep\<close> says that the thread waits for a first node,
  and then nobody wakes it.
\<close>

definition Timer_destroy :: "bool \<Rightarrow> bool \<Rightarrow> timer \<Rightarrow> timer res" where
  "Timer_destroy joinable asleep t = (let t = t\<lparr>tm_runing := False\<rparr> in
     if joinable \<and> asleep \<and> tm_queue t = [] then Inl Diverges else Inr t)"

lemma destroy_empty_hangs: "Timer_destroy True True Timer_new = Inl Diverges"
  by (simp add: Timer_destroy_def Timer_new_def)

definition timer_size :: "timer \<Rightarrow> nat" where
  "timer_size t = length (tm_queue t)"

definition run_after :: "int \<Rightarrow> bool \<Rightarrow> int \<Rightarrow> timer \<Rightarrow> 32 word \<times> timer" where
  "run_after ms_time is_period now t = (let
     s = \<lparr>tn_tm_point = now + 1000 * ms_time, tn_id = tm_id t, tn_repeated_num = None, tn_is_period = Some is_period,
          tn_is_repeated = None, tn_period = 1000 * ms_time\<rparr>
   in (tm_id t, t\<lparr>tm_id := tm_id t + 1, tm_id_state_map := hm_emplace (tm_id t) Runing (tm_id_state_map t),
                  tm_queue := tm_queue t @ [s]\<rparr>))"

text \<open>\<open>run_repeated\<close> takes its time in microseconds and leaves \<open>tn_is_period\<close> unset.\<close>

definition run_repeated :: "int \<Rightarrow> int \<Rightarrow> int \<Rightarrow> timer \<Rightarrow> 32 word \<times> timer" where
  "run_repeated ms_time repeated_num now t = (let
     s = \<lparr>tn_tm_point = now + ms_time, tn_id = tm_id t, tn_repeated_num = Some repeated_num, tn_is_period = None,
          tn_is_repeated = Some True, tn_period = ms_time\<rparr>
   in (tm_id t, t\<lparr>tm_id := tm_id t + 1, tm_id_state_map := hm_emplace (tm_id t) Runing (tm_id_state_map t),
                  tm_queue := tm_queue t @ [s]\<rparr>))"

definition timer_cancel :: "32 word \<Rightarrow> timer \<Rightarrow> timer" where
  "timer_cancel tid t = t\<lparr>tm_id_state_map := hm_erase tid (tm_id_state_map t)\<rparr>"

text \<open>
  The rest of a round of \<open>run_local\<close> once the node \<open>s\<close> is due: it leaves the queue and comes back with a new time
  unless it was cancelled or has no repetitions left.
\<close>

definition requeue :: "int \<Rightarrow> timer_node \<Rightarrow> timer \<Rightarrow> timer res" where
  "requeue now s t =
     res_bind (res_of (tn_is_period s)) (\<lambda>period.
       if period then Inr (t\<lparr>tm_queue := tm_queue t @ [s\<lparr>tn_tm_point := now + tn_period s\<rparr>]\<rparr>)
       else res_bind (res_of (tn_is_repeated s)) (\<lambda>repeated.
         if \<not> repeated then Inr t
         else res_bind (res_of (tn_repeated_num s)) (\<lambda>k.
           if 0 < k then
             Inr (t\<lparr>tm_queue := tm_queue t @ [s\<lparr>tn_tm_point := now + tn_period s, tn_repeated_num := Some (k - 1)\<rparr>]\<rparr>)
           else Inr t)))"

text \<open>
  A round of \<open>run_local\<close>. \<open>pick\<close> is the \<open>top\<close> of the priority queue; \<open>duration_cast\<close> truncates to whole milliseconds.
  \<open>None\<close> says that the thread waits.
\<close>

definition timer_round :: "(timer_node list \<Rightarrow> timer_node) \<Rightarrow> int \<Rightarrow> int \<Rightarrow> timer \<Rightarrow> timer option res" where
  "timer_round pick now now' t =
     (if tm_queue t = [] then Inr None
      else let s = pick (tm_queue t) in
        if 1000 \<le> tn_tm_point s - now then Inr None
        else let t = t\<lparr>tm_queue := remove1 s (tm_queue t)\<rparr> in
          if \<not> hm_exist (tn_id s) (tm_id_state_map t) then Inr (Some t)
          else res_bind (requeue now' s t) (\<lambda>t. Inr (Some t)))"

text \<open>What \<open>top\<close> of the queue promises with the comparison of the code: an element with the least time.\<close>

definition earliest :: "(timer_node list \<Rightarrow> timer_node) \<Rightarrow> bool" where
  "earliest pick \<longleftrightarrow> (\<forall>q. q \<noteq> [] \<longrightarrow> pick q \<in> set q \<and> (\<forall>s \<in> set q. tn_tm_point (pick q) \<le> tn_tm_point s))"

lemma round_due:
  assumes "earliest pick" and "tm_queue t \<noteq> []" and "tn_tm_point (pick (tm_queue t)) - now < 1000"
    and "s = pick (tm_queue t)"
  shows "timer_round pick now now' t =
    (if \<not> hm_exist (tn_id s) (tm_id_state_map t) then Inr (Some (t\<lparr>tm_queue := remove1 s (tm_queue t)\<rparr>))
     else res_bind (requeue now' s (t\<lparr>tm_queue := remove1 s (tm_queue t)\<rparr>)) (\<lambda>t. Inr (Some t)))"
  using assms by (simp add: timer_round_def Let_def)

text \<open>Due timers: a round on a due node drops it when it was cancelled, and puts it back one period later when it
  is periodic; a node of \<open>run_after\<close> that is not periodic, or of \<open>run_repeated\<close>, makes the round read a field that was
  never set.\<close>

lemma due_timer_outcome:
  assumes "earliest pick" and "tm_queue t \<noteq> []" and "tn_tm_point (pick (tm_queue t)) - now < 1000"
    and "s = pick (tm_queue t)"
  shows "(\<not> hm_exist (tn_id s) (tm_id_state_map t) \<longrightarrow>
      timer_round pick now now' t = Inr (Some (t\<lparr>tm_queue := remove1 s (tm_queue t)\<rparr>))) \<and>
    (hm_exist (tn_id s) (tm_id_state_map t) \<and> tn_is_period s = Some True \<longrightarrow>
      timer_round pick now now' t = Inr (Some (t\<lparr>tm_queue := remove1 s (tm_queue t) @ [s\<lparr>tn_tm_point := now' + tn_period s\<rparr>]\<rparr>))) \<and>
    (hm_exist (tn_id s) (tm_id_state_map t) \<and>
      (\<exists>t0 ms at num. s = last (tm_queue (snd (run_after ms False at t0))) \<or>
         s = last (tm_queue (snd (run_repeated ms num at t0)))) \<longrightarrow>
      timer_round pick now now' t = Inl Undefined)"
  using round_due [OF assms, of now']
  by (auto simp: requeue_def run_after_def run_repeated_def Let_def)

definition first_due :: "timer_node list \<Rightarrow> timer_node" where
  "first_due q = (let m = Min (tn_tm_point ` set q) in hd (filter (\<lambda>s. tn_tm_point s = m) q))"

lemma earliest_first_due: "earliest first_due"
  unfolding earliest_def
proof (intro allI impI)
  fix q :: "timer_node list"
  assume q: "q \<noteq> []"
  let ?m = "Min (tn_tm_point ` set q)" and ?f = "filter (\<lambda>s. tn_tm_point s = Min (tn_tm_point ` set q)) q"
  have "?m \<in> tn_tm_point ` set q" using q by (intro Min_in) simp_all
  then have "?f \<noteq> []" by (auto simp: filter_empty_conv)
  then have "first_due q \<in> set ?f" unfolding first_due_def Let_def by (rule hd_in_set)
  moreover have "?m \<le> tn_tm_point s" if "s \<in> set q" for s using that by simp
  ultimately show "first_due q \<in> set q \<and> (\<forall>s \<in> set q. tn_tm_point (first_due q) \<le> tn_tm_point s)" by auto
qed

lemma due_timer_outcome_witness:
  "timer_round first_due 5000 5001 (snd (run_after 2 True 0 Timer_new)) \<noteq> Inl Undefined \<and>
   timer_round first_due 5000 5001 (snd (run_repeated 2 3 0 Timer_new)) = Inl Undefined"
proof -
  let ?p = "snd (run_after 2 True 0 Timer_new)" and ?r = "snd (run_repeated 2 3 0 Timer_new)"
  have p: "tm_queue ?p \<noteq> []" "tn_tm_point (first_due (tm_queue ?p)) - 5000 < 1000"
    "hm_exist (tn_id (first_due (tm_queue ?p))) (tm_id_state_map ?p)" "tn_is_period (first_due (tm_queue ?p)) = Some True"
    by (simp_all add: run_after_def Timer_new_def first_due_def)
  have r: "tm_queue ?r \<noteq> []" "tn_tm_point (first_due (tm_queue ?r)) - 5000 < 1000"
    "hm_exist (tn_id (first_due (tm_queue ?r))) (tm_id_state_map ?r)"
    "first_due (tm_queue ?r) = last (tm_queue (snd (run_repeated 2 3 0 Timer_new)))"
    by (simp_all add: run_repeated_def Timer_new_def first_due_def)
  from due_timer_outcome [OF earliest_first_due p(1,2) refl, of 5001] p(3,4)
    due_timer_outcome [OF earliest_first_due r(1,2) refl, of 5001] r(3,4)
  show ?thesis by (metis Inl_Inr_False)
qed

text \<open>A cancelled task stays in the queue until it is due; it is not in the map of states any more.\<close>

lemma cancel_keeps_node:
  "tm_queue (timer_cancel tid t) = tm_queue t \<and> \<not> hm_exist tid (tm_id_state_map (timer_cancel tid t))"
  by (simp add: timer_cancel_def)

text \<open>Periodic tasks alone never fail, and a round keeps their number unless the due one was cancelled.\<close>

definition all_periodic :: "timer \<Rightarrow> bool" where
  "all_periodic t \<longleftrightarrow> list_all (\<lambda>s. tn_is_period s = Some True) (tm_queue t)"

lemma periodic_rounds:
  assumes "earliest pick" and "all_periodic t"
  shows "\<exists>r. timer_round pick now now' t = Inr r \<and>
    (\<forall>t'. r = Some t' \<longrightarrow> all_periodic t' \<and> (timer_size t' = timer_size t \<or> timer_size t' = timer_size t - 1))"
proof (cases "tm_queue t = [] \<or> 1000 \<le> tn_tm_point (pick (tm_queue t)) - now")
  case True
  then show ?thesis by (auto simp: timer_round_def)
next
  case False
  define s where "s = pick (tm_queue t)"
  have s: "s \<in> set (tm_queue t)" using False assms(1) by (simp add: earliest_def s_def)
  then have p: "tn_is_period s = Some True" using assms(2) by (simp add: all_periodic_def list_all_iff)
  have rest: "list_all (\<lambda>s. tn_is_period s = Some True) (remove1 s (tm_queue t))"
    using assms(2) set_remove1_subset [of s "tm_queue t"] by (auto simp: all_periodic_def list_all_iff)
  have "0 < length (tm_queue t)" using s by auto
  then show ?thesis using round_due [OF assms(1) _ _ s_def, of now now'] False p rest s
    by (auto simp: requeue_def all_periodic_def timer_size_def length_remove1 s_def [symmetric])
qed

end
