(* ===== verification/Day12_ThreadPool.thy ===== *)
theory Day12_ThreadPool
  imports Prelude
begin

text \<open>
  The thread pool of 30dayMakeCppServer/day12 (src/ThreadPool.h, src/ThreadPool.cpp): workers that wait under the
  mutex for a task or the end, as a step relation over the queue, the flag and the state of every worker. The constructor
  does not initialise \<open>stop\<close>; its first value is an argument.
\<close>

section \<open>State and operations\<close>

datatype 'a worker = Waiting | Busy 'a | Exited

record 'a thread_pool =
  tp_tasks :: "'a list"
  tp_stop :: bool
  tp_threads :: "'a worker list"

definition ThreadPool_new :: "bool \<Rightarrow> nat \<Rightarrow> 'a thread_pool" where
  "ThreadPool_new garbage n = \<lparr>tp_tasks = [], tp_stop = garbage, tp_threads = replicate n Waiting\<rparr>"

definition pool_add :: "'a \<Rightarrow> 'a thread_pool \<Rightarrow> 'a thread_pool res" where
  "pool_add task p =
     (if tp_stop p then Inl (Runtime_Error ''ThreadPool already stoped, can't add task any more!'')
      else Inr (p\<lparr>tp_tasks := tp_tasks p @ [task]\<rparr>))"

text \<open>The destructor sets \<open>stop\<close>, and then joins the workers.\<close>

definition pool_stop :: "'a thread_pool \<Rightarrow> 'a thread_pool" where
  "pool_stop p = p\<lparr>tp_stop := True\<rparr>"

definition joined :: "'a thread_pool \<Rightarrow> bool" where
  "joined p \<longleftrightarrow> list_all (\<lambda>w. w = Exited) (tp_threads p)"

text \<open>
  A worker whose wait is over: it returns, or takes the first task. \<open>None\<close> while the predicate of the wait is false.
\<close>

definition worker_wake :: "nat \<Rightarrow> 'a thread_pool \<Rightarrow> 'a thread_pool option" where
  "worker_wake i p =
     (if \<not> (tp_stop p \<or> tp_tasks p \<noteq> []) then None
      else if tp_stop p \<and> tp_tasks p = [] then Some (p\<lparr>tp_threads := (tp_threads p)[i := Exited]\<rparr>)
      else Some (p\<lparr>tp_threads := (tp_threads p)[i := Busy (hd (tp_tasks p))], tp_tasks := tl (tp_tasks p)\<rparr>))"

text \<open>The states of a run, with the tasks added, taken and finished so far.\<close>

record 'a pool_run =
  pr_pool :: "'a thread_pool"
  pr_added :: "'a list"
  pr_taken :: "'a list"
  pr_done :: "'a multiset"

inductive pool_moves :: "'a pool_run \<Rightarrow> 'a pool_run \<Rightarrow> bool" where
  move_add: "pool_add t (pr_pool r) = Inr p \<Longrightarrow>
    pool_moves r (r\<lparr>pr_pool := p, pr_added := pr_added r @ [t]\<rparr>)"
| move_stop: "pool_moves r (r\<lparr>pr_pool := pool_stop (pr_pool r)\<rparr>)"
| move_wake: "i < length (tp_threads (pr_pool r)) \<Longrightarrow> tp_threads (pr_pool r) ! i = Waiting \<Longrightarrow>
    worker_wake i (pr_pool r) = Some p \<Longrightarrow>
    pool_moves r (r\<lparr>pr_pool := p,
      pr_taken := (case tp_threads p ! i of Busy t \<Rightarrow> pr_taken r @ [t] | _ \<Rightarrow> pr_taken r)\<rparr>)"
| move_finish: "i < length (tp_threads (pr_pool r)) \<Longrightarrow> tp_threads (pr_pool r) ! i = Busy t \<Longrightarrow>
    pool_moves r (r\<lparr>pr_pool := (pr_pool r)\<lparr>tp_threads := (tp_threads (pr_pool r))[i := Waiting]\<rparr>,
      pr_done := add_mset t (pr_done r)\<rparr>)"

inductive_cases pool_movesE: "pool_moves r r'"

definition pool_begin :: "nat \<Rightarrow> 'a pool_run \<Rightarrow> bool" where
  "pool_begin n r \<longleftrightarrow> r = \<lparr>pr_pool = ThreadPool_new False n, pr_added = [], pr_taken = [], pr_done = {#}\<rparr>"

section \<open>The invariant\<close>

fun task_of :: "'a worker \<Rightarrow> 'a multiset" where
  "task_of (Busy t) = {#t#}"
| "task_of _ = {#}"

definition busy :: "'a worker list \<Rightarrow> 'a multiset" where
  "busy ws = sum_list (map task_of ws)"

lemma busy_update: "i < length ws \<Longrightarrow> busy (ws[i := w]) + task_of (ws ! i) = busy ws + task_of w"
proof (induction ws arbitrary: i)
  case (Cons v ws)
  then show ?case by (cases i) (auto simp: busy_def ac_simps)
qed simp

definition run_inv :: "nat \<Rightarrow> 'a pool_run \<Rightarrow> bool" where
  "run_inv n r \<longleftrightarrow> length (tp_threads (pr_pool r)) = n \<and> pr_added r = pr_taken r @ tp_tasks (pr_pool r) \<and>
     mset (pr_taken r) = pr_done r + busy (tp_threads (pr_pool r)) \<and>
     (Exited \<in> set (tp_threads (pr_pool r)) \<longrightarrow> tp_stop (pr_pool r) \<and> tp_tasks (pr_pool r) = [])"

lemma begin_inv: "pool_begin n r \<Longrightarrow> run_inv n r"
  by (induction n arbitrary: r) (simp_all add: pool_begin_def run_inv_def ThreadPool_new_def busy_def)

lemma wake_inv:
  assumes "run_inv n r" and "i < length (tp_threads (pr_pool r))" and "tp_threads (pr_pool r) ! i = Waiting"
    and "worker_wake i (pr_pool r) = Some p"
  shows "run_inv n (r\<lparr>pr_pool := p,
      pr_taken := (case tp_threads p ! i of Busy t \<Rightarrow> pr_taken r @ [t] | _ \<Rightarrow> pr_taken r)\<rparr>)"
proof (cases "tp_tasks (pr_pool r)")
  case Nil
  then have p: "p = (pr_pool r)\<lparr>tp_threads := (tp_threads (pr_pool r))[i := Exited]\<rparr>" "tp_stop (pr_pool r)"
    using assms(4) by (auto simp: worker_wake_def split: if_splits)
  moreover have "busy ((tp_threads (pr_pool r))[i := Exited]) = busy (tp_threads (pr_pool r))"
    using busy_update [OF assms(2), of Exited] assms(3) by simp
  ultimately show ?thesis using assms(1,2) Nil by (simp add: run_inv_def)
next
  case (Cons t ts)
  then have p: "p = (pr_pool r)\<lparr>tp_threads := (tp_threads (pr_pool r))[i := Busy t], tp_tasks := ts\<rparr>"
    using assms(4) by (simp add: worker_wake_def)
  moreover have "busy ((tp_threads (pr_pool r))[i := Busy t]) = add_mset t (busy (tp_threads (pr_pool r)))"
    using busy_update [OF assms(2), of "Busy t"] assms(3) by simp
  moreover have "Exited \<notin> set ((tp_threads (pr_pool r))[i := Busy t])"
    using assms(1) Cons set_update_subset_insert [of "tp_threads (pr_pool r)" i "Busy t"] by (auto simp: run_inv_def)
  ultimately show ?thesis using assms(1,2) Cons by (simp add: run_inv_def)
qed

lemma finish_inv:
  assumes "run_inv n r" and "i < length (tp_threads (pr_pool r))" and "tp_threads (pr_pool r) ! i = Busy t"
  shows "run_inv n (r\<lparr>pr_pool := (pr_pool r)\<lparr>tp_threads := (tp_threads (pr_pool r))[i := Waiting]\<rparr>,
      pr_done := add_mset t (pr_done r)\<rparr>)"
proof -
  have "add_mset t (busy ((tp_threads (pr_pool r))[i := Waiting])) = busy (tp_threads (pr_pool r))"
    using busy_update [OF assms(2), of Waiting] assms(3) by simp
  moreover have "Exited \<in> set ((tp_threads (pr_pool r))[i := Waiting]) \<Longrightarrow> Exited \<in> set (tp_threads (pr_pool r))"
    using set_update_subset_insert [of "tp_threads (pr_pool r)" i Waiting] by auto
  ultimately show ?thesis using assms(1,2) by (auto simp: run_inv_def)
qed

lemma add_inv: "run_inv n r \<Longrightarrow> pool_add t (pr_pool r) = Inr p \<Longrightarrow>
    run_inv n (r\<lparr>pr_pool := p, pr_added := pr_added r @ [t]\<rparr>)"
  by (auto simp: run_inv_def pool_add_def split: if_splits)

lemma stop_inv: "run_inv n r \<Longrightarrow> run_inv n (r\<lparr>pr_pool := pool_stop (pr_pool r)\<rparr>)"
  by (auto simp: run_inv_def pool_stop_def)

lemma moves_inv: "run_inv n r \<Longrightarrow> pool_moves r r' \<Longrightarrow> run_inv n r'"
proof (erule pool_movesE)
  fix i p
  assume "run_inv n r" "r' = r\<lparr>pr_pool := p,
      pr_taken := (case tp_threads p ! i of Busy t \<Rightarrow> pr_taken r @ [t] | _ \<Rightarrow> pr_taken r)\<rparr>"
    "i < length (tp_threads (pr_pool r))" "tp_threads (pr_pool r) ! i = Waiting" "worker_wake i (pr_pool r) = Some p"
  then show "run_inv n r'" using wake_inv by blast
qed (simp_all add: add_inv stop_inv finish_inv)

interpretation workers: invariant_system "pool_begin n" pool_moves "run_inv n"
  by unfold_locales (auto intro: begin_inv moves_inv)

text \<open>C14: The day12 thread pool runs every task: from a pool whose \<open>stop\<close> starts as \<open>false\<close>, through every
  interleaving of \<open>add\<close>, the workers and the destructor, tasks are taken in the order they were added, and once all
  workers have been joined, if there is one, every task that was added has been run exactly once.\<close>
theorem thread_pool_runs_every_task:
  assumes "pool_begin n r" and "pool_moves\<^sup>*\<^sup>* r r'"
  shows "pr_added r' = pr_taken r' @ tp_tasks (pr_pool r') \<and>
    (0 < n \<and> joined (pr_pool r') \<longrightarrow> pr_taken r' = pr_added r' \<and> pr_done r' = mset (pr_added r'))"
proof -
  have inv: "run_inv n r'" using workers.reachable_inv [OF assms] .
  have "tp_tasks (pr_pool r') = [] \<and> busy (tp_threads (pr_pool r')) = {#}" if "0 < n" "joined (pr_pool r')"
  proof -
    have all: "tp_threads (pr_pool r') = replicate n Exited"
      using that(2) inv by (simp add: joined_def run_inv_def list_all_iff replicate_eqI)
    moreover have "busy (replicate n Exited) = {#}" by (induction n) (simp_all add: busy_def)
    ultimately show ?thesis using inv that(1) by (simp add: run_inv_def)
  qed
  with inv show ?thesis by (auto simp: run_inv_def)
qed

theorem thread_pool_runs_every_task_witness:
  "\<exists>r r'. pool_begin 1 r \<and> pool_moves\<^sup>*\<^sup>* r r' \<and> joined (pr_pool r') \<and> pr_done r' = {#''echo''#}"
proof -
  let ?p = "\<lambda>ts st ws. \<lparr>tp_tasks = ts, tp_stop = st, tp_threads = [ws]\<rparr>"
  let ?r0 = "\<lparr>pr_pool = ?p [] False Waiting, pr_added = [], pr_taken = [], pr_done = {#}\<rparr>"
  let ?r1 = "\<lparr>pr_pool = ?p [''echo''] False Waiting, pr_added = [''echo''], pr_taken = [], pr_done = {#}\<rparr>"
  let ?r2 = "\<lparr>pr_pool = ?p [] False (Busy ''echo''), pr_added = [''echo''], pr_taken = [''echo''], pr_done = {#}\<rparr>"
  let ?r3 = "\<lparr>pr_pool = ?p [] True (Busy ''echo''), pr_added = [''echo''], pr_taken = [''echo''], pr_done = {#}\<rparr>"
  let ?r4 = "\<lparr>pr_pool = ?p [] True Waiting, pr_added = [''echo''], pr_taken = [''echo''], pr_done = {#''echo''#}\<rparr>"
  let ?r5 = "\<lparr>pr_pool = ?p [] True Exited, pr_added = [''echo''], pr_taken = [''echo''], pr_done = {#''echo''#}\<rparr>"
  have b: "pool_begin 1 ?r0" by (simp add: pool_begin_def ThreadPool_new_def)
  have "pool_moves ?r0 ?r1" using move_add [of "''echo''" ?r0] by (simp add: pool_add_def)
  moreover have "pool_moves ?r1 ?r2" using move_wake [of 0 ?r1] by (simp add: worker_wake_def)
  moreover have "pool_moves ?r2 ?r3" using move_stop [of ?r2] by (simp add: pool_stop_def)
  moreover have "pool_moves ?r3 ?r4" using move_finish [of 0 ?r3] by simp
  moreover have "pool_moves ?r4 ?r5" using move_wake [of 0 ?r4] by (simp add: worker_wake_def)
  ultimately have m: "pool_moves\<^sup>*\<^sup>* ?r0 ?r5" by (meson rtranclp.rtrancl_into_rtrancl r_into_rtranclp)
  have j: "joined (pr_pool ?r5)" by (simp add: joined_def)
  from thread_pool_runs_every_task [OF b m] j have "pr_done ?r5 = {#''echo''#}" by simp
  with b m j show ?thesis by blast
qed

text \<open>
  The constructor leaves \<open>stop\<close> with the value the memory had: when that is not zero, \<open>add\<close> throws, and a worker
  that starts returns at once.
\<close>

lemma uninitialised_stop:
  "pool_add t (ThreadPool_new True n) = Inl (Runtime_Error ''ThreadPool already stoped, can't add task any more!'')"
  "worker_wake i (ThreadPool_new True n) = Some ((ThreadPool_new True n)\<lparr>tp_threads := (replicate n Waiting)[i := Exited]\<rparr>)"
  by (simp_all add: pool_add_def worker_wake_def ThreadPool_new_def)

end
