(* ===== verification/Day12_Server.thy ===== *)
theory Day12_Server
  imports Day12_ThreadPool
begin

unbundle bit_operations_syntax

text \<open>
  The echo server of 30dayMakeCppServer/day12: Buffer, Connection, Channel, Epoll, EventLoop, Socket, Acceptor and
  Server under src/. The kernel's interest list and the descriptors that are open are part of the state; the answers of
  \<open>read\<close>, \<open>write\<close>, \<open>accept\<close> and of the socket calls are arguments. \<open>errif\<close> ends the process.
\<close>

definition errif :: "bool \<Rightarrow> string \<Rightarrow> unit res" where
  "errif flag errmsg = (if flag then Inl (Exit_Failure errmsg) else Inr ())"

lemma errif_simps [simp]: "errif False m = Inr ()" "errif True m = Inl (Exit_Failure m)"
  by (simp_all add: errif_def)

section \<open>\<open>Buffer\<close>\<close>

fun day12_append :: "string \<Rightarrow> string \<Rightarrow> nat \<Rightarrow> string res" where
  "day12_append buf cs 0 = Inr buf"
| "day12_append buf [] (Suc left) = Inl Undefined"
| "day12_append buf (c # cs) (Suc left) =
     (if c = CHR 0x00 then Inr buf else day12_append (buf @ [c]) cs left)"

definition day12_size :: "string \<Rightarrow> nat" where
  "day12_size buf = length buf"

definition day12_clear :: "string \<Rightarrow> string" where
  "day12_clear buf = []"

text \<open>A C string ends at its first null character.\<close>

definition c_string :: "string \<Rightarrow> string" where
  "c_string cs = takeWhile (\<lambda>c. c \<noteq> CHR 0x00) cs"

definition day12_setBuf :: "string \<Rightarrow> string \<Rightarrow> string" where
  "day12_setBuf buf cs = c_string cs"

text \<open>\<open>getline\<close> takes a line of the input, without its end; the rest is what is left to read.\<close>

definition day12_getline :: "string \<Rightarrow> string \<times> string" where
  "day12_getline input = (takeWhile (\<lambda>c. c \<noteq> CHR 0x0A) input, tl (dropWhile (\<lambda>c. c \<noteq> CHR 0x0A) input))"

lemma append_c_string: "length cs = n \<Longrightarrow> day12_append buf cs n = Inr (buf @ c_string cs)"
  by (induction cs arbitrary: buf n) (auto simp: c_string_def)

lemma c_string_clean: "CHR 0x00 \<notin> set cs \<Longrightarrow> c_string cs = cs"
  by (induction cs) (auto simp: c_string_def)

lemma c_string_no_null: "CHR 0x00 \<notin> set (c_string cs)"
  by (auto simp: c_string_def dest: set_takeWhileD)

section \<open>\<open>Connection::echo\<close> and \<open>send\<close>\<close>

datatype read_answer = Data string | Interrupted | Would_Block | Eof | Failed

datatype write_answer = Wrote nat | Write_Again | Write_Failed

text \<open>
  The loop of \<open>send\<close> over the answers of \<open>write\<close>; an error other than \<open>EAGAIN\<close> is subtracted as \<open>-1\<close>. \<open>sent\<close>
  collects the bytes the kernel took.
\<close>

fun send_loop :: "string \<Rightarrow> write_answer list \<Rightarrow> int \<Rightarrow> string \<Rightarrow> string res" where
  "send_loop buf ws data_left sent =
     (if data_left \<le> 0 then Inr sent
      else if int (length buf) < data_left then Inl Undefined
      else case ws of
          [] \<Rightarrow> Inl Diverges
        | Write_Again # ws \<Rightarrow> Inr sent
        | Write_Failed # ws \<Rightarrow> send_loop buf ws (data_left + 1) sent
        | Wrote n # ws \<Rightarrow> send_loop buf ws (data_left - int n)
            (sent @ take n (drop (length buf - nat data_left) buf)))"

declare send_loop.simps [simp del]

text \<open>\<open>strcpy\<close> writes the characters and the null character after them into the array of \<open>size\<close> bytes.\<close>

definition strcpy_into :: "nat \<Rightarrow> string \<Rightarrow> string res" where
  "strcpy_into cap cs = (if length (c_string cs) + 1 \<le> cap then Inr (c_string cs) else Inl Undefined)"

definition day12_send :: "string \<Rightarrow> write_answer list \<Rightarrow> string res" where
  "day12_send readBuffer ws =
     res_bind (strcpy_into (day12_size readBuffer) readBuffer) (\<lambda>buf.
       send_loop buf ws (int (day12_size readBuffer)) [])"

text \<open>\<open>echo\<close>: the bytes sent back and the buffer that remains; the array holds 1024 bytes, zeroed before each read.\<close>

fun echo :: "read_answer list \<Rightarrow> write_answer list \<Rightarrow> string \<Rightarrow> (string \<times> string) res" where
  "echo [] ws readBuffer = Inl Diverges"
| "echo (Data bytes # rs) ws readBuffer =
     (if length bytes = 0 \<or> 1024 < length bytes then Inl Undefined
      else res_bind (day12_append readBuffer bytes (length bytes)) (echo rs ws))"
| "echo (Interrupted # rs) ws readBuffer = echo rs ws readBuffer"
| "echo (Would_Block # rs) ws readBuffer =
     res_bind (day12_send readBuffer ws) (\<lambda>sent. Inr (sent, day12_clear readBuffer))"
| "echo (Eof # rs) ws readBuffer = Inr ([], readBuffer)"
| "echo (Failed # rs) ws readBuffer = Inr ([], readBuffer)"

text \<open>The array has no room for the null character.\<close>

lemma send_overflows: "CHR 0x00 \<notin> set buf \<Longrightarrow> day12_send buf ws = Inl Undefined"
  by (simp add: day12_send_def strcpy_into_def day12_size_def c_string_clean)

fun reads_end :: "read_answer list \<Rightarrow> read_answer option" where
  "reads_end [] = None"
| "reads_end (Data bytes # rs) = reads_end rs"
| "reads_end (Interrupted # rs) = reads_end rs"
| "reads_end (r # rs) = Some r"

fun reads_fit :: "read_answer list \<Rightarrow> bool" where
  "reads_fit [] = True"
| "reads_fit (Data bytes # rs) \<longleftrightarrow> 0 < length bytes \<and> length bytes \<le> 1024 \<and> reads_fit rs"
| "reads_fit (r # rs) = reads_fit rs"

text \<open>What \<open>append\<close> keeps of the pieces read up to the end of the loop: each up to its first null character.\<close>

fun pieces_kept :: "read_answer list \<Rightarrow> string" where
  "pieces_kept [] = []"
| "pieces_kept (Data bytes # rs) = c_string bytes @ pieces_kept rs"
| "pieces_kept (Interrupted # rs) = pieces_kept rs"
| "pieces_kept (r # rs) = []"

text \<open>C35: \<open>Connection::echo\<close>, whatever was read before: once the descriptor would block, \<open>send\<close> copies the buffer and
  its null character into an array of the size of the buffer alone, which is undefined behaviour on every message;
  at the end of file or an error nothing is sent, and the buffer afterwards is what it was followed by the pieces read in
  their order, each up to its first null character.\<close>
theorem echo_outcome:
  assumes "reads_fit rs" and "CHR 0x00 \<notin> set buf"
  shows "(reads_end rs = Some Would_Block \<longrightarrow> echo rs ws buf = Inl Undefined) \<and>
    (reads_end rs = Some Eof \<or> reads_end rs = Some Failed \<longrightarrow> echo rs ws buf = Inr ([], buf @ pieces_kept rs))"
  using assms
proof (induction rs arbitrary: buf rule: reads_fit.induct)
  case (2 bytes rs)
  have "CHR 0x00 \<notin> set (buf @ c_string bytes)" using "2.prems"(2) c_string_no_null by auto
  with "2.IH" [OF _ this] "2.prems"(1) show ?case
    by (auto simp: append_c_string c_string_no_null)
qed (auto simp: send_overflows)

theorem echo_outcome_witness:
  "echo [Data ''hi'', Interrupted, Would_Block] [Wrote 2] [] = Inl Undefined \<and>
   echo [Data ''hi'', Interrupted, Data [CHR ''!'', CHR 0x00, CHR ''?''], Eof] [] ''oh '' = Inr ([], ''oh hi!'')"
  using echo_outcome [of "[Data ''hi'', Interrupted, Would_Block]" "[]" "[Wrote 2]"]
    echo_outcome [of "[Data ''hi'', Interrupted, Data [CHR ''!'', CHR 0x00, CHR ''?''], Eof]" "''oh ''" "[]"]
  by (simp add: c_string_def)

text \<open>With room for the null character the loop sends the whole buffer in order, however \<open>write\<close> divides it.\<close>

fun all_wrote :: "write_answer list \<Rightarrow> nat \<Rightarrow> bool" where
  "all_wrote ws 0 = True"
| "all_wrote (Wrote n # ws) left \<longleftrightarrow> 0 < n \<and> n \<le> left \<and> all_wrote ws (left - n)"
| "all_wrote ws left = False"

lemma send_loop_complete:
  "all_wrote ws left \<Longrightarrow> left \<le> length buf \<Longrightarrow>
    send_loop buf ws (int left) sent = Inr (sent @ drop (length buf - left) buf)"
proof (induction ws left arbitrary: sent rule: all_wrote.induct)
  case (1 ws)
  then show ?case by (simp add: send_loop.simps)
next
  case (2 n ws k)
  have nk: "n \<le> Suc k" "Suc k \<le> length buf" using 2 by simp_all
  let ?part = "take n (drop (length buf - Suc k) buf)"
  have step: "send_loop buf (Wrote n # ws) (int (Suc k)) sent = send_loop buf ws (int (Suc k) - int n) (sent @ ?part)"
    using nk(2) by (subst send_loop.simps) (simp del: of_nat_Suc)
  have "length buf - (Suc k - n) = n + (length buf - Suc k)" using nk by linarith
  then have cat: "?part @ drop (length buf - (Suc k - n)) buf = drop (length buf - Suc k) buf"
    by (simp only: drop_drop [symmetric] append_take_drop_id)
  have "int (Suc k) - int n = int (Suc k - n)" using nk(1) by simp
  moreover have "send_loop buf ws (int (Suc k - n)) (sent @ ?part) =
      Inr ((sent @ ?part) @ drop (length buf - (Suc k - n)) buf)" using 2 by simp
  ultimately show ?case by (simp only: step append_assoc cat)
qed simp_all

section \<open>\<open>Channel\<close> and \<open>Epoll\<close>\<close>

abbreviation EPOLLIN :: "32 word" where "EPOLLIN \<equiv> 1"
abbreviation EPOLLPRI :: "32 word" where "EPOLLPRI \<equiv> 2"
abbreviation EPOLLOUT :: "32 word" where "EPOLLOUT \<equiv> 4"
abbreviation EPOLLET :: "32 word" where "EPOLLET \<equiv> 0x80000000"

text \<open>A callback is a name; an empty \<open>std::function\<close> is \<open>None\<close>.\<close>

record day12_channel =
  ch_fd :: int
  ch_events :: "32 word"
  ch_revents :: "32 word"
  ch_inEpoll :: bool
  ch_useThreadPool :: bool
  ch_readCallback :: "string option"
  ch_writeCallback :: "string option"

definition day12_Channel :: "int \<Rightarrow> day12_channel" where
  "day12_Channel fd = \<lparr>ch_fd = fd, ch_events = 0, ch_revents = 0, ch_inEpoll = False, ch_useThreadPool = True,
     ch_readCallback = None, ch_writeCallback = None\<rparr>"

text \<open>The interest list of an epoll descriptor maps a descriptor to its events.\<close>

type_synonym interest = "int \<rightharpoonup> 32 word"

datatype ctl = Add | Mod | Del

definition epoll_ctl :: "ctl \<Rightarrow> int \<Rightarrow> 'e \<Rightarrow> (int \<rightharpoonup> 'e) \<Rightarrow> (int \<rightharpoonup> 'e) option" where
  "epoll_ctl op fd ev k = (case op of
     Add \<Rightarrow> if k fd \<noteq> None then None else Some (k(fd \<mapsto> ev))
   | Mod \<Rightarrow> if k fd = None then None else Some (k(fd \<mapsto> ev))
   | Del \<Rightarrow> if k fd = None then None else Some (k(fd := None)))"

definition ctl_or_exit :: "ctl \<Rightarrow> int \<Rightarrow> 'e \<Rightarrow> (int \<rightharpoonup> 'e) \<Rightarrow> string \<Rightarrow> (int \<rightharpoonup> 'e) res" where
  "ctl_or_exit op fd ev k errmsg = (case epoll_ctl op fd ev k of
     None \<Rightarrow> res_bind (errif True errmsg) (\<lambda>_. Inl Undefined)
   | Some k \<Rightarrow> Inr k)"

definition day12_updateChannel :: "interest \<Rightarrow> day12_channel \<Rightarrow> (interest \<times> day12_channel) res" where
  "day12_updateChannel k c =
     (if \<not> ch_inEpoll c then
        res_bind (ctl_or_exit Add (ch_fd c) (ch_events c) k ''epoll add error'') (\<lambda>k. Inr (k, c\<lparr>ch_inEpoll := True\<rparr>))
      else
        res_bind (ctl_or_exit Mod (ch_fd c) (ch_events c) k ''epoll modify error'') (\<lambda>k. Inr (k, c)))"

definition day12_deleteChannel :: "interest \<Rightarrow> day12_channel \<Rightarrow> (interest \<times> day12_channel) res" where
  "day12_deleteChannel k c =
     res_bind (ctl_or_exit Del (ch_fd c) 0 k ''epoll delete error'') (\<lambda>k. Inr (k, c\<lparr>ch_inEpoll := False\<rparr>))"

definition day12_enableReading :: "interest \<Rightarrow> day12_channel \<Rightarrow> (interest \<times> day12_channel) res" where
  "day12_enableReading k c = day12_updateChannel k (c\<lparr>ch_events := ch_events c OR (EPOLLIN OR EPOLLPRI)\<rparr>)"

definition day12_useET :: "interest \<Rightarrow> day12_channel \<Rightarrow> (interest \<times> day12_channel) res" where
  "day12_useET k c = day12_updateChannel k (c\<lparr>ch_events := ch_events c OR EPOLLET\<rparr>)"

definition day12_setReadCallback :: "string \<Rightarrow> day12_channel \<Rightarrow> day12_channel" where
  "day12_setReadCallback cb c = c\<lparr>ch_readCallback := Some cb\<rparr>"

definition setUseThreadPool :: "bool \<Rightarrow> day12_channel \<Rightarrow> day12_channel" where
  "setUseThreadPool use c = c\<lparr>ch_useThreadPool := use\<rparr>"

text \<open>
  The result of \<open>epoll_wait\<close>: \<open>None\<close> is an error. The active channels get their \<open>revents\<close>, in the order of the answer.
\<close>

definition day12_poll :: "(int \<times> 32 word) list option \<Rightarrow> (int \<rightharpoonup> day12_channel) \<Rightarrow> ((int \<rightharpoonup> day12_channel) \<times> int list) res" where
  "day12_poll answer cs = (case answer of
     None \<Rightarrow> Inl (Exit_Failure ''epoll wait error'')
   | Some evs \<Rightarrow> for_each evs (\<lambda>(fd, ev) (cs, active). case cs fd of
         None \<Rightarrow> Inl Undefined
       | Some c \<Rightarrow> Inr (cs(fd \<mapsto> c\<lparr>ch_revents := ev\<rparr>), active @ [fd])) (cs, []))"

text \<open>\<open>handleEvent\<close>: a callback goes to the pool or is called; calling an empty one throws.\<close>

definition dispatch :: "day12_channel \<Rightarrow> string option \<Rightarrow> string option thread_pool \<times> string list \<Rightarrow>
    (string option thread_pool \<times> string list) res" where
  "dispatch c cb s = (case s of (pool, called) \<Rightarrow>
     if ch_useThreadPool c then res_bind (pool_add cb pool) (\<lambda>pool. Inr (pool, called))
     else case cb of None \<Rightarrow> Inl (Runtime_Error ''bad_function_call'') | Some f \<Rightarrow> Inr (pool, called @ [f]))"

definition day12_handleEvent :: "day12_channel \<Rightarrow> string option thread_pool \<times> string list \<Rightarrow>
    (string option thread_pool \<times> string list) res" where
  "day12_handleEvent c s =
     res_bind (if ch_revents c AND (EPOLLIN OR EPOLLPRI) \<noteq> 0 then dispatch c (ch_readCallback c) s else Inr s) (\<lambda>s.
     if ch_revents c AND EPOLLOUT \<noteq> 0 then dispatch c (ch_writeCallback c) s else Inr s)"

definition day12_loop_round :: "(int \<times> 32 word) list option \<Rightarrow> (int \<rightharpoonup> day12_channel) \<Rightarrow>
    string option thread_pool \<times> string list \<Rightarrow> ((int \<rightharpoonup> day12_channel) \<times> string option thread_pool \<times> string list) res" where
  "day12_loop_round answer cs s =
     res_bind (day12_poll answer cs) (\<lambda>(cs, active).
       res_bind (for_each active (\<lambda>fd s. res_bind (res_of (cs fd)) (\<lambda>c. day12_handleEvent c s)) s) (\<lambda>s. Inr (cs, s)))"

text \<open>Channel and kernel agree: \<open>inEpoll\<close> is whether the descriptor is registered, with the channel's events.\<close>

definition registered :: "interest \<Rightarrow> day12_channel \<Rightarrow> bool" where
  "registered k c \<longleftrightarrow> k (ch_fd c) = (if ch_inEpoll c then Some (ch_events c) else None)"

datatype channel_op = Enable_Reading | Use_ET | Delete

definition channel_op :: "channel_op \<Rightarrow> interest \<Rightarrow> day12_channel \<Rightarrow> (interest \<times> day12_channel) res" where
  "channel_op op k c = (case op of Enable_Reading \<Rightarrow> day12_enableReading k c | Use_ET \<Rightarrow> day12_useET k c
     | Delete \<Rightarrow> day12_deleteChannel k c)"

lemma channel_op_agrees:
  assumes "registered k c" and "op = Delete \<longrightarrow> ch_inEpoll c"
  shows "\<exists>k' c'. channel_op op k c = Inr (k', c') \<and> registered k' c' \<and> ch_fd c' = ch_fd c \<and>
    (\<forall>fd. fd \<noteq> ch_fd c \<longrightarrow> k' fd = k fd)"
  using assms
  by (cases op; cases "ch_inEpoll c")
    (simp_all add: channel_op_def registered_def day12_enableReading_def day12_useET_def day12_deleteChannel_def
      day12_updateChannel_def ctl_or_exit_def epoll_ctl_def)

text \<open>A second \<open>deleteChannel\<close> ends the process.\<close>

lemma delete_twice_exits: "registered k c \<Longrightarrow> \<not> ch_inEpoll c \<Longrightarrow> day12_deleteChannel k c = Inl (Exit_Failure ''epoll delete error'')"
  by (simp add: registered_def day12_deleteChannel_def ctl_or_exit_def epoll_ctl_def)

section \<open>\<open>Socket\<close>, \<open>InetAddress\<close>, \<open>Acceptor\<close> and \<open>Server\<close>\<close>

definition Socket_new :: "int \<Rightarrow> int res" where
  "Socket_new fd = res_bind (errif (fd = -1) ''socket create error'') (\<lambda>_. Inr fd)"

definition socket_call :: "bool \<Rightarrow> string \<Rightarrow> unit res" where
  "socket_call failed errmsg = errif failed errmsg"

definition socket_accept :: "int \<Rightarrow> int res" where
  "socket_accept client_sockfd = res_bind (errif (client_sockfd = -1) ''socket accept error'') (\<lambda>_. Inr client_sockfd)"

record inet_address =
  in_family :: nat
  in_addr :: "32 word"
  in_port :: "16 word"
  in_len :: nat

abbreviation AF_INET :: nat where "AF_INET \<equiv> 2"

text \<open>\<open>inet_addr\<close> is an argument.\<close>

definition InetAddress_empty :: inet_address where
  "InetAddress_empty = \<lparr>in_family = 0, in_addr = 0, in_port = 0, in_len = 16\<rparr>"

definition setInetAddr :: "inet_address \<Rightarrow> nat \<Rightarrow> inet_address \<Rightarrow> inet_address" where
  "setInetAddr addr addr_len a = addr\<lparr>in_len := addr_len\<rparr>"

definition socket_connect :: "bool \<Rightarrow> unit res" where
  "socket_connect failed = errif failed ''socket connect error''"

definition InetAddress_new :: "(string \<Rightarrow> 32 word) \<Rightarrow> string \<Rightarrow> 16 word \<Rightarrow> inet_address" where
  "InetAddress_new inet_addr ip port =
     InetAddress_empty\<lparr>in_family := AF_INET, in_addr := inet_addr ip, in_port := htons port\<rparr>"

text \<open>
  The server: open descriptors, the interest list of every loop (the main one is \<open>0\<close>), the channels of the
  connections, the map \<open>connections\<close> and the descriptors closed so far, in order.
\<close>

record day12_server =
  sv_size :: nat
  sv_thpool :: "nat thread_pool"
  sv_interest :: "nat \<Rightarrow> interest"
  sv_channels :: "int \<rightharpoonup> day12_channel"
  sv_connections :: "int \<rightharpoonup> nat"
  sv_closed :: "int list"

text \<open>
  The constructor of \<open>Acceptor\<close> binds, listens and watches the listening descriptor. That of \<open>EventLoop\<close> makes an epoll
  descriptor and ten threads, whose \<open>stop\<close> is not initialised (\<open>garbage\<close>).
\<close>

definition Acceptor_new :: "int \<Rightarrow> bool \<Rightarrow> bool \<Rightarrow> interest \<Rightarrow> (interest \<times> day12_channel) res" where
  "Acceptor_new fd bind_failed listen_failed k =
     res_bind (Socket_new fd) (\<lambda>fd.
     res_bind (socket_call bind_failed ''socket bind error'') (\<lambda>_.
     res_bind (socket_call listen_failed ''socket listen error'') (\<lambda>_.
       day12_enableReading k (day12_setReadCallback ''acceptConnection'' (day12_Channel fd)))))"

definition Epoll_new :: "bool \<Rightarrow> interest res" where
  "Epoll_new failed = res_bind (errif failed ''epoll create error'') (\<lambda>_. Inr Map.empty)"

record day12_loop =
  lp_interest :: interest
  lp_quit :: bool
  lp_threadPool :: "string option thread_pool"

definition EventLoop_new :: "bool \<Rightarrow> bool \<Rightarrow> day12_loop res" where
  "EventLoop_new epoll_failed garbage = res_bind (Epoll_new epoll_failed) (\<lambda>k.
     Inr \<lparr>lp_interest = k, lp_quit = False, lp_threadPool = ThreadPool_new garbage 10\<rparr>)"

definition addThread :: "string option \<Rightarrow> day12_loop \<Rightarrow> day12_loop res" where
  "addThread func l = res_bind (pool_add func (lp_threadPool l)) (\<lambda>p. Inr (l\<lparr>lp_threadPool := p\<rparr>))"

text \<open>
  The constructor of \<open>Server\<close> makes a loop for every hardware thread, and gives each to the pool as a task that runs it;
  \<open>epoll_failed i\<close> and \<open>garbage\<close> are those of loop \<open>i\<close> and of the pools.
\<close>

definition Server_new :: "int \<Rightarrow> bool \<Rightarrow> bool \<Rightarrow> (nat \<Rightarrow> bool) \<Rightarrow> bool \<Rightarrow> nat \<Rightarrow> day12_server res" where
  "Server_new fd bind_failed listen_failed epoll_failed garbage threads =
     res_bind (Acceptor_new fd bind_failed listen_failed Map.empty) (\<lambda>(k, c).
     res_bind (for_each [0..<threads] (\<lambda>i subReactors. res_bind (EventLoop_new (epoll_failed i) garbage) (\<lambda>l.
       Inr (subReactors @ [l]))) []) (\<lambda>subReactors.
     res_bind (for_each [0..<threads] (\<lambda>i. pool_add (i + 1)) (ThreadPool_new garbage threads)) (\<lambda>thpool.
       Inr \<lparr>sv_size = threads, sv_thpool = thpool, sv_interest = (\<lambda>i. if i = 0 then k else if i \<le> threads then
           lp_interest (subReactors ! (i - 1)) else Map.empty),
         sv_channels = [ch_fd c \<mapsto> c], sv_connections = Map.empty, sv_closed = []\<rparr>)))"

text \<open>
  The constructor of \<open>Connection\<close> on loop \<open>l\<close>: the channel is watched before its callback is set.
\<close>

definition connection_watch :: "nat \<Rightarrow> int \<Rightarrow> day12_server \<Rightarrow> (day12_server \<times> day12_channel) res" where
  "connection_watch l fd s =
     res_bind (day12_enableReading (sv_interest s l) (day12_Channel fd)) (\<lambda>(k, c).
     res_bind (day12_useET k c) (\<lambda>(k, c).
       Inr (s\<lparr>sv_interest := (sv_interest s)(l := k), sv_channels := (sv_channels s)(fd \<mapsto> c)\<rparr>, c)))"

definition Connection_new12 :: "nat \<Rightarrow> int \<Rightarrow> day12_server \<Rightarrow> day12_server res" where
  "Connection_new12 l fd s =
     res_bind (connection_watch l fd s) (\<lambda>(s, c).
       Inr (s\<lparr>sv_channels := (sv_channels s)(fd \<mapsto> day12_setReadCallback ''echo'' c)\<rparr>))"

text \<open>\<open>conn\<close> is the address of the new connection; the remainder of the \<open>int\<close> by a \<open>size_t\<close> is unsigned.\<close>

definition newConnection :: "nat \<Rightarrow> int \<Rightarrow> day12_server \<Rightarrow> day12_server res" where
  "newConnection conn fd s =
     (if fd = -1 then Inr s
      else if sv_size s = 0 then Inl Undefined
      else let random = nat (fd mod 2 ^ 64) mod sv_size s in
        res_bind (Connection_new12 (random + 1) fd s) (\<lambda>s.
          Inr (s\<lparr>sv_connections := (sv_connections s)(fd \<mapsto> conn)\<rparr>)))"

definition acceptConnection :: "nat \<Rightarrow> int \<Rightarrow> day12_server \<Rightarrow> day12_server res" where
  "acceptConnection conn answer s = res_bind (socket_accept answer) (\<lambda>fd.
     res_bind (Socket_new fd) (\<lambda>fd. newConnection conn fd s))"

text \<open>\<open>deleteConnection\<close> closes the descriptor, which removes it from every interest list, and keeps the map entry.\<close>

definition deleteConnection :: "int \<Rightarrow> day12_server \<Rightarrow> day12_server" where
  "deleteConnection sockfd s =
     (if sockfd \<noteq> -1 \<and> sv_connections s sockfd \<noteq> None
      then s\<lparr>sv_closed := sv_closed s @ [sockfd], sv_interest := (\<lambda>l. (sv_interest s l)(sockfd := None))\<rparr>
      else s)"

text \<open>
  The calls of \<open>close\<close> by the destructors, in order: a \<open>Channel\<close> and a \<open>Socket\<close> each close their copy of the descriptor,
  so \<open>Connection\<close> and \<open>Acceptor\<close>, which delete one of both, close it twice.
\<close>

definition day12_Channel_destroy :: "day12_channel \<Rightarrow> int list" where
  "day12_Channel_destroy c = (if ch_fd c \<noteq> -1 then [ch_fd c] else [])"

definition Socket_destroy :: "int \<Rightarrow> int list" where
  "Socket_destroy fd = (if fd \<noteq> -1 then [fd] else [])"

definition Epoll_destroy :: "int \<Rightarrow> int list" where
  "Epoll_destroy epfd = (if epfd \<noteq> -1 then [epfd] else [])"

definition Connection_destroy :: "day12_channel \<Rightarrow> int \<Rightarrow> int list" where
  "Connection_destroy channel sock = day12_Channel_destroy channel @ Socket_destroy sock"

definition Acceptor_destroy :: "day12_channel \<Rightarrow> int \<Rightarrow> int list" where
  "Acceptor_destroy acceptChannel sock = Socket_destroy sock @ day12_Channel_destroy acceptChannel"

lemma Connection_destroy_twice:
  "ch_fd c = fd \<Longrightarrow> fd \<noteq> -1 \<Longrightarrow> Connection_destroy c fd = [fd, fd] \<and> Acceptor_destroy c fd = [fd, fd]"
  by (simp add: Connection_destroy_def Acceptor_destroy_def day12_Channel_destroy_def Socket_destroy_def)

text \<open>\<open>delete ep\<close> comes before \<open>delete threadPool\<close>, and \<open>delete acceptor\<close> before \<open>delete thpool\<close>.\<close>

definition EventLoop_destroy :: "int \<Rightarrow> day12_loop \<Rightarrow> int list \<times> day12_loop" where
  "EventLoop_destroy epfd l = (Epoll_destroy epfd, l\<lparr>lp_threadPool := pool_stop (lp_threadPool l)\<rparr>)"

definition Server_destroy :: "day12_channel \<Rightarrow> int \<Rightarrow> day12_server \<Rightarrow> day12_server" where
  "Server_destroy acceptChannel sock s =
     s\<lparr>sv_closed := sv_closed s @ Acceptor_destroy acceptChannel sock, sv_thpool := pool_stop (sv_thpool s)\<rparr>"

section \<open>Where connections live\<close>

text \<open>
  After \<open>newConnection\<close> the descriptor is watched, edge-triggered, by exactly the loop that its number selects.
\<close>

definition home :: "day12_server \<Rightarrow> int \<Rightarrow> nat" where
  "home s fd = nat (fd mod 2 ^ 64) mod sv_size s + 1"

lemma newConnection_watched:
  assumes "0 \<le> fd" and "0 < sv_size s" and "\<forall>l. sv_interest s l fd = None"
  shows "\<exists>s'. newConnection conn fd s = Inr s' \<and> sv_connections s' fd = Some conn \<and> sv_size s' = sv_size s \<and>
    sv_interest s' (home s fd) fd = Some (EPOLLIN OR EPOLLPRI OR EPOLLET) \<and>
    (\<forall>l. l \<noteq> home s fd \<longrightarrow> sv_interest s' l = sv_interest s l) \<and>
    (\<forall>l fd'. fd' \<noteq> fd \<longrightarrow> sv_interest s' l fd' = sv_interest s l fd') \<and>
    map_option ch_readCallback (sv_channels s' fd) = Some (Some ''echo'')"
proof -
  have k: "sv_interest s (Suc (nat (fd mod 18446744073709551616) mod sv_size s)) fd = None" using assms(3) by blast
  show ?thesis using assms(1,2) k
    by (auto simp: newConnection_def Connection_new12_def connection_watch_def home_def day12_enableReading_def day12_useET_def
      day12_updateChannel_def day12_Channel_def day12_setReadCallback_def ctl_or_exit_def epoll_ctl_def Let_def or.assoc)
qed

text \<open>
  Between the two steps of the constructor the loop can already report an event: the task it hands to the pool is then
  an empty function.
\<close>

lemma event_before_callback:
  assumes "connection_watch l fd s = Inr (s', c)" and "\<not> tp_stop pool"
  shows "\<exists>pool'. day12_handleEvent (c\<lparr>ch_revents := EPOLLIN\<rparr>) (pool, []) = Inr (pool', []) \<and>
    tp_tasks pool' = tp_tasks pool @ [None]"
proof -
  have c: "ch_useThreadPool c" "ch_readCallback c = None"
    using assms(1) by (auto simp: connection_watch_def day12_enableReading_def day12_useET_def day12_updateChannel_def
      day12_Channel_def split: if_splits)
  have "EPOLLIN AND (EPOLLIN OR EPOLLPRI) \<noteq> 0" "EPOLLIN AND EPOLLOUT = 0" by simp_all
  with c assms(2) show ?thesis by (simp add: day12_handleEvent_def dispatch_def pool_add_def)
qed

text \<open>A closed connection is forgotten by the kernel only: its map entry stays.\<close>

lemma deleteConnection_keeps_entry: "sv_connections (deleteConnection fd s) = sv_connections s"
  by (simp add: deleteConnection_def)

section \<open>The loops and the destructor\<close>

text \<open>
  A loop never returns, because nothing sets \<open>quit\<close>. So the workers of \<open>thpool\<close> take tasks but do not finish them.
\<close>

inductive loop_moves :: "nat pool_run \<Rightarrow> nat pool_run \<Rightarrow> bool" where
  loop_stop: "loop_moves r (r\<lparr>pr_pool := pool_stop (pr_pool r)\<rparr>)"
| loop_wake: "i < length (tp_threads (pr_pool r)) \<Longrightarrow> tp_threads (pr_pool r) ! i = Waiting \<Longrightarrow>
    worker_wake i (pr_pool r) = Some p \<Longrightarrow>
    loop_moves r (r\<lparr>pr_pool := p,
      pr_taken := (case tp_threads p ! i of Busy t \<Rightarrow> pr_taken r @ [t] | _ \<Rightarrow> pr_taken r)\<rparr>)"

definition server_run :: "day12_server \<Rightarrow> nat pool_run" where
  "server_run s = \<lparr>pr_pool = sv_thpool s, pr_added = tp_tasks (sv_thpool s), pr_taken = [], pr_done = {#}\<rparr>"

lemma loop_moves_run:
  assumes "loop_moves\<^sup>*\<^sup>* r r'"
  shows "pool_moves\<^sup>*\<^sup>* r r' \<and> pr_done r' = pr_done r \<and> pr_added r' = pr_added r"
  using assms
proof (induction rule: rtranclp_induct)
  case (step r1 r2)
  have "pool_moves r1 r2 \<and> pr_done r2 = pr_done r1 \<and> pr_added r2 = pr_added r1"
    using step(2) by cases (auto intro: move_stop move_wake)
  with step.IH show ?case by (auto intro: rtranclp.rtrancl_into_rtrancl)
qed simp

lemma for_each_add:
  "\<not> tp_stop p \<Longrightarrow> for_each is (\<lambda>i. pool_add (Suc i)) p = Inr (p\<lparr>tp_tasks := tp_tasks p @ map Suc is\<rparr>)"
  by (induction "is" arbitrary: p) (simp_all add: pool_add_def)

lemma Server_new_pool:
  assumes "Server_new fd b l e False threads = Inr s"
  shows "sv_thpool s = \<lparr>tp_tasks = map Suc [0..<threads], tp_stop = False, tp_threads = replicate threads Waiting\<rparr>"
  using assms
  by (auto simp: Server_new_def for_each_add ThreadPool_new_def simp del: map_Suc_upt)

text \<open>The destructor of a server with a loop joins threads that never return: it does not end.\<close>

lemma Server_destructor_hangs:
  assumes "Server_new fd b l e False threads = Inr s" and "0 < threads" and "loop_moves\<^sup>*\<^sup>* (server_run s) r"
  shows "\<not> joined (pr_pool r)"
proof
  assume j: "joined (pr_pool r)"
  have idle: "busy (replicate threads Waiting) = {#}" for threads by (induction threads) (simp_all add: busy_def)
  have "run_inv threads (server_run s)"
    using Server_new_pool [OF assms(1)] by (simp add: run_inv_def server_run_def idle)
  then have inv: "run_inv threads r" using workers.steps_inv loop_moves_run [OF assms(3)] by blast
  have r: "pr_done r = {#}" "length (pr_added r) = threads"
    using loop_moves_run [OF assms(3)] Server_new_pool [OF assms(1)] by (simp_all add: server_run_def)
  have ws: "tp_threads (pr_pool r) = replicate threads Exited"
    using j inv by (simp add: joined_def run_inv_def list_all_iff replicate_eqI)
  have gone: "busy (replicate n Exited) = {#}" for n by (induction n) (simp_all add: busy_def)
  from inv r(1) ws assms(2) have "pr_taken r = []" "tp_tasks (pr_pool r) = []" by (simp_all add: run_inv_def gone)
  with inv r(2) assms(2) show False by (simp add: run_inv_def)
qed

text \<open>A server whose pools find \<open>stop\<close> set in their memory throws in its constructor.\<close>

lemma Server_new_garbage:
  assumes "0 \<le> fd"
  shows "Server_new fd False False (\<lambda>_. False) True 1 = Inl (Runtime_Error ''ThreadPool already stoped, can't add task any more!'')"
  using assms
  by (simp add: Server_new_def Acceptor_new_def Socket_new_def socket_call_def day12_enableReading_def day12_updateChannel_def
    day12_Channel_def day12_setReadCallback_def ctl_or_exit_def epoll_ctl_def EventLoop_new_def Epoll_new_def
    ThreadPool_new_def pool_add_def)

end
