(* ===== verification/Day_Early.thy ===== *)
theory Day_Early
  imports Day12_Server
begin

text \<open>
  The earlier days of 30dayMakeCppServer, as far as they differ from day12: the echo servers of day02 to day08, which
  write back their whole array, the clients, \<open>ThreadPool::add\<close> of day10 and \<open>Server::deleteConnection\<close> of day11.
\<close>

section \<open>Echoing a whole array\<close>

text \<open>The array of 1024 bytes is zeroed before each \<open>read\<close>, and all of it is written.\<close>

definition block :: "string \<Rightarrow> string" where
  "block bytes = bytes @ replicate (1024 - length bytes) (CHR 0x00)"

lemma length_block [simp]: "length bytes \<le> 1024 \<Longrightarrow> length (block bytes) = 1024"
  by (simp add: block_def)

lemma c_string_append_null: "CHR 0x00 \<notin> set word \<Longrightarrow> c_string (word @ CHR 0x00 # rest) = word"
  by (induction word) (auto simp: c_string_def)

lemma c_string_block:
  assumes "CHR 0x00 \<notin> set word" and "length word < 1024"
  shows "c_string (block word) = word"
proof -
  obtain n where "1024 - length word = Suc n" using assms(2) by (metis Suc_diff_Suc)
  with c_string_append_null [OF assms(1)] show ?thesis by (simp add: block_def)
qed

text \<open>
  \<open>handleReadEvent\<close>: the blocks written and whether the descriptor was closed. An error that is neither \<open>EINTR\<close> nor
  \<open>EAGAIN\<close> meets no branch, so the loop goes on.
\<close>

fun handleReadEvent :: "read_answer list \<Rightarrow> string list \<Rightarrow> (string list \<times> bool) res" where
  "handleReadEvent [] out = Inl Diverges"
| "handleReadEvent (Data bytes # rs) out =
     (if length bytes = 0 \<or> 1024 < length bytes then Inl Undefined else handleReadEvent rs (out @ [block bytes]))"
| "handleReadEvent (Interrupted # rs) out = handleReadEvent rs out"
| "handleReadEvent (Would_Block # rs) out = Inr (out, False)"
| "handleReadEvent (Eof # rs) out = Inr (out, True)"
| "handleReadEvent (Failed # rs) out = handleReadEvent rs out"


text \<open>The pieces read up to the end of the loop.\<close>

fun pieces :: "read_answer list \<Rightarrow> string list" where
  "pieces [] = []"
| "pieces (Data bytes # rs) = bytes # pieces rs"
| "pieces (Would_Block # rs) = []"
| "pieces (Eof # rs) = []"
| "pieces (_ # rs) = pieces rs"

fun ends :: "read_answer list \<Rightarrow> bool option" where
  "ends [] = None"
| "ends (Would_Block # rs) = Some False"
| "ends (Eof # rs) = Some True"
| "ends (_ # rs) = ends rs"

lemma handleReadEvent_blocks:
  assumes "reads_fit rs" and "ends rs = Some closed"
  shows "handleReadEvent rs out = Inr (out @ map block (pieces rs), closed)"
  using assms by (induction rs arbitrary: out rule: pieces.induct) (auto split: if_splits)

section \<open>The server of day03 and day04\<close>

text \<open>The interest list and the writes so far, in order; \<open>es_listen\<close> is the listening descriptor.\<close>

record early_server =
  es_listen :: int
  es_interest :: interest
  es_writes :: "(int \<times> string) list"

text \<open>\<open>addFd\<close> ends the process when \<open>epoll_ctl\<close> fails.\<close>

definition addFd :: "int \<Rightarrow> 32 word \<Rightarrow> interest \<Rightarrow> interest res" where
  "addFd fd events k = ctl_or_exit Add fd events k ''epoll add event error''"

definition early_poll :: "(int \<times> 32 word) list option \<Rightarrow> (int \<times> 32 word) list res" where
  "early_poll answer = (case answer of None \<Rightarrow> Inl (Exit_Failure ''epoll wait error'') | Some evs \<Rightarrow> Inr evs)"

definition early_start :: "int \<Rightarrow> bool \<Rightarrow> bool \<Rightarrow> bool \<Rightarrow> early_server res" where
  "early_start fd bind_failed listen_failed epoll_failed =
     res_bind (Socket_new fd) (\<lambda>fd.
     res_bind (socket_call bind_failed ''socket bind error'') (\<lambda>_.
     res_bind (socket_call listen_failed ''socket listen error'') (\<lambda>_.
     res_bind (errif epoll_failed ''epoll create error'') (\<lambda>_.
     res_bind (addFd fd (EPOLLIN OR EPOLLET) Map.empty) (\<lambda>k.
       Inr \<lparr>es_listen = fd, es_interest = k, es_writes = []\<rparr>)))))"

text \<open>
  One event of the loop of \<open>main\<close> in day04: \<open>client\<close> is the answer of \<open>accept\<close> and \<open>rs\<close> are those of \<open>read\<close>. Closing a
  descriptor removes it from the interest list.
\<close>

definition early_event :: "int \<Rightarrow> read_answer list \<Rightarrow> int \<times> 32 word \<Rightarrow> early_server \<Rightarrow> early_server res" where
  "early_event client rs ev s = (case ev of (fd, events) \<Rightarrow>
     if fd = es_listen s then
       res_bind (socket_accept client) (\<lambda>c. res_bind (Socket_new c) (\<lambda>c.
         res_bind (addFd c (EPOLLIN OR EPOLLET) (es_interest s)) (\<lambda>k. Inr (s\<lparr>es_interest := k\<rparr>))))
     else if events AND EPOLLIN \<noteq> 0 then
       res_bind (handleReadEvent rs []) (\<lambda>(out, closed).
         Inr (s\<lparr>es_writes := es_writes s @ map (Pair fd) out,
                es_interest := (if closed then (es_interest s)(fd := None) else es_interest s)\<rparr>))
     else Inr s)"



text \<open>What the kernel may report and answer: events of watched descriptors, new descriptors that are not in use.\<close>

type_synonym round = "int \<times> read_answer list \<times> int \<times> 32 word"

definition answers_ok :: "early_server \<Rightarrow> round \<Rightarrow> bool" where
  "answers_ok s r = (case r of (client, rs, fd, events) \<Rightarrow> es_interest s fd \<noteq> None \<and>
     (if fd = es_listen s then 0 \<le> client \<and> es_interest s client = None
      else events AND EPOLLIN \<noteq> 0 \<longrightarrow> reads_fit rs \<and> ends rs \<noteq> None))"

inductive early_step :: "(early_server \<times> (int \<times> string) list) \<Rightarrow> (early_server \<times> (int \<times> string) list) \<Rightarrow> bool" where
  early_step: "answers_ok s (client, rs, fd, events) \<Longrightarrow> early_event client rs (fd, events) s = Inr t \<Longrightarrow>
    early_step (s, ps) (t, ps @ (if fd \<noteq> es_listen s \<and> events AND EPOLLIN \<noteq> 0 then map (Pair fd) (pieces rs) else []))"

definition early_inv :: "early_server \<times> (int \<times> string) list \<Rightarrow> bool" where
  "early_inv = (\<lambda>(s, ps). es_interest s (es_listen s) = Some (EPOLLIN OR EPOLLET) \<and>
     (\<forall>fd ev. es_interest s fd = Some ev \<longrightarrow> ev = EPOLLIN OR EPOLLET) \<and>
     es_writes s = map (\<lambda>(fd, bytes). (fd, block bytes)) ps \<and> list_all (\<lambda>(fd, bytes). length bytes \<le> 1024) ps)"

lemma pieces_fit: "reads_fit rs \<Longrightarrow> list_all (\<lambda>bytes. length bytes \<le> 1024) (pieces rs)"
  by (induction rs rule: pieces.induct) auto

lemma early_event_outcome:
  assumes "answers_ok s (client, rs, fd, events)"
  shows "early_event client rs (fd, events) s = Inr
    (if fd = es_listen s then s\<lparr>es_interest := (es_interest s)(client \<mapsto> EPOLLIN OR EPOLLET)\<rparr>
     else if events AND EPOLLIN \<noteq> 0 then
       s\<lparr>es_writes := es_writes s @ map (Pair fd) (map block (pieces rs)),
         es_interest := (if ends rs = Some True then (es_interest s)(fd := None) else es_interest s)\<rparr>
     else s)"
proof (cases "fd = es_listen s")
  case True
  with assms have "client \<noteq> -1" "es_interest s client = None" by (auto simp: answers_ok_def)
  with True show ?thesis
    by (simp add: early_event_def socket_accept_def Socket_new_def addFd_def ctl_or_exit_def epoll_ctl_def)
next
  case False
  show ?thesis
  proof (cases "events AND EPOLLIN \<noteq> 0")
    case True
    with False assms obtain closed where "reads_fit rs" "ends rs = Some closed" by (auto simp: answers_ok_def)
    with False True handleReadEvent_blocks [of rs closed "[]"] show ?thesis by (simp add: early_event_def)
  next
    case no: False
    with False show ?thesis by (simp add: early_event_def)
  qed
qed


lemma early_step_inv: "early_inv x \<Longrightarrow> early_step x y \<Longrightarrow> early_inv y"
proof (erule early_step.cases)
  fix s client rs fd events t ps
  assume inv: "early_inv x" and x: "x = (s, ps)"
    and y: "y = (t, ps @ (if fd \<noteq> es_listen s \<and> events AND EPOLLIN \<noteq> 0 then map (Pair fd) (pieces rs) else []))"
    and ok: "answers_ok s (client, rs, fd, events)" and e: "early_event client rs (fd, events) s = Inr t"
  note t = e [unfolded early_event_outcome [OF ok], simplified]
  have l: "list_all (\<lambda>bytes. length bytes \<le> 1024) (pieces rs)" if "fd \<noteq> es_listen s" "events AND EPOLLIN \<noteq> 0"
    using ok that by (intro pieces_fit) (simp add: answers_ok_def)
  show "early_inv y"
  proof (cases "fd = es_listen s")
    case True
    with inv t [symmetric] show ?thesis unfolding x y by (auto simp: early_inv_def)
  next
    case False
    show ?thesis
    proof (cases "events AND EPOLLIN \<noteq> 0")
      case True
      with False inv t [symmetric] l show ?thesis unfolding x y
        by (auto simp: early_inv_def list_all_iff split: if_splits)
    next
      case no: False
      with False inv t [symmetric] show ?thesis unfolding x y by (auto simp: early_inv_def)
    qed
  qed
qed

definition early_init :: "early_server \<times> (int \<times> string) list \<Rightarrow> bool" where
  "early_init x \<longleftrightarrow> (\<exists>fd s. early_start fd False False False = Inr s \<and> x = (s, []))"

interpretation early: invariant_system early_init early_step early_inv
proof unfold_locales
  fix x
  assume "early_init x"
  then show "early_inv x"
    by (auto simp: early_init_def early_inv_def early_start_def addFd_def ctl_or_exit_def epoll_ctl_def Socket_new_def
      socket_call_def errif_def split: if_splits)
qed (rule early_step_inv)














section \<open>The clients\<close>

text \<open>
  A round of the clients of day02 to day08: \<open>scanf\<close> reads a word without a bound into the array, all of the array is
  written, and one \<open>read\<close> is shown as a C string. \<open>None\<close> ends the loop.
\<close>

definition client_round :: "string \<Rightarrow> bool \<Rightarrow> read_answer \<Rightarrow> string option res" where
  "client_round word write_failed answer =
     (if 1024 \<le> length word then Inl Undefined
      else if write_failed then Inr None
      else case answer of
          Data bytes \<Rightarrow> if length bytes = 0 \<or> 1024 < length bytes \<or> CHR 0x00 \<notin> set (block bytes) then Inl Undefined
                        else Inr (Some (c_string (block bytes)))
        | Eof \<Rightarrow> Inr None
        | _ \<Rightarrow> Inl (Exit_Failure ''socket read error''))"

text \<open>With the server: a word that travels in one piece is shown as it was typed.\<close>

lemma word_comes_back:
  assumes "CHR 0x00 \<notin> set word" and "length word < 1024"
  shows "handleReadEvent [Data (block word), Would_Block] [] = Inr ([block word], False) \<and>
    client_round word False (Data (block word)) = Inr (Some word)"
proof -
  have l: "length (block word) = 1024" using assms(2) by simp
  then have b: "block (block word) = block word" by (simp add: block_def [of "block word"])
  have "CHR 0x00 \<in> set (block word)" using assms(2) by (simp add: block_def)
  with l b assms c_string_block [OF assms] show ?thesis by (simp add: client_round_def)
qed

text \<open>
  The loop of the client of day12: \<open>data_size\<close> bytes were written, \<open>already_read\<close> have come back. \<open>None\<close> is the exit when the
  server has closed; after an error the loop goes on.
\<close>

fun client_reads :: "nat \<Rightarrow> nat \<Rightarrow> string \<Rightarrow> read_answer list \<Rightarrow> string option res" where
  "client_reads data_size already_read readBuffer [] = Inl Diverges"
| "client_reads data_size already_read readBuffer (r # rs) =
     (case r of
        Eof \<Rightarrow> Inr None
      | Data bytes \<Rightarrow>
          if length bytes = 0 \<or> 1024 < length bytes then Inl Undefined
          else res_bind (day12_append readBuffer bytes (length bytes)) (\<lambda>readBuffer.
            let already_read = already_read + length bytes in
            if data_size \<le> already_read then Inr (Some readBuffer) else client_reads data_size already_read readBuffer rs)
      | _ \<Rightarrow> if data_size \<le> already_read then Inr (Some readBuffer) else client_reads data_size already_read readBuffer rs)"

fun data_of :: "read_answer \<Rightarrow> string" where
  "data_of (Data bytes) = bytes"
| "data_of _ = []"

lemma client_reads_all:
  assumes "reads_fit rs" and "Eof \<notin> set rs" and "readBuffer @ concat (map data_of rs) = msg" and "CHR 0x00 \<notin> set msg"
    and "length readBuffer < length msg"
  shows "client_reads (length msg) (length readBuffer) readBuffer rs = Inr (Some msg)"
  using assms
proof (induction rs arbitrary: readBuffer)
  case (Cons r rs)
  show ?case
  proof (cases r)
    case (Data bytes)
    have fit: "0 < length bytes" "length bytes \<le> 1024" "reads_fit rs" using Cons.prems(1) Data by simp_all
    have null: "CHR 0x00 \<notin> set bytes" using Cons.prems(3,4) Data by auto
    have app: "day12_append readBuffer bytes (length bytes) = Inr (readBuffer @ bytes)"
      using append_c_string [of bytes "length bytes" readBuffer] c_string_clean [OF null] by simp
    show ?thesis
    proof (cases "length msg \<le> length readBuffer + length bytes")
      case True
      then have "concat (map data_of rs) = []" "msg = readBuffer @ bytes" using Cons.prems(3) Data by auto
      with True Data fit app show ?thesis by simp
    next
      case False
      have "client_reads (length msg) (length (readBuffer @ bytes)) (readBuffer @ bytes) rs = Inr (Some msg)"
        using Cons.prems Data False fit by (intro Cons.IH) simp_all
      with False Data fit app show ?thesis by simp
    qed
  qed (use Cons in simp_all)
qed simp

text \<open>The client of day12 shows what it sent: when the server sends the bytes of a message back, in pieces of any
  size and with interrupted reads between them, the client appends them in order, stops at the last one and shows the
  message; a message without a byte is shown after any first answer.\<close>

lemma client_shows_message:
  assumes "reads_fit rs" and "Eof \<notin> set rs" and "concat (map data_of rs) = msg" and "CHR 0x00 \<notin> set msg" and "rs \<noteq> []"
  shows "client_reads (length msg) 0 [] rs = Inr (Some msg)"
proof (cases "msg = []")
  case False
  with client_reads_all [OF assms(1,2), of "[]" msg] assms(3,4) show ?thesis by simp
next
  case True
  then have "data_of (hd rs) = []" using assms(3,5) by (cases rs) auto
  moreover have "hd rs \<noteq> Eof" using assms(2,5) by (cases rs) auto
  ultimately show ?thesis using True assms(1,5) by (cases rs; cases "hd rs") auto
qed

lemma client_shows_message_witness:
  "client_reads 5 0 [] [Data ''he'', Interrupted, Data ''llo''] = Inr (Some ''hello'')"
  using client_shows_message [of "[Data ''he'', Interrupted, Data ''llo'']" "''hello''"] by simp

section \<open>The server of day02\<close>

text \<open>
  The loop serves one client; when it has closed the descriptor it reads on, and \<open>read\<close> of a closed descriptor fails. The
  result is what was written and how the process ends.
\<close>

fun day02_loop :: "bool \<Rightarrow> read_answer list \<Rightarrow> string list \<times> cpp_error" where
  "day02_loop is_open [] = ([], Diverges)"
| "day02_loop is_open (r # rs) =
     (if \<not> is_open then ([], Exit_Failure ''socket read error'')
      else case r of
          Data bytes \<Rightarrow> if length bytes = 0 \<or> 1024 < length bytes then ([], Undefined)
                        else (let (out, e) = day02_loop True rs in (block bytes # out, e))
        | Eof \<Rightarrow> day02_loop False rs
        | _ \<Rightarrow> ([], Exit_Failure ''socket read error''))"

text \<open>The end of the client is the end of the server.\<close>

lemma day02_dies_with_client:
  "list_all (\<lambda>b. 0 < length b \<and> length b \<le> 1024) bs \<Longrightarrow>
    day02_loop True (map Data bs @ [Eof, r]) = (map block bs, Exit_Failure ''socket read error'')"
  by (induction bs) auto

section \<open>\<open>ThreadPool::add\<close> of day10\<close>

text \<open>The function is not put into the queue.\<close>

definition day10_add :: "'a \<Rightarrow> 'a thread_pool \<Rightarrow> 'a thread_pool res" where
  "day10_add func p =
     (if tp_stop p then Inl (Runtime_Error ''ThreadPool already stoped, can't add task any more!'') else Inr p)"

inductive day10_moves :: "'a thread_pool \<Rightarrow> 'a thread_pool \<Rightarrow> bool" where
  day10_add: "day10_add t p = Inr q \<Longrightarrow> day10_moves p q"
| day10_stop: "day10_moves p (pool_stop p)"
| day10_wake: "i < length (tp_threads p) \<Longrightarrow> tp_threads p ! i = Waiting \<Longrightarrow> worker_wake i p = Some q \<Longrightarrow> day10_moves p q"

definition idle_pool :: "'a thread_pool \<Rightarrow> bool" where
  "idle_pool p \<longleftrightarrow> tp_tasks p = [] \<and> (\<forall>w \<in> set (tp_threads p). w = Waiting \<or> w = Exited)"

lemma set_list_updateD: "w \<in> set (xs[i := x]) \<Longrightarrow> w = x \<or> w \<in> set xs"
  by (metis insertE set_update_subset_insert subsetD)

interpretation day10: invariant_system "\<lambda>p. \<exists>n. p = ThreadPool_new False n" day10_moves idle_pool
proof unfold_locales
  fix p q :: "'a thread_pool"
  show "idle_pool p \<Longrightarrow> day10_moves p q \<Longrightarrow> idle_pool q"
    by (erule day10_moves.cases) (auto simp: day10_add_def pool_stop_def worker_wake_def idle_pool_def
      dest!: set_list_updateD split: if_splits)
qed (auto simp: idle_pool_def ThreadPool_new_def)

text \<open>Whatever is added, no worker ever runs anything.\<close>

lemma day10_runs_nothing:
  assumes "day10_moves\<^sup>*\<^sup>* (ThreadPool_new False n) p"
  shows "tp_tasks p = [] \<and> Busy t \<notin> set (tp_threads p)"
  using day10.reachable_inv [OF _ assms] by (auto simp: idle_pool_def)

section \<open>\<open>Server::deleteConnection\<close> of day11\<close>

text \<open>The map and the descriptors closed; \<open>operator[]\<close> enters a null pointer for a descriptor that is not in the map.\<close>

definition day11_deleteConnection :: "int \<Rightarrow> (int \<rightharpoonup> nat) \<times> int list \<Rightarrow> (int \<rightharpoonup> nat) \<times> int list" where
  "day11_deleteConnection sockfd = (\<lambda>(connections, closed).
     let connections = (if connections sockfd = None then connections(sockfd \<mapsto> 0) else connections) in
     if connections sockfd \<noteq> None then (connections(sockfd := None), closed @ [sockfd]) else (connections, closed))"

lemma day11_closes_unknown: "day11_deleteConnection fd (Map.empty, closed) = (Map.empty, closed @ [fd])"
  by (simp add: day11_deleteConnection_def Let_def)

end
