(* ===== verification/Day_Channels.thy ===== *)
theory Day_Channels
  imports Day_Early
begin

text \<open>
  The servers of day05 to day09 of 30dayMakeCppServer: a \<open>Channel\<close> for every descriptor, whose address epoll keeps, and
  from day06 a callback in it that the loop calls. They are shown to implement the server of day04, which looks at
  descriptors only.
\<close>

section \<open>\<open>Channel\<close> and \<open>Epoll\<close>\<close>

text \<open>The callbacks that \<open>std::bind\<close> makes: \<open>newConnection\<close> and \<open>handReadEvent\<close>, with their argument.\<close>

datatype bound = New_Connection int | Hand_Read_Event int

record early_channel =
  ec_fd :: int
  ec_events :: "32 word"
  ec_revents :: "32 word"
  ec_inEpoll :: bool
  ec_callback :: "bound option"

definition early_Channel :: "int \<Rightarrow> early_channel" where
  "early_Channel fd = \<lparr>ec_fd = fd, ec_events = 0, ec_revents = 0, ec_inEpoll = False, ec_callback = None\<rparr>"

text \<open>
  The channels are never deleted: the address of a channel is its index in \<open>cs_channels\<close>. The interest list keeps the
  address and the events of a descriptor; \<open>cs_listen\<close> is the listening descriptor.
\<close>

record chan_server =
  cs_listen :: int
  cs_channels :: "early_channel list"
  cs_interest :: "int \<rightharpoonup> nat \<times> 32 word"
  cs_writes :: "(int \<times> string) list"

definition new_Channel :: "int \<Rightarrow> chan_server \<Rightarrow> nat \<times> chan_server" where
  "new_Channel fd s = (length (cs_channels s), s\<lparr>cs_channels := cs_channels s @ [early_Channel fd]\<rparr>)"

definition early_setCallback :: "nat \<Rightarrow> bound \<Rightarrow> chan_server \<Rightarrow> chan_server res" where
  "early_setCallback p cb s = res_bind (vat (cs_channels s) p) (\<lambda>c.
     Inr (s\<lparr>cs_channels := (cs_channels s)[p := c\<lparr>ec_callback := Some cb\<rparr>]\<rparr>))"

definition early_updateChannel :: "nat \<Rightarrow> chan_server \<Rightarrow> chan_server res" where
  "early_updateChannel p s = res_bind (vat (cs_channels s) p) (\<lambda>c.
     if \<not> ec_inEpoll c then
       res_bind (ctl_or_exit Add (ec_fd c) (p, ec_events c) (cs_interest s) ''epoll add error'') (\<lambda>k.
         Inr (s\<lparr>cs_interest := k, cs_channels := (cs_channels s)[p := c\<lparr>ec_inEpoll := True\<rparr>]\<rparr>))
     else
       res_bind (ctl_or_exit Mod (ec_fd c) (p, ec_events c) (cs_interest s) ''epoll modify error'') (\<lambda>k.
         Inr (s\<lparr>cs_interest := k\<rparr>)))"

definition early_enableReading :: "nat \<Rightarrow> chan_server \<Rightarrow> chan_server res" where
  "early_enableReading p s = res_bind (vat (cs_channels s) p) (\<lambda>c.
     early_updateChannel p (s\<lparr>cs_channels := (cs_channels s)[p := c\<lparr>ec_events := EPOLLIN OR EPOLLET\<rparr>]\<rparr>))"

text \<open>\<open>poll\<close>: the answer of \<open>epoll_wait\<close> has the address of the channel with each event; \<open>None\<close> is an error.\<close>

definition channel_poll :: "(nat \<times> 32 word) list option \<Rightarrow> chan_server \<Rightarrow> (chan_server \<times> nat list) res" where
  "channel_poll answer s = (case answer of
     None \<Rightarrow> Inl (Exit_Failure ''epoll wait error'')
   | Some evs \<Rightarrow> for_each evs (\<lambda>(p, ev) (s, activeChannels). res_bind (vat (cs_channels s) p) (\<lambda>c.
       Inr (s\<lparr>cs_channels := (cs_channels s)[p := c\<lparr>ec_revents := ev\<rparr>]\<rparr>, activeChannels @ [p]))) (s, []))"

section \<open>The servers of day05 and day06\<close>

definition channel_watch :: "int \<Rightarrow> bound \<Rightarrow> chan_server \<Rightarrow> chan_server res" where
  "channel_watch fd cb s = (case new_Channel fd s of (p, s) \<Rightarrow>
     res_bind (early_setCallback p cb s) (\<lambda>s. early_enableReading p s))"

text \<open>The constructor of \<open>Server\<close>.\<close>

definition day06_Server :: "int \<Rightarrow> bool \<Rightarrow> bool \<Rightarrow> chan_server res" where
  "day06_Server fd bind_failed listen_failed =
     res_bind (Socket_new fd) (\<lambda>fd.
     res_bind (socket_call bind_failed ''socket bind error'') (\<lambda>_.
     res_bind (socket_call listen_failed ''socket listen error'') (\<lambda>_.
       channel_watch fd (New_Connection fd) \<lparr>cs_listen = fd, cs_channels = [], cs_interest = Map.empty, cs_writes = []\<rparr>)))"

definition day06_newConnection :: "int \<Rightarrow> chan_server \<Rightarrow> chan_server res" where
  "day06_newConnection client s = res_bind (socket_accept client) (\<lambda>c. res_bind (Socket_new c) (\<lambda>c.
     channel_watch c (Hand_Read_Event c) s))"

definition handReadEvent :: "int \<Rightarrow> read_answer list \<Rightarrow> chan_server \<Rightarrow> chan_server res" where
  "handReadEvent sockfd rs s = res_bind (handleReadEvent rs []) (\<lambda>(out, closed).
     Inr (s\<lparr>cs_writes := cs_writes s @ map (Pair sockfd) out,
            cs_interest := (if closed then (cs_interest s)(sockfd := None) else cs_interest s)\<rparr>))"

text \<open>The callback decides; \<open>revents\<close> is not looked at.\<close>

definition day06_handleEvent :: "int \<Rightarrow> read_answer list \<Rightarrow> nat \<Rightarrow> chan_server \<Rightarrow> chan_server res" where
  "day06_handleEvent client rs p s = res_bind (vat (cs_channels s) p) (\<lambda>c. case ec_callback c of
     None \<Rightarrow> Inr s
   | Some (New_Connection serv_sock) \<Rightarrow> day06_newConnection client s
   | Some (Hand_Read_Event sockfd) \<Rightarrow> handReadEvent sockfd rs s)"

text \<open>In day05 the loop of \<open>main\<close> decides, and a channel has no callback.\<close>

definition day05_event :: "int \<Rightarrow> read_answer list \<Rightarrow> nat \<Rightarrow> chan_server \<Rightarrow> chan_server res" where
  "day05_event client rs p s = res_bind (vat (cs_channels s) p) (\<lambda>c.
     if ec_fd c = cs_listen s then
       res_bind (socket_accept client) (\<lambda>fd. res_bind (Socket_new fd) (\<lambda>fd.
         case new_Channel fd s of (q, s) \<Rightarrow> early_enableReading q s))
     else if ec_revents c AND EPOLLIN \<noteq> 0 then handReadEvent (ec_fd c) rs s
     else Inr s)"

section \<open>What an event does\<close>

text \<open>The view that day04 has of the state.\<close>

definition view :: "chan_server \<Rightarrow> early_server" where
  "view s = \<lparr>es_listen = cs_listen s, es_interest = (\<lambda>fd. map_option snd (cs_interest s fd)), es_writes = cs_writes s\<rparr>"

lemma view_sel [simp]:
  "es_listen (view s) = cs_listen s" "es_interest (view s) fd = map_option snd (cs_interest s fd)"
  "es_writes (view s) = cs_writes s"
  by (simp_all add: view_def)

text \<open>
  Epoll keeps the address of a channel of the same descriptor, with the channel's events; \<open>f\<close> gives the callback that the
  channel of a descriptor must have.
\<close>

definition channels_ok :: "(int \<Rightarrow> bound option) \<Rightarrow> chan_server \<Rightarrow> bool" where
  "channels_ok f s \<longleftrightarrow> (\<forall>fd p e. cs_interest s fd = Some (p, e) \<longrightarrow> p < length (cs_channels s) \<and>
     (\<exists>r. cs_channels s ! p = \<lparr>ec_fd = fd, ec_events = e, ec_revents = r, ec_inEpoll = True, ec_callback = f fd\<rparr>))"

definition callback_of :: "int \<Rightarrow> int \<Rightarrow> bound option" where
  "callback_of listen fd = Some (if fd = listen then New_Connection fd else Hand_Read_Event fd)"

definition watched :: "int \<Rightarrow> bound option \<Rightarrow> chan_server \<Rightarrow> chan_server" where
  "watched fd cb s = s\<lparr>cs_interest := (cs_interest s)(fd \<mapsto> (length (cs_channels s), EPOLLIN OR EPOLLET)),
     cs_channels := cs_channels s @ [\<lparr>ec_fd = fd, ec_events = EPOLLIN OR EPOLLET, ec_revents = 0, ec_inEpoll = True,
       ec_callback = cb\<rparr>]\<rparr>"

lemma channel_watch_outcome: "cs_interest s fd = None \<Longrightarrow> channel_watch fd cb s = Inr (watched fd (Some cb) s)"
  by (simp add: channel_watch_def new_Channel_def early_setCallback_def early_enableReading_def early_updateChannel_def
    early_Channel_def ctl_or_exit_def epoll_ctl_def watched_def)

lemma plain_watch_outcome:
  "cs_interest s fd = None \<Longrightarrow> (case new_Channel fd s of (q, s) \<Rightarrow> early_enableReading q s) = Inr (watched fd None s)"
  by (simp add: new_Channel_def early_enableReading_def early_updateChannel_def early_Channel_def ctl_or_exit_def
    epoll_ctl_def watched_def)

lemma channels_ok_watched:
  assumes "channels_ok f s" and "f fd = cb"
  shows "channels_ok f (watched fd cb s)"
  unfolding channels_ok_def
proof (intro allI impI)
  fix fd' p e
  assume k: "cs_interest (watched fd cb s) fd' = Some (p, e)"
  show "p < length (cs_channels (watched fd cb s)) \<and> (\<exists>r. cs_channels (watched fd cb s) ! p =
    \<lparr>ec_fd = fd', ec_events = e, ec_revents = r, ec_inEpoll = True, ec_callback = f fd'\<rparr>)"
  proof (cases "fd' = fd")
    case True
    with k assms(2) show ?thesis by (auto simp: watched_def)
  next
    case False
    with k have "cs_interest s fd' = Some (p, e)" by (simp add: watched_def)
    with assms(1) have "p < length (cs_channels s)" "\<exists>r. cs_channels s ! p =
      \<lparr>ec_fd = fd', ec_events = e, ec_revents = r, ec_inEpoll = True, ec_callback = f fd'\<rparr>"
      by (auto simp: channels_ok_def)
    then show ?thesis by (simp add: watched_def nth_append)
  qed
qed

text \<open>The next state, for an event \<open>r\<close> of the channel \<open>p\<close> of descriptor \<open>fd\<close>.\<close>

definition after_event ::
  "(int \<Rightarrow> bound option) \<Rightarrow> int \<Rightarrow> read_answer list \<Rightarrow> int \<times> 32 word \<Rightarrow> chan_server \<Rightarrow> chan_server" where
  "after_event f client rs ev s = (case ev of (fd, r) \<Rightarrow>
      if fd = cs_listen s then watched client (f client) s
      else if r AND EPOLLIN = 0 then s
      else s\<lparr>cs_writes := cs_writes s @ map (Pair fd) (map block (pieces rs)),
             cs_interest := (if ends rs = Some True then (cs_interest s)(fd := None) else cs_interest s)\<rparr>)"

lemma handReadEvent_outcome:
  assumes "reads_fit rs" and "ends rs \<noteq> None" and "fd \<noteq> cs_listen s" and "r AND EPOLLIN \<noteq> 0"
  shows "handReadEvent fd rs s = Inr (after_event f client rs (fd, r) s)"
proof -
  obtain closed where "ends rs = Some closed" using assms(2) by auto
  with handleReadEvent_blocks [OF assms(1), of closed "[]"] assms(3,4) show ?thesis
    by (simp add: handReadEvent_def after_event_def)
qed

text \<open>day06 acts on every event as on one that says readable; day05 looks at the events.\<close>

definition as_readable :: "32 word \<Rightarrow> 32 word" where
  "as_readable r = r OR EPOLLIN"

lemma as_readable_in: "as_readable r AND EPOLLIN \<noteq> 0"
proof -
  have "as_readable r AND EPOLLIN = EPOLLIN" unfolding as_readable_def by (rule word_ao_absorbs)
  then show ?thesis by simp
qed

lemma as_readable_same: "r AND EPOLLIN \<noteq> 0 \<Longrightarrow> as_readable r = r"
proof -
  assume "r AND EPOLLIN \<noteq> 0"
  then have "bit r 0" by (simp add: and_one_eq bit_0 odd_iff_mod_2_eq_one)
  then show ?thesis unfolding as_readable_def by (intro bit_word_eqI) (auto simp: bit_or_iff bit_1_iff)
qed

lemma event_outcomes:
  assumes k: "cs_interest s fd = Some (p, e)"
    and c: "p < length (cs_channels s)"
      "cs_channels s ! p = \<lparr>ec_fd = fd, ec_events = e, ec_revents = r, ec_inEpoll = True, ec_callback = f fd\<rparr>"
  shows "answers_ok (view s) (client, rs, fd, as_readable r) \<Longrightarrow> f = callback_of (cs_listen s) \<Longrightarrow>
      day06_handleEvent client rs p s = Inr (after_event f client rs (fd, as_readable r) s)"
    and "answers_ok (view s) (client, rs, fd, r) \<Longrightarrow> f = (\<lambda>_. None) \<Longrightarrow>
      day05_event client rs p s = Inr (after_event f client rs (fd, r) s)"
    and "answers_ok (view s) (client, rs, fd, r') \<Longrightarrow>
      early_event client rs (fd, r') (view s) = Inr (view (after_event f client rs (fd, r') s))"
proof -
  have free: "client \<noteq> -1 \<and> client \<noteq> fd \<and> cs_interest s client = None"
    if "answers_ok (view s) (client, rs, fd, m)" "fd = cs_listen s" for m
    using that k by (auto simp: answers_ok_def)
  have reads: "reads_fit rs" "ends rs \<noteq> None"
    if "answers_ok (view s) (client, rs, fd, m)" "fd \<noteq> cs_listen s" "m AND EPOLLIN \<noteq> 0" for m
    using that by (auto simp: answers_ok_def)
  show "day06_handleEvent client rs p s = Inr (after_event f client rs (fd, as_readable r) s)"
    if ok: "answers_ok (view s) (client, rs, fd, as_readable r)" and f: "f = callback_of (cs_listen s)"
  proof (cases "fd = cs_listen s")
    case True
    with free [OF ok True] c f show ?thesis
      by (simp add: day06_handleEvent_def callback_of_def day06_newConnection_def socket_accept_def Socket_new_def
        channel_watch_outcome after_event_def)
  next
    case False
    with c f handReadEvent_outcome [OF reads [OF ok False as_readable_in] False as_readable_in] show ?thesis
      by (simp add: day06_handleEvent_def callback_of_def)
  qed
  show "day05_event client rs p s = Inr (after_event f client rs (fd, r) s)"
    if ok: "answers_ok (view s) (client, rs, fd, r)" and f: "f = (\<lambda>_. None)"
  proof (cases "fd = cs_listen s")
    case True
    with free [OF ok True] c f plain_watch_outcome [of s client] show ?thesis
      by (simp add: day05_event_def socket_accept_def Socket_new_def after_event_def)
  next
    case False
    show ?thesis
    proof (cases "r AND EPOLLIN = 0")
      case True
      with False c f show ?thesis by (simp add: day05_event_def after_event_def)
    next
      case r: False
      with False c f handReadEvent_outcome [OF reads [OF ok False r] False r] show ?thesis by (simp add: day05_event_def)
    qed
  qed
  show "early_event client rs (fd, r') (view s) = Inr (view (after_event f client rs (fd, r') s))"
    if ok: "answers_ok (view s) (client, rs, fd, r')"
    unfolding early_event_outcome [OF ok]
    by (auto simp: after_event_def view_def watched_def fun_eq_iff)
qed

lemma channels_ok_after:
  assumes "channels_ok f s"
  shows "channels_ok f (after_event f client rs (fd, r) s)"
proof (cases "fd = cs_listen s")
  case True
  then show ?thesis using channels_ok_watched [OF assms] by (simp add: after_event_def)
next
  case False
  with assms show ?thesis by (auto simp: after_event_def channels_ok_def split: if_splits)
qed

section \<open>Rounds of the loop\<close>

definition set_revents :: "(nat \<times> 32 word) list \<Rightarrow> early_channel list \<Rightarrow> early_channel list" where
  "set_revents evs cs = fold (\<lambda>(p, ev) cs. cs[p := (cs ! p)\<lparr>ec_revents := ev\<rparr>]) evs cs"

lemma set_revents_simps [simp]:
  "set_revents [] cs = cs"
  "set_revents ((p, ev) # evs) cs = set_revents evs (cs[p := (cs ! p)\<lparr>ec_revents := ev\<rparr>])"
  by (simp_all add: set_revents_def)

lemma length_set_revents [simp]: "length (set_revents evs cs) = length cs"
  by (induction evs arbitrary: cs) auto

lemma nth_set_revents:
  "distinct (map fst evs) \<Longrightarrow> q < length cs \<Longrightarrow>
    set_revents evs cs ! q = (case map_of evs q of None \<Rightarrow> cs ! q | Some ev \<Rightarrow> (cs ! q)\<lparr>ec_revents := ev\<rparr>)"
proof (induction evs arbitrary: cs)
  case (Cons pe evs)
  obtain p ev where pe: "pe = (p, ev)" by force
  have "map_of evs p = None" using Cons.prems(1) by (simp add: pe map_of_eq_None_iff)
  with Cons show ?case by (cases "q = p") (auto simp: pe nth_list_update split: option.splits)
qed simp

lemma channel_poll_outcome:
  assumes "\<forall>(p, ev) \<in> set evs. p < length (cs_channels s)"
  shows "channel_poll (Some evs) s = Inr (s\<lparr>cs_channels := set_revents evs (cs_channels s)\<rparr>, map fst evs)"
proof -
  have "for_each evs (\<lambda>(p, ev) (s, activeChannels). res_bind (vat (cs_channels s) p) (\<lambda>c.
      Inr (s\<lparr>cs_channels := (cs_channels s)[p := c\<lparr>ec_revents := ev\<rparr>]\<rparr>, activeChannels @ [p]))) (s, act) =
    Inr (s\<lparr>cs_channels := set_revents evs (cs_channels s)\<rparr>, act @ map fst evs)" for act
    using assms by (induction evs arbitrary: s act) auto
  then show ?thesis by (simp add: channel_poll_def)
qed

text \<open>
  What epoll may report (any events of watched descriptors, hang-ups and errors included), and a round: \<open>epoll_wait\<close>, then one step for every active channel. The state has the channels that
  are still to be handled and the pieces read so far; \<open>eff\<close> is what the handler makes of the events.
\<close>

definition reportable :: "chan_server \<Rightarrow> (nat \<times> 32 word) list \<Rightarrow> bool" where
  "reportable s evs \<longleftrightarrow> distinct (map fst evs) \<and>
     (\<forall>(p, ev) \<in> set evs. \<exists>fd e. cs_interest s fd = Some (p, e))"

type_synonym chan_state = "chan_server \<times> nat list \<times> (int \<times> string) list"
type_synonym event_handler = "int \<Rightarrow> read_answer list \<Rightarrow> nat \<Rightarrow> chan_server \<Rightarrow> chan_server res"

inductive chan_step :: "(32 word \<Rightarrow> 32 word) \<Rightarrow> event_handler \<Rightarrow> chan_state \<Rightarrow> chan_state \<Rightarrow> bool" for eff handle where
  chan_poll: "reportable s evs \<Longrightarrow> channel_poll (Some evs) s = Inr (t, active) \<Longrightarrow>
    chan_step eff handle (s, [], ps) (t, active, ps)"
| chan_handle: "ev = (ec_fd (cs_channels s ! p), eff (ec_revents (cs_channels s ! p))) \<Longrightarrow>
    answers_ok (view s) (client, rs, ev) \<Longrightarrow> handle client rs p s = Inr t \<Longrightarrow>
    chan_step eff handle (s, p # active, ps) (t, active, ps @ (if fst ev \<noteq> cs_listen s \<and> snd ev AND EPOLLIN \<noteq> 0
      then map (Pair (fst ev)) (pieces rs) else []))"

definition pending :: "(int \<Rightarrow> bound option) \<Rightarrow> chan_server \<Rightarrow> nat \<Rightarrow> bool" where
  "pending f s p \<longleftrightarrow> (\<exists>fd e r. cs_interest s fd = Some (p, e) \<and> p < length (cs_channels s) \<and>
     cs_channels s ! p = \<lparr>ec_fd = fd, ec_events = e, ec_revents = r, ec_inEpoll = True, ec_callback = f fd\<rparr>)"

definition chan_inv :: "(int \<Rightarrow> int \<Rightarrow> bound option) \<Rightarrow> chan_state \<Rightarrow> bool" where
  "chan_inv g = (\<lambda>(s, active, ps). channels_ok (g (cs_listen s)) s \<and> distinct active \<and>
     (\<forall>p \<in> set active. pending (g (cs_listen s)) s p))"

lemma pending_after:
  assumes q: "pending f s q" and p: "cs_interest s fd = Some (p, e)" "p \<noteq> q"
    and free: "fd = cs_listen s \<Longrightarrow> cs_interest s client = None"
  shows "pending f (after_event f client rs (fd, m) s) q"
proof -
  obtain fd' e' r where k: "cs_interest s fd' = Some (q, e')" "q < length (cs_channels s)"
    "cs_channels s ! q = \<lparr>ec_fd = fd', ec_events = e', ec_revents = r, ec_inEpoll = True, ec_callback = f fd'\<rparr>"
    using q by (auto simp: pending_def)
  have ne: "fd' \<noteq> fd" using k(1) p by auto
  show ?thesis
  proof (cases "fd = cs_listen s")
    case True
    with free k(1) have "fd' \<noteq> client" by auto
    with True k show ?thesis
      unfolding pending_def by (intro exI [of _ fd'] exI [of _ e'] exI [of _ r]) (simp add: after_event_def watched_def nth_append)
  next
    case False
    with ne k show ?thesis
      unfolding pending_def by (intro exI [of _ fd'] exI [of _ e'] exI [of _ r]) (simp add: after_event_def)
  qed
qed

lemma poll_pending:
  assumes ok: "channels_ok f s" and evs: "reportable s evs"
  defines "t \<equiv> s\<lparr>cs_channels := set_revents evs (cs_channels s)\<rparr>"
  shows "channels_ok f t" and "\<forall>p \<in> set (map fst evs). pending f t p" and "channel_poll (Some evs) s = Inr (t, map fst evs)"
proof -
  have d: "distinct (map fst evs)" using evs by (simp add: reportable_def)
  show "channel_poll (Some evs) s = Inr (t, map fst evs)"
    unfolding t_def using ok evs by (intro channel_poll_outcome) (fastforce simp: reportable_def channels_ok_def)
  have at: "p < length (cs_channels t) \<and> cs_channels t ! p = \<lparr>ec_fd = fd, ec_events = e,
      ec_revents = (case map_of evs p of None \<Rightarrow> ec_revents (cs_channels s ! p) | Some ev \<Rightarrow> ev), ec_inEpoll = True, ec_callback = f fd\<rparr>"
    if "cs_interest s fd = Some (p, e)" for fd p e
  proof -
    from ok that obtain r where "p < length (cs_channels s)"
      "cs_channels s ! p = \<lparr>ec_fd = fd, ec_events = e, ec_revents = r, ec_inEpoll = True, ec_callback = f fd\<rparr>"
      unfolding channels_ok_def by blast
    with nth_set_revents [OF d, of p "cs_channels s"] show ?thesis by (simp add: t_def split: option.split)
  qed
  then show "channels_ok f t" unfolding channels_ok_def t_def by fastforce
  show "\<forall>p \<in> set (map fst evs). pending f t p"
  proof
    fix p
    assume "p \<in> set (map fst evs)"
    then obtain ev where pe: "(p, ev) \<in> set evs" by auto
    with evs obtain fd e where k: "cs_interest s fd = Some (p, e)" by (auto simp: reportable_def)
    have m: "map_of evs p = Some ev" using pe d by simp
    have i: "cs_interest t = cs_interest s" by (simp add: t_def)
    show "pending f t p" unfolding pending_def i using k at [OF k]
      by (intro exI [of _ fd] exI [of _ e] exI [of _ ev]) (simp add: m)
  qed
qed

section \<open>The server of day04 as the specification\<close>

text \<open>The contract of the handler of an event, of which day05 and day06 have one each.\<close>

locale event_driven =
  fixes start :: "chan_server \<Rightarrow> bool"
    and handle :: event_handler
    and g :: "int \<Rightarrow> int \<Rightarrow> bound option"
    and eff :: "32 word \<Rightarrow> 32 word"
  assumes starts: "start s \<Longrightarrow>
      \<exists>fd. s = watched fd (g fd fd) \<lparr>cs_listen = fd, cs_channels = [], cs_interest = Map.empty, cs_writes = []\<rparr>"
    and handles: "cs_interest s fd = Some (p, e) \<Longrightarrow> answers_ok (view s) (client, rs, fd, eff r) \<Longrightarrow>
      p < length (cs_channels s) \<Longrightarrow>
      cs_channels s ! p = \<lparr>ec_fd = fd, ec_events = e, ec_revents = r, ec_inEpoll = True, ec_callback = g (cs_listen s) fd\<rparr> \<Longrightarrow>
      handle client rs p s = Inr (after_event (g (cs_listen s)) client rs (fd, eff r) s)"
begin

definition begins :: "chan_state \<Rightarrow> bool" where
  "begins x \<longleftrightarrow> (\<exists>s. start s \<and> x = (s, [], []))"

lemma begins_ok:
  assumes "begins x"
  shows "chan_inv g x"
proof -
  obtain fd where "x = (watched fd (g fd fd) \<lparr>cs_listen = fd, cs_channels = [], cs_interest = Map.empty, cs_writes = []\<rparr>, [], [])"
    using assms starts by (auto simp: begins_def)
  then show ?thesis by (auto simp: chan_inv_def channels_ok_def watched_def split: if_splits)
qed

lemma handled:
  assumes p: "pending (g (cs_listen s)) s p"
    and ev: "ev = (ec_fd (cs_channels s ! p), eff (ec_revents (cs_channels s ! p)))"
    and ok: "answers_ok (view s) (client, rs, ev)"
  shows "handle client rs p s = Inr (after_event (g (cs_listen s)) client rs ev s)"
    and "early_event client rs ev (view s) = Inr (view (after_event (g (cs_listen s)) client rs ev s))"
  using p ok unfolding pending_def ev by (auto intro: handles event_outcomes(3))

lemma handle_inv:
  assumes inv: "chan_inv g (s, p # active, ps)"
    and ev: "ev = (ec_fd (cs_channels s ! p), eff (ec_revents (cs_channels s ! p)))"
    and ok: "answers_ok (view s) (client, rs, ev)"
  shows "chan_inv g (after_event (g (cs_listen s)) client rs ev s, active, ps')"
proof -
  let ?fd = "ec_fd (cs_channels s ! p)" and ?f = "g (cs_listen s)"
  have p: "pending ?f s p" using inv by (simp add: chan_inv_def)
  then obtain e where k: "cs_interest s ?fd = Some (p, e)" by (auto simp: pending_def)
  have free: "cs_interest s client = None" if "?fd = cs_listen s" using ok that by (auto simp: answers_ok_def ev)
  have l: "cs_listen (after_event ?f client rs ev s) = cs_listen s" by (simp add: after_event_def watched_def ev)
  have "pending ?f (after_event ?f client rs ev s) q" if "q \<in> set active" for q
    unfolding ev using inv that by (intro pending_after [OF _ k] free) (auto simp: chan_inv_def)
  moreover have "channels_ok ?f (after_event ?f client rs ev s)"
    unfolding ev using inv by (intro channels_ok_after) (simp add: chan_inv_def)
  ultimately show ?thesis using inv by (simp add: chan_inv_def l)
qed

lemma keeps:
  assumes "chan_inv g x" and "chan_step eff handle x y"
  shows "chan_inv g y"
  using assms(2)
proof cases
  case (chan_poll s evs t active ps)
  have ok: "channels_ok (g (cs_listen s)) s" using assms(1) chan_poll(1) by (simp add: chan_inv_def)
  note poll = poll_pending [OF ok chan_poll(3)]
  have t: "t = s\<lparr>cs_channels := set_revents evs (cs_channels s)\<rparr>" "active = map fst evs" using poll(3) chan_poll(4) by auto
  have l: "cs_listen t = cs_listen s" by (simp add: t)
  from poll(1,2) chan_poll(3) show ?thesis unfolding chan_poll(2) by (simp add: chan_inv_def l, simp add: t reportable_def)
next
  case (chan_handle ev s p client rs t active ps)
  have p: "pending (g (cs_listen s)) s p" using assms(1) chan_handle(1) by (simp add: chan_inv_def)
  have t: "t = after_event (g (cs_listen s)) client rs ev s"
    using handled(1) [OF p chan_handle(3,4)] chan_handle(5) by simp
  show ?thesis unfolding chan_handle(2) t using handle_inv [OF assms(1) [unfolded chan_handle(1)] chan_handle(3,4)] .
qed

lemma simulates_day04:
  assumes "chan_inv g x" and "chan_step eff handle x y"
  shows "early_step\<^sup>*\<^sup>* (case x of (s, active, ps) \<Rightarrow> (view s, ps)) (case y of (s, active, ps) \<Rightarrow> (view s, ps))"
  using assms(2)
proof cases
  case (chan_poll s evs t active ps)
  have ok: "channels_ok (g (cs_listen s)) s" using assms(1) chan_poll(1) by (simp add: chan_inv_def)
  have "t = s\<lparr>cs_channels := set_revents evs (cs_channels s)\<rparr>" using poll_pending(3) [OF ok chan_poll(3)] chan_poll(4) by simp
  then show ?thesis by (simp add: chan_poll(1,2) view_def)
next
  case (chan_handle ev s p client rs t active ps)
  have p: "pending (g (cs_listen s)) s p" using assms(1) chan_handle(1) by (simp add: chan_inv_def)
  have t: "t = after_event (g (cs_listen s)) client rs ev s"
    using handled(1) [OF p chan_handle(3,4)] chan_handle(5) by simp
  obtain fd m where ev: "ev = (fd, m)" by fastforce
  have "early_step (view s, ps) (view t, ps @ (if fd \<noteq> es_listen (view s) \<and> m AND EPOLLIN \<noteq> 0 then map (Pair fd) (pieces rs) else []))"
    using chan_handle(4) handled(2) [OF p chan_handle(3,4)] unfolding ev t by (rule early_step)
  then have "early_step\<^sup>*\<^sup>* (view s, ps)
      (view t, ps @ (if fd \<noteq> cs_listen s \<and> m AND EPOLLIN \<noteq> 0 then map (Pair fd) (pieces rs) else []))"
    unfolding view_sel by (rule r_into_rtranclp)
  then show ?thesis by (simp only: chan_handle(1,2) ev prod.case fst_conv snd_conv)
qed

end

sublocale event_driven \<subseteq> simulation begins "chan_step eff handle" "chan_inv g" "\<lambda>(s, active, ps). (view s, ps)" early_step
  by unfold_locales (fact begins_ok, fact keeps, fact simulates_day04)

text \<open>The set-up of day05, whose channels have no callback.\<close>

definition day05_start :: "int \<Rightarrow> bool \<Rightarrow> bool \<Rightarrow> bool \<Rightarrow> chan_server res" where
  "day05_start fd bind_failed listen_failed epoll_failed =
     res_bind (Socket_new fd) (\<lambda>fd.
     res_bind (socket_call bind_failed ''socket bind error'') (\<lambda>_.
     res_bind (socket_call listen_failed ''socket listen error'') (\<lambda>_.
     res_bind (errif epoll_failed ''epoll create error'') (\<lambda>_.
       case new_Channel fd \<lparr>cs_listen = fd, cs_channels = [], cs_interest = Map.empty, cs_writes = []\<rparr> of
         (p, s) \<Rightarrow> early_enableReading p s))))"

interpretation day06: event_driven "\<lambda>s. \<exists>fd. day06_Server fd False False = Inr s" day06_handleEvent callback_of as_readable
proof unfold_locales
  fix s
  assume "\<exists>fd. day06_Server fd False False = Inr s"
  then show "\<exists>fd. s = watched fd (callback_of fd fd) \<lparr>cs_listen = fd, cs_channels = [], cs_interest = Map.empty, cs_writes = []\<rparr>"
    by (auto simp: day06_Server_def Socket_new_def socket_call_def errif_def channel_watch_outcome callback_of_def split: if_splits)
qed (rule event_outcomes(1), simp_all)

interpretation day05: event_driven "\<lambda>s. \<exists>fd. day05_start fd False False False = Inr s" day05_event "\<lambda>_ _. None" "\<lambda>r. r"
proof unfold_locales
  fix s
  assume "\<exists>fd. day05_start fd False False False = Inr s"
  then show "\<exists>fd. s = watched fd None \<lparr>cs_listen = fd, cs_channels = [], cs_interest = Map.empty, cs_writes = []\<rparr>"
    by (auto simp: day05_start_def Socket_new_def socket_call_def errif_def plain_watch_outcome split: if_splits)
qed (rule event_outcomes(2), simp_all)

text \<open>C16: The server of day06 refines that of day04: every run of its rounds, with a channel and a callback for every
  descriptor and any events reported, is a run of the server that only knows descriptors, with the same writes, in which
  every reported event counts as readable (for an event with \<open>EPOLLIN\<close> that is the event itself; on one without it, such
  as a lone hang-up, day04 and day05 would do nothing, while day06 reads). An active channel is still watched when its
  turn comes, so its callback never works on a descriptor that was closed or reused before, and handling it succeeds with
  the effect that day04 has on the event counted as readable, and on the event itself when it has \<open>EPOLLIN\<close> or is of
  the listening descriptor.\<close>
theorem channels_refine_descriptors:
  assumes "day06_Server fd False False = Inr s0"
    and "(chan_step as_readable day06_handleEvent)\<^sup>*\<^sup>* (s0, [], []) (s, active, ps)"
  shows "early_init (view s0, []) \<and> early_step\<^sup>*\<^sup>* (view s0, []) (view s, ps) \<and>
    (\<forall>p \<in> set active. cs_interest s (ec_fd (cs_channels s ! p)) = Some (p, EPOLLIN OR EPOLLET) \<and>
      (\<forall>client rs fd r. fd = ec_fd (cs_channels s ! p) \<and> r = ec_revents (cs_channels s ! p) \<and>
          answers_ok (view s) (client, rs, fd, as_readable r) \<longrightarrow>
        (\<exists>t. day06_handleEvent client rs p s = Inr t \<and> early_event client rs (fd, as_readable r) (view s) = Inr (view t) \<and>
          (fd = cs_listen s \<or> r AND EPOLLIN \<noteq> 0 \<longrightarrow> early_event client rs (fd, r) (view s) = Inr (view t)))))"
proof -
  have b: "day06.begins (s0, [], [])" using assms(1) by (auto simp: day06.begins_def)
  have run: "early_step\<^sup>*\<^sup>* (view s0, []) (view s, ps)"
    using day06.run_simulated [OF assms(2) day06.begins_ok [OF b]] by simp
  have "fd \<noteq> -1" "s0 = watched fd (Some (New_Connection fd)) \<lparr>cs_listen = fd, cs_channels = [], cs_interest = Map.empty, cs_writes = []\<rparr>"
    using assms(1) by (auto simp: day06_Server_def Socket_new_def socket_call_def errif_def channel_watch_outcome split: if_splits)
  then have init: "early_init (view s0, [])"
    by (auto simp: early_init_def early_start_def view_def watched_def Socket_new_def socket_call_def errif_def addFd_def
      ctl_or_exit_def epoll_ctl_def fun_eq_iff intro!: exI [of _ fd])
  have early: "early_inv (view s, ps)" using early.reachable_inv [OF init run] .
  have inv: "chan_inv callback_of (s, active, ps)" using day06.reachable_inv [OF b assms(2)] .
  have "cs_interest s (ec_fd (cs_channels s ! p)) = Some (p, EPOLLIN OR EPOLLET)" if "p \<in> set active" for p
  proof -
    have "pending (callback_of (cs_listen s)) s p" using inv that by (simp add: chan_inv_def)
    then obtain e where "cs_interest s (ec_fd (cs_channels s ! p)) = Some (p, e)" by (auto simp: pending_def)
    with early show ?thesis by (auto simp: early_inv_def)
  qed
  moreover have "\<exists>t. day06_handleEvent client rs p s = Inr t \<and> early_event client rs (fd, as_readable r) (view s) = Inr (view t) \<and>
      (fd = cs_listen s \<or> r AND EPOLLIN \<noteq> 0 \<longrightarrow> early_event client rs (fd, r) (view s) = Inr (view t))"
    if "p \<in> set active" "fd = ec_fd (cs_channels s ! p)" "r = ec_revents (cs_channels s ! p)"
      "answers_ok (view s) (client, rs, fd, as_readable r)" for p client rs fd r
  proof -
    have pend: "pending (callback_of (cs_listen s)) s p" using inv that(1) by (simp add: chan_inv_def)
    note h = day06.handled [OF pend refl, of client rs, folded that(2,3), OF that(4)]
    have "early_event client rs (fd, r) (view s) = early_event client rs (fd, as_readable r) (view s)"
      if "fd = cs_listen s \<or> r AND EPOLLIN \<noteq> 0"
      using that as_readable_same [of r] by (auto simp: early_event_def)
    with h show ?thesis by metis
  qed
  ultimately show ?thesis using init run by blast
qed

text \<open>A client connects; in the next round only a hang-up (\<open>0x10\<close>) of it is reported, and day06 reads and closes.\<close>

definition demo_server :: "early_channel list \<Rightarrow> (int \<rightharpoonup> nat \<times> 32 word) \<Rightarrow> chan_server" where
  "demo_server cs k = \<lparr>cs_listen = 3, cs_channels = cs, cs_interest = k, cs_writes = []\<rparr>"

definition demo_channel :: "int \<Rightarrow> bound \<Rightarrow> 32 word \<Rightarrow> early_channel" where
  "demo_channel fd cb r =
     \<lparr>ec_fd = fd, ec_events = EPOLLIN OR EPOLLET, ec_revents = r, ec_inEpoll = True, ec_callback = Some cb\<rparr>"

theorem channels_refine_descriptors_witness:
  "\<exists>s t. (chan_step as_readable day06_handleEvent)\<^sup>*\<^sup>*
      (demo_server [demo_channel 3 (New_Connection 3) 0] [3 \<mapsto> (0, EPOLLIN OR EPOLLET)], [], []) (s, [1], []) \<and>
    ec_revents (cs_channels s ! 1) = 0x10 \<and> day06_handleEvent 0 [Eof] 1 s = Inr t \<and>
    early_event 0 [Eof] (4, as_readable 0x10) (view s) = Inr (view t) \<and> cs_interest t 4 = None"
proof -
  let ?k = "[3 \<mapsto> (0, EPOLLIN OR EPOLLET)] :: int \<rightharpoonup> nat \<times> 32 word"
  let ?k2 = "?k(4 \<mapsto> (1, EPOLLIN OR EPOLLET))"
  let ?l = "demo_channel 3 (New_Connection 3)" and ?c = "demo_channel 4 (Hand_Read_Event 4)"
  let ?init = "demo_server [?l 0] ?k" and ?s1 = "demo_server [?l EPOLLIN] ?k"
  let ?s2 = "demo_server [?l EPOLLIN, ?c 0] ?k2" and ?s3 = "demo_server [?l EPOLLIN, ?c 0x10] ?k2"
  have "watched 3 (Some (New_Connection 3)) \<lparr>cs_listen = 3, cs_channels = [], cs_interest = Map.empty, cs_writes = []\<rparr> = ?init"
    by (simp add: watched_def demo_server_def demo_channel_def)
  then have start: "day06_Server 3 False False = Inr ?init"
    by (simp add: day06_Server_def Socket_new_def socket_call_def channel_watch_outcome)
  have "channel_poll (Some [(0, EPOLLIN)]) ?init = Inr (?s1, [0])" "channel_poll (Some [(1, 0x10)]) ?s2 = Inr (?s3, [1])"
    by (simp_all add: channel_poll_def demo_server_def demo_channel_def)
  moreover have "reportable ?init [(0, EPOLLIN)]" by (auto simp: reportable_def demo_server_def intro: exI [of _ 3])
  moreover have "reportable ?s2 [(1, 0x10)]" by (auto simp: reportable_def demo_server_def intro!: exI [of _ 4])
  moreover have h: "day06_handleEvent 4 [] 0 ?s1 = Inr ?s2"
    by (simp add: day06_handleEvent_def demo_server_def demo_channel_def day06_newConnection_def socket_accept_def Socket_new_def
      channel_watch_outcome watched_def)
  moreover have "answers_ok (view ?s1) (4, [], 3, as_readable EPOLLIN)" by (simp add: answers_ok_def demo_server_def)
  ultimately have steps: "chan_step as_readable day06_handleEvent (?init, [], []) (?s1, [0], [])"
    "chan_step as_readable day06_handleEvent (?s1, [0], []) (?s2, [], [])"
    "chan_step as_readable day06_handleEvent (?s2, [], []) (?s3, [1], [])"
    using chan_poll [of ?init "[(0, EPOLLIN)]" ?s1 "[0]"] chan_poll [of ?s2 "[(1, 0x10)]" ?s3 "[1]"]
      chan_handle [of "(3, as_readable EPOLLIN)" ?s1 0 as_readable 4 "[]" day06_handleEvent ?s2 "[]" "[]"]
    by (simp_all add: demo_server_def demo_channel_def)
  then have r: "(chan_step as_readable day06_handleEvent)\<^sup>*\<^sup>* (?init, [], []) (?s3, [1], [])"
    by (meson rtranclp.rtrancl_into_rtrancl r_into_rtranclp)
  have "answers_ok (view ?s3) (0, [Eof], 4, as_readable 0x10)" by (simp add: answers_ok_def demo_server_def)
  with channels_refine_descriptors [OF start r] obtain t where t: "day06_handleEvent 0 [Eof] 1 ?s3 = Inr t"
    "early_event 0 [Eof] (4, as_readable 0x10) (view ?s3) = Inr (view t)"
    by (auto simp: demo_server_def demo_channel_def)
  then have "cs_interest t 4 = None"
    by (auto simp: day06_handleEvent_def handReadEvent_def demo_server_def demo_channel_def)
  with r t show ?thesis by (intro exI [of _ ?s3] exI [of _ t]) (simp add: demo_server_def demo_channel_def)
qed

text \<open>day05 refines it too.\<close>

lemma day05_refines:
  assumes "day05_start fd False False False = Inr s0" and "(chan_step (\<lambda>r. r) day05_event)\<^sup>*\<^sup>* (s0, [], []) (s, active, ps)"
  shows "early_step\<^sup>*\<^sup>* (view s0, []) (view s, ps)"
proof -
  have "day05.begins (s0, [], [])" using assms(1) by (auto simp: day05.begins_def)
  from day05.run_simulated [OF assms(2) day05.begins_ok [OF this]] show ?thesis by simp
qed

text \<open>
  They differ on an event without \<open>EPOLLIN\<close>, such as a lone hang-up: day05 leaves it, day06 reads and closes.
\<close>

lemma hang_up_differs:
  assumes "p < length (cs_channels s)" and "cs_listen s \<noteq> 4"
    and "cs_channels s ! p = \<lparr>ec_fd = 4, ec_events = EPOLLIN OR EPOLLET, ec_revents = 0x10, ec_inEpoll = True,
      ec_callback = Some (Hand_Read_Event 4)\<rparr>"
  shows "day05_event client [Eof] p s = Inr s \<and>
    day06_handleEvent client [Eof] p s = Inr (s\<lparr>cs_interest := (cs_interest s)(4 := None)\<rparr>)"
  using assms by (simp add: day05_event_def day06_handleEvent_def handReadEvent_def)

text \<open>A channel stays when its descriptor is closed: there are as many channels as there ever were connections.\<close>

lemma channels_leak: "handReadEvent fd [Eof] s = Inr t \<Longrightarrow> cs_channels t = cs_channels s"
  by (auto simp: handReadEvent_def)

section \<open>\<open>Connection\<close> and \<open>deleteConnection\<close> of day08 and day09\<close>

text \<open>
  The map \<open>connections\<close> (a null pointer is \<open>0\<close>) and the calls of \<open>close\<close>. The destructor of \<open>Connection\<close> deletes the channel
  and the socket; that of \<open>Socket\<close> closes the descriptor, and from day09 on that of \<open>Channel\<close> does as well.
\<close>

definition day08_Channel_destroy :: "int \<Rightarrow> int list" where
  "day08_Channel_destroy fd = []"

definition day09_Channel_destroy :: "int \<Rightarrow> int list" where
  "day09_Channel_destroy fd = (if fd \<noteq> -1 then [fd] else [])"

definition day08_Socket_destroy :: "int \<Rightarrow> int list" where
  "day08_Socket_destroy fd = (if fd \<noteq> -1 then [fd] else [])"

definition day08_Connection_destroy :: "(int \<Rightarrow> int list) \<Rightarrow> int \<Rightarrow> int list" where
  "day08_Connection_destroy Channel_destroy fd = Channel_destroy fd @ day08_Socket_destroy fd"

definition day08_deleteConnection :: "(int \<Rightarrow> int list) \<Rightarrow> int \<Rightarrow> (int \<rightharpoonup> nat) \<times> int list \<Rightarrow> (int \<rightharpoonup> nat) \<times> int list" where
  "day08_deleteConnection Channel_destroy fd = (\<lambda>(connections, closed).
     let connections = (if connections fd = None then connections(fd \<mapsto> 0) else connections); conn = the (connections fd) in
     if connections fd \<noteq> None
     then (connections(fd := None), closed @ (if conn = 0 then [] else day08_Connection_destroy Channel_destroy fd))
     else (connections, closed))"

lemma day08_closes_once:
  "0 \<le> fd \<Longrightarrow> 0 < conn \<Longrightarrow> connections fd = Some conn \<Longrightarrow>
    day08_deleteConnection day08_Channel_destroy fd (connections, closed) = (connections(fd := None), closed @ [fd])"
  by (simp add: day08_deleteConnection_def day08_Connection_destroy_def day08_Channel_destroy_def day08_Socket_destroy_def Let_def)

lemma day09_closes_twice:
  "0 \<le> fd \<Longrightarrow> 0 < conn \<Longrightarrow> connections fd = Some conn \<Longrightarrow>
    day08_deleteConnection day09_Channel_destroy fd (connections, closed) = (connections(fd := None), closed @ [fd, fd])"
  by (simp add: day08_deleteConnection_def day08_Connection_destroy_def day09_Channel_destroy_def day08_Socket_destroy_def Let_def)

end
