(* ===== verification/Day09_Echo.thy ===== *)
theory Day09_Echo
  imports Day_Early "HOL-Library.Sublist"
begin

text \<open>
  Client and echo server of day09 of 30dayMakeCppServer, joined by the two streams of a connection. The server collects
  what it reads in its buffer and writes it back once when the descriptor would block (src/Connection.cpp); the client
  (client.cpp) sends a line and reads until as many bytes have come back. \<open>Buffer\<close> is that of day12. The operations are
  the iterations of the loops of the code; a step relation interleaves them with the network, which delivers the bytes
  in order but in pieces of any size, and with signals. The server's descriptor is watched edge-triggered: the server is
  woken by bytes that arrive, not by bytes that are there.
\<close>

section \<open>The server\<close>

datatype echo_next = Echo_On string | Echo_Written string string | Echo_Deleted string

text \<open>One iteration of \<open>echo\<close>: \<open>r\<close> is the answer of \<open>read\<close>, \<open>w\<close> that of \<open>write\<close>, if it is called.\<close>

definition day09_echo_round :: "read_answer \<Rightarrow> write_answer \<Rightarrow> string \<Rightarrow> echo_next res" where
  "day09_echo_round r w readBuffer =
     (case r of
        Data bytes \<Rightarrow>
          if length bytes = 0 \<or> 1024 < length bytes then Inl Undefined
          else res_bind (day12_append readBuffer bytes (length bytes)) (\<lambda>readBuffer. Inr (Echo_On readBuffer))
      | Interrupted \<Rightarrow> Inr (Echo_On readBuffer)
      | Would_Block \<Rightarrow>
          (case w of
             Wrote n \<Rightarrow> if n \<le> day12_size readBuffer then Inr (Echo_Written (take n readBuffer) (day12_clear readBuffer))
                        else Inl Undefined
           | _ \<Rightarrow> Inl (Exit_Failure ''socket write error''))
      | Eof \<Rightarrow> Inr (Echo_Deleted readBuffer)
      | Failed \<Rightarrow> Inr (Echo_On readBuffer))"

fun day09_echo :: "read_answer list \<Rightarrow> write_answer \<Rightarrow> string \<Rightarrow> echo_next res" where
  "day09_echo [] w readBuffer = Inl Diverges"
| "day09_echo (r # rs) w readBuffer = res_bind (day09_echo_round r w readBuffer)
     (\<lambda>nxt. case nxt of Echo_On readBuffer \<Rightarrow> day09_echo rs w readBuffer | _ \<Rightarrow> Inr nxt)"

text \<open>The loop as a whole: pieces are put together and written once; a connection that was reset is read for ever.\<close>

lemma day12_append_clean: "CHR 0x00 \<notin> set x \<Longrightarrow> day12_append b x (length x) = Inr (b @ x)"
  using append_c_string [of x "length x" b] by (simp add: c_string_clean)

lemma day09_echo_collects:
  "list_all (\<lambda>d. 0 < length d \<and> length d \<le> 1024 \<and> CHR 0x00 \<notin> set d) ds \<Longrightarrow> n \<le> length (b @ concat ds) \<Longrightarrow>
    day09_echo (map Data ds @ [Would_Block]) (Wrote n) b = Inr (Echo_Written (take n (b @ concat ds)) [])"
  by (induction ds arbitrary: b)
    (simp_all add: day09_echo_round_def day12_size_def day12_clear_def day12_append_clean)

lemma day09_echo_reset: "list_all (\<lambda>r. r = Failed) rs \<Longrightarrow> day09_echo rs w b = Inl Diverges"
  by (induction rs) (auto simp: day09_echo_round_def)

section \<open>The client\<close>

text \<open>\<open>write\<close> of the line; the number of bytes it took is not looked at. \<open>None\<close> ends the loop.\<close>

definition day09_client_send :: "string \<Rightarrow> write_answer \<Rightarrow> string option" where
  "day09_client_send sendBuffer w = (case w of Wrote n \<Rightarrow> Some (take n sendBuffer) | _ \<Rightarrow> None)"

datatype client_next = Client_Reads nat string | Client_Shows string | Client_Exits

definition day09_client_read :: "nat \<Rightarrow> read_answer \<Rightarrow> nat \<Rightarrow> string \<Rightarrow> client_next res" where
  "day09_client_read data_size r already_read readBuffer =
     (let check = (\<lambda>already_read readBuffer. Inr (if data_size \<le> already_read then Client_Shows readBuffer
                     else Client_Reads already_read readBuffer))
      in case r of
           Data bytes \<Rightarrow>
             if length bytes = 0 \<or> 1024 < length bytes then Inl Undefined
             else res_bind (day12_append readBuffer bytes (length bytes)) (check (already_read + length bytes))
         | Eof \<Rightarrow> Inr Client_Exits
         | _ \<Rightarrow> check already_read readBuffer)"

text \<open>The loop of the client of day12 is the iteration of this.\<close>

lemma client_reads_rounds:
  "client_reads data_size k b (r # rs) = res_bind (day09_client_read data_size r k b)
     (\<lambda>nxt. case nxt of Client_Reads k b \<Rightarrow> client_reads data_size k b rs | Client_Shows b \<Rightarrow> Inr (Some b)
                      | Client_Exits \<Rightarrow> Inr None)"
proof (cases r)
  case (Data bytes)
  show ?thesis by (cases "day12_append b bytes (length bytes)") (simp_all add: Data day09_client_read_def Let_def)
qed (simp_all add: day09_client_read_def Let_def)

section \<open>The system\<close>

record round_trip =
  rt_lines :: "string list"
  rt_client :: "(string \<times> nat \<times> string) option"
  rt_shown :: "string list"
  rt_net :: string
  rt_sock :: string
  rt_edge :: bool
  rt_active :: bool
  rt_buf :: string
  rt_down :: string
  rt_signals :: nat

text \<open>
  \<open>rt_client\<close> is the message sent with what has been read of the answer, \<open>rt_net\<close> the bytes on their way to the server,
  \<open>rt_sock\<close> those in its socket, \<open>rt_edge\<close> whether an event is pending for \<open>epoll_wait\<close>, \<open>rt_active\<close> whether the server is
  in \<open>echo\<close>, \<open>rt_buf\<close> its buffer and \<open>rt_down\<close> the bytes on their way back. Of the signals a finite number interrupts a read.
\<close>

definition rt_start :: "string list \<Rightarrow> nat \<Rightarrow> round_trip" where
  "rt_start lines n = \<lparr>rt_lines = lines, rt_client = None, rt_shown = [], rt_net = [], rt_sock = [], rt_edge = False,
     rt_active = False, rt_buf = [], rt_down = [], rt_signals = n\<rparr>"

text \<open>\<open>whole\<close> says that \<open>write\<close> takes all bytes it is given.\<close>

inductive rt_step :: "bool \<Rightarrow> round_trip \<Rightarrow> round_trip \<Rightarrow> bool" for whole where
  send: "rt_client s = None \<Longrightarrow> rt_lines s = l # ls \<Longrightarrow> (whole \<Longrightarrow> n = length l) \<Longrightarrow>
    day09_client_send l (Wrote n) = Some x \<Longrightarrow>
    rt_step whole s (s\<lparr>rt_lines := ls, rt_client := Some (l, 0, []), rt_net := rt_net s @ x\<rparr>)"
| deliver: "rt_net s = x @ y \<Longrightarrow> x \<noteq> [] \<Longrightarrow>
    rt_step whole s (s\<lparr>rt_net := y, rt_sock := rt_sock s @ x, rt_edge := True\<rparr>)"
| wake: "\<not> rt_active s \<Longrightarrow> rt_edge s \<Longrightarrow> rt_step whole s (s\<lparr>rt_active := True, rt_edge := False\<rparr>)"
| receive: "rt_active s \<Longrightarrow> rt_sock s = x @ y \<Longrightarrow> day09_echo_round (Data x) w (rt_buf s) = Inr (Echo_On b) \<Longrightarrow>
    rt_step whole s (s\<lparr>rt_sock := y, rt_buf := b\<rparr>)"
| signal: "rt_active s \<Longrightarrow> rt_signals s = Suc n \<Longrightarrow> day09_echo_round Interrupted w (rt_buf s) = Inr (Echo_On b) \<Longrightarrow>
    rt_step whole s (s\<lparr>rt_signals := n, rt_buf := b\<rparr>)"
| drain: "rt_active s \<Longrightarrow> rt_sock s = [] \<Longrightarrow> (whole \<Longrightarrow> n = length (rt_buf s)) \<Longrightarrow>
    day09_echo_round Would_Block (Wrote n) (rt_buf s) = Inr (Echo_Written x b) \<Longrightarrow>
    rt_step whole s (s\<lparr>rt_active := False, rt_buf := b, rt_down := rt_down s @ x\<rparr>)"
| answer: "rt_client s = Some (m, k, rb) \<Longrightarrow> rt_down s = x @ y \<Longrightarrow>
    day09_client_read (length m) (Data x) k rb = Inr (Client_Reads k' rb') \<Longrightarrow>
    rt_step whole s (s\<lparr>rt_client := Some (m, k', rb'), rt_down := y\<rparr>)"
| shown: "rt_client s = Some (m, k, rb) \<Longrightarrow> rt_down s = x @ y \<Longrightarrow>
    day09_client_read (length m) (Data x) k rb = Inr (Client_Shows t) \<Longrightarrow>
    rt_step whole s (s\<lparr>rt_client := None, rt_shown := rt_shown s @ [t], rt_down := y\<rparr>)"

section \<open>Invariant\<close>

text \<open>What is underway is one message, in the order client, way back, server, socket, way there.\<close>

definition rt_inv :: "string list \<Rightarrow> round_trip \<Rightarrow> bool" where
  "rt_inv lines s \<longleftrightarrow>
     (case rt_client s of
        None \<Rightarrow> rt_down s @ rt_buf s @ rt_sock s @ rt_net s = [] \<and> rt_shown s @ rt_lines s = lines
      | Some (m, k, rb) \<Rightarrow> rb @ rt_down s @ rt_buf s @ rt_sock s @ rt_net s = m \<and> k = length rb \<and> length rb < length m
          \<and> rt_shown s @ m # rt_lines s = lines) \<and>
     (rt_sock s \<noteq> [] \<longrightarrow> rt_edge s \<or> rt_active s) \<and> (rt_buf s \<noteq> [] \<longrightarrow> rt_active s)"

definition clean_lines :: "string list \<Rightarrow> bool" where
  "clean_lines lines \<longleftrightarrow> list_all (\<lambda>l. l \<noteq> [] \<and> CHR 0x00 \<notin> set l) lines"

lemma rt_inv_step:
  assumes clean: "clean_lines lines" and inv: "rt_inv lines s" and step: "rt_step True s t"
  shows "rt_inv lines t"
  using step
proof cases
  case (send l ls n x)
  have "l \<noteq> []" using inv clean send(2,3) by (auto simp: rt_inv_def clean_lines_def)
  moreover have "x = l" using send(4,5) by (simp add: day09_client_send_def)
  ultimately show ?thesis using inv send(1-3) by (simp add: rt_inv_def)
next
  case (deliver x y)
  then show ?thesis using inv by (auto simp: rt_inv_def split: option.splits)
next
  case wake
  then show ?thesis using inv by (auto simp: rt_inv_def split: option.splits)
next
  case (receive x y w b)
  then obtain m k rb where c: "rt_client s = Some (m, k, rb)" using inv
    by (cases "rt_client s") (auto simp: rt_inv_def day09_echo_round_def split: if_splits)
  then have "CHR 0x00 \<notin> set x" using inv clean receive(3) by (auto simp: rt_inv_def clean_lines_def)
  then have "b = rt_buf s @ x"
    using receive(4) by (auto simp: day09_echo_round_def day12_append_clean split: if_splits)
  then show ?thesis using inv receive(1-3) c by (auto simp: rt_inv_def)
next
  case (signal n w b)
  then show ?thesis using inv by (auto simp: rt_inv_def day09_echo_round_def split: option.splits)
next
  case (drain n x b)
  have "x = rt_buf s" "b = []"
    using drain(4,5) by (auto simp: day09_echo_round_def day12_size_def day12_clear_def)
  then show ?thesis using inv drain(1-3) by (auto simp: rt_inv_def split: option.splits)
next
  case (answer m k rb x y k' rb')
  have "CHR 0x00 \<notin> set x" using inv clean answer(2,3) by (auto simp: rt_inv_def clean_lines_def)
  then have "rb' = rb @ x" "k' = k + length x" "\<not> length m \<le> k'"
    using answer(4) by (auto simp: day09_client_read_def day12_append_clean Let_def split: if_splits)
  then show ?thesis using inv answer(1-3) by (auto simp: rt_inv_def)
next
  case (shown m k rb x y u)
  have "CHR 0x00 \<notin> set x" using inv clean shown(2,3) by (auto simp: rt_inv_def clean_lines_def)
  then have u: "u = rb @ x" "length m \<le> k + length x"
    using shown(4) by (auto simp: day09_client_read_def day12_append_clean Let_def split: if_splits)
  have m: "rb @ x @ y @ rt_buf s @ rt_sock s @ rt_net s = m" "k = length rb"
    using inv shown(2,3) by (auto simp: rt_inv_def)
  then have "y @ rt_buf s @ rt_sock s @ rt_net s = []" using u(2) by auto
  with m(1) u(1) show ?thesis using inv shown(1-3) by (simp add: rt_inv_def)
qed

lemma rt_start_inv: "rt_inv lines (rt_start lines n)"
  by (simp add: rt_inv_def rt_start_def)

interpretation rt: invariant_system "\<lambda>s. \<exists>n. s = rt_start lines n" "rt_step True" "\<lambda>s. clean_lines lines \<longrightarrow> rt_inv lines s"
  for lines
  by unfold_locales (auto simp: rt_start_inv intro: rt_inv_step)

section \<open>Progress and the number of steps\<close>

lemma client_read_one:
  assumes "c \<noteq> CHR 0x00"
  shows "(\<exists>k' rb'. day09_client_read n (Data [c]) k rb = Inr (Client_Reads k' rb')) \<or>
    (\<exists>t. day09_client_read n (Data [c]) k rb = Inr (Client_Shows t))"
  using assms day12_append_clean [of "[c]" rb] by (simp add: day09_client_read_def Let_def)

lemma rt_receives:
  assumes "rt_active s" and "rt_sock s = c # y" and "c \<noteq> CHR 0x00"
  shows "\<exists>t. rt_step whole s t"
proof -
  have "day09_echo_round (Data [c]) Write_Again (rt_buf s) = Inr (Echo_On (rt_buf s @ [c]))"
    using day12_append_clean [of "[c]" "rt_buf s"] assms(3) by (simp add: day09_echo_round_def)
  then show ?thesis using rt_step.receive [OF assms(1), of "[c]" y] assms(2) by auto
qed

lemma rt_progress:
  assumes clean: "clean_lines lines" and inv: "rt_inv lines s" and stuck: "\<not> (\<exists>t. rt_step True s t)"
  shows "rt_shown s = lines"
proof (cases "rt_client s")
  case None
  have "rt_lines s = []"
  proof (cases "rt_lines s")
    case (Cons l ls)
    then show ?thesis
      using stuck rt_step.send [OF None Cons, of True "length l"] by (auto simp: day09_client_send_def)
  qed simp
  with inv None show ?thesis by (simp add: rt_inv_def)
next
  case (Some c)
  obtain m k rb where c: "c = (m, k, rb)" by (cases c)
  have all: "rb @ rt_down s @ rt_buf s @ rt_sock s @ rt_net s = m" "length rb < length m"
    and awake: "rt_sock s \<noteq> [] \<longrightarrow> rt_edge s \<or> rt_active s" "rt_buf s \<noteq> [] \<longrightarrow> rt_active s"
    and m: "CHR 0x00 \<notin> set m"
    using inv clean Some c by (auto simp: rt_inv_def clean_lines_def)
  have "rt_net s = []" using stuck rt_step.deliver [of s "rt_net s" "[]"] by auto
  moreover have "rt_down s = []"
  proof (cases "rt_down s")
    case (Cons b y)
    then have "b \<noteq> CHR 0x00" using m all(1) by auto
    with client_read_one [of b "length m" k rb] Cons Some c stuck
      rt_step.answer [of s m k rb "[b]" y _ _ True] rt_step.shown [of s m k rb "[b]" y _ True]
    show ?thesis by (metis append_Cons append_Nil)
  qed simp
  moreover have sock: "rt_sock s = []"
  proof (cases "rt_sock s")
    case (Cons b y)
    then have "b \<noteq> CHR 0x00" using m all(1) by auto
    moreover have "rt_active s" using awake(1) Cons stuck rt_step.wake [of s True] by auto
    ultimately show ?thesis using rt_receives [OF _ Cons] stuck by blast
  qed simp
  moreover have "rt_buf s = []"
  proof (rule ccontr)
    assume "rt_buf s \<noteq> []"
    then have "rt_active s" using awake(2) by simp
    from rt_step.drain [OF this sock, of True "length (rt_buf s)"] stuck
    show False by (auto simp: day09_echo_round_def day12_size_def)
  qed
  ultimately have "m = rb" using all(1) by simp
  with all(2) show ?thesis by simp
qed

text \<open>A bound for the steps that remain.\<close>

definition rt_measure :: "round_trip \<Rightarrow> nat" where
  "rt_measure s = rt_signals s + sum_list (map (\<lambda>l. 5 * length l + 1) (rt_lines s)) + 5 * length (rt_net s)
     + 2 * length (rt_sock s) + length (rt_buf s) + length (rt_down s) + (if rt_edge s then 2 else 0)
     + (if rt_active s then 1 else 0)"

lemma append_length: "day12_append b x n = Inr b' \<Longrightarrow> length b' \<le> length b + n"
  by (induction b x n rule: day12_append.induct) (auto split: if_splits)

lemma rt_step_measure: "rt_step whole s t \<Longrightarrow> rt_measure t < rt_measure s"
proof (induction rule: rt_step.induct)
  case (deliver s x y)
  then have "1 \<le> length x" by (cases x) auto
  with deliver show ?case by (simp add: rt_measure_def)
next
  case (receive s x y w b)
  then have "length b \<le> length (rt_buf s) + length x" "1 \<le> length x"
    using append_length by (auto simp: day09_echo_round_def Suc_le_eq split: if_splits)
  with receive show ?case by (simp add: rt_measure_def)
next
  case (drain s n x b)
  then have "length x \<le> length (rt_buf s)" "b = []"
    by (auto simp: day09_echo_round_def day12_size_def day12_clear_def split: if_splits)
  with drain show ?case by (simp add: rt_measure_def)
next
  case (answer s m k rb x y k' rb')
  then have "1 \<le> length x" by (auto simp: day09_client_read_def Suc_le_eq split: if_splits)
  with answer show ?case by (cases x) (simp_all add: rt_measure_def)
next
  case (shown s m k rb x y t)
  then have "1 \<le> length x" by (auto simp: day09_client_read_def Suc_le_eq split: if_splits)
  with shown show ?case by (cases x) (simp_all add: rt_measure_def)
next
  case (signal s n w b)
  then show ?case by (simp add: rt_measure_def day09_echo_round_def)
qed (auto simp: rt_measure_def day09_client_send_def)

lemma rt_steps_bound: "(rt_step whole ^^ n) s t \<Longrightarrow> n + rt_measure t \<le> rt_measure s"
proof (induction n arbitrary: t)
  case (Suc n)
  then obtain u where "(rt_step whole ^^ n) s u" "rt_step whole u t" by auto
  with Suc.IH rt_step_measure show ?case by fastforce
qed simp

lemma rt_never_fails:
  assumes "clean_lines lines" and "rt_inv lines s"
  shows "rt_sock s = x @ y \<Longrightarrow> 0 < length x \<Longrightarrow> length x \<le> 1024 \<Longrightarrow>
      day09_echo_round (Data x) w (rt_buf s) = Inr (Echo_On (rt_buf s @ x))"
    and "rt_client s = Some (m, k, rb) \<Longrightarrow> rt_down s = x @ y \<Longrightarrow> 0 < length x \<Longrightarrow> length x \<le> 1024 \<Longrightarrow>
      \<exists>nxt. day09_client_read (length m) (Data x) k rb = Inr nxt"
proof -
  show "day09_echo_round (Data x) w (rt_buf s) = Inr (Echo_On (rt_buf s @ x))"
    if "rt_sock s = x @ y" "0 < length x" "length x \<le> 1024"
  proof -
    have "CHR 0x00 \<notin> set x"
      using assms that(1,2) by (cases "rt_client s") (auto simp: rt_inv_def clean_lines_def)
    with that show ?thesis by (simp add: day09_echo_round_def day12_append_clean)
  qed
  show "\<exists>nxt. day09_client_read (length m) (Data x) k rb = Inr nxt"
    if "rt_client s = Some (m, k, rb)" "rt_down s = x @ y" "0 < length x" "length x \<le> 1024"
  proof -
    have "CHR 0x00 \<notin> set x" using assms that(1,2) by (auto simp: rt_inv_def clean_lines_def)
    with that show ?thesis by (simp add: day09_client_read_def day12_append_clean)
  qed
qed

section \<open>Properties\<close>

text \<open>C17: The round trip of day09: when the server's \<open>write\<close> takes all it is given and no line is empty or has a null
  character, then in every interleaving of client, server and network, however the network cuts the streams, what the
  client has shown are the first lines in their order, a run has at most five steps for every byte, one for every line
  and one for every signal, and it can only end when all lines have been shown: no byte is lost or comes back twice,
  and no edge-triggered event is missed.\<close>
theorem day09_round_trip:
  assumes "list_all (\<lambda>l. l \<noteq> [] \<and> CHR 0x00 \<notin> set l) lines" and "(rt_step True ^^ n) (rt_start lines signals) s"
  shows "prefix (rt_shown s) lines \<and> n \<le> signals + sum_list (map (\<lambda>l. 5 * length l + 1) lines) \<and>
    ((\<nexists>t. rt_step True s t) \<longrightarrow> rt_shown s = lines)"
proof -
  have clean: "clean_lines lines" using assms(1) by (simp add: clean_lines_def)
  have "(rt_step True)\<^sup>*\<^sup>* (rt_start lines signals) s" using assms(2) by (rule relpowp_imp_rtranclp)
  then have inv: "rt_inv lines s" using rt.reachable_inv [of "rt_start lines signals" lines s] clean by blast
  then have "prefix (rt_shown s) lines"
    by (auto simp: rt_inv_def prefix_def split: option.splits)
  moreover have "n \<le> signals + sum_list (map (\<lambda>l. 5 * length l + 1) lines)"
    using rt_steps_bound [OF assms(2)] by (simp add: rt_measure_def rt_start_def)
  ultimately show ?thesis using rt_progress [OF clean inv] by blast
qed

text \<open>A whole run: the line is delivered, collected, written back and shown.\<close>

definition rt_state :: "string list \<Rightarrow> (string \<times> nat \<times> string) option \<Rightarrow> string list \<Rightarrow> string \<Rightarrow> string \<Rightarrow> bool \<Rightarrow> bool \<Rightarrow>
    string \<Rightarrow> string \<Rightarrow> round_trip" where
  "rt_state lines client shown net sock edge active buf down = \<lparr>rt_lines = lines, rt_client = client, rt_shown = shown,
     rt_net = net, rt_sock = sock, rt_edge = edge, rt_active = active, rt_buf = buf, rt_down = down, rt_signals = 0\<rparr>"

lemma rt_state_sel [simp]:
  "rt_lines (rt_state l c sh n so e a b d) = l" "rt_client (rt_state l c sh n so e a b d) = c"
  "rt_shown (rt_state l c sh n so e a b d) = sh" "rt_net (rt_state l c sh n so e a b d) = n"
  "rt_sock (rt_state l c sh n so e a b d) = so" "rt_edge (rt_state l c sh n so e a b d) = e"
  "rt_active (rt_state l c sh n so e a b d) = a" "rt_buf (rt_state l c sh n so e a b d) = b"
  "rt_down (rt_state l c sh n so e a b d) = d"
  by (simp_all add: rt_state_def)

lemma rt_state_start: "rt_start lines 0 = rt_state lines None [] [] [] False False [] []"
  by (simp add: rt_start_def rt_state_def)

lemma rt_moves:
  "rt_step whole (rt_state (x # ls) None sh n so e a b d) (rt_state ls (Some (x, 0, [])) sh (n @ x) so e a b d)"
  "x \<noteq> [] \<Longrightarrow> rt_step whole (rt_state ls c sh x so e a b d) (rt_state ls c sh [] (so @ x) True a b d)"
  "rt_step whole (rt_state ls c sh n so True False b d) (rt_state ls c sh n so False True b d)"
  "x \<noteq> [] \<Longrightarrow> length x \<le> 1024 \<Longrightarrow> CHR 0x00 \<notin> set x \<Longrightarrow>
     rt_step whole (rt_state ls c sh n x e True b d) (rt_state ls c sh n [] e True (b @ x) d)"
  "k = length b \<or> \<not> whole \<and> k \<le> length b \<Longrightarrow>
     rt_step whole (rt_state ls c sh n [] e True b d) (rt_state ls c sh n [] e False [] (d @ take k b))"
  "x \<noteq> [] \<Longrightarrow> length x \<le> 1024 \<Longrightarrow> CHR 0x00 \<notin> set x \<Longrightarrow> length m \<le> k + length x \<Longrightarrow>
     rt_step whole (rt_state ls (Some (m, k, rb)) sh n so e a b x) (rt_state ls None (sh @ [rb @ x]) n so e a b [])"
  "x \<noteq> [] \<Longrightarrow> length x \<le> 1024 \<Longrightarrow> CHR 0x00 \<notin> set x \<Longrightarrow> k + length x < length m \<Longrightarrow>
     rt_step whole (rt_state ls (Some (m, k, rb)) sh n so e a b x)
       (rt_state ls (Some (m, k + length x, rb @ x)) sh n so e a b [])"
proof -
  show "rt_step whole (rt_state (x # ls) None sh n so e a b d) (rt_state ls (Some (x, 0, [])) sh (n @ x) so e a b d)"
    using rt_step.send [of "rt_state (x # ls) None sh n so e a b d" x ls whole "length x" x]
    by (simp add: day09_client_send_def) (simp add: rt_state_def)
  show "rt_step whole (rt_state ls c sh x so e a b d) (rt_state ls c sh [] (so @ x) True a b d)" if "x \<noteq> []"
    using rt_step.deliver [of "rt_state ls c sh x so e a b d" x "[]" whole] that by simp (simp add: rt_state_def)
  show "rt_step whole (rt_state ls c sh n so True False b d) (rt_state ls c sh n so False True b d)"
    using rt_step.wake [of "rt_state ls c sh n so True False b d" whole] by simp (simp add: rt_state_def)
  show "rt_step whole (rt_state ls c sh n x e True b d) (rt_state ls c sh n [] e True (b @ x) d)"
    if "x \<noteq> []" "length x \<le> 1024" "CHR 0x00 \<notin> set x"
    using rt_step.receive [of "rt_state ls c sh n x e True b d" x "[]" Write_Again "b @ x" whole] that
    by (simp add: day09_echo_round_def day12_append_clean) (simp add: rt_state_def)
  show "rt_step whole (rt_state ls c sh n [] e True b d) (rt_state ls c sh n [] e False [] (d @ take k b))"
    if "k = length b \<or> \<not> whole \<and> k \<le> length b"
    using rt_step.drain [of "rt_state ls c sh n [] e True b d" whole k "take k b" "[]"] that
    by (simp add: day09_echo_round_def day12_size_def day12_clear_def) (auto simp: rt_state_def day12_clear_def)
  show "rt_step whole (rt_state ls (Some (m, k, rb)) sh n so e a b x) (rt_state ls None (sh @ [rb @ x]) n so e a b [])"
    if "x \<noteq> []" "length x \<le> 1024" "CHR 0x00 \<notin> set x" "length m \<le> k + length x"
    using rt_step.shown [of "rt_state ls (Some (m, k, rb)) sh n so e a b x" m k rb x "[]" "rb @ x" whole] that
    by (simp add: day09_client_read_def day12_append_clean) (simp add: rt_state_def)
  show "rt_step whole (rt_state ls (Some (m, k, rb)) sh n so e a b x)
       (rt_state ls (Some (m, k + length x, rb @ x)) sh n so e a b [])"
    if "x \<noteq> []" "length x \<le> 1024" "CHR 0x00 \<notin> set x" "k + length x < length m"
    using rt_step.answer [of "rt_state ls (Some (m, k, rb)) sh n so e a b x" m k rb x "[]" "k + length x" "rb @ x" whole] that
    by (simp add: day09_client_read_def day12_append_clean) (simp add: rt_state_def)
qed

lemma rt_demo_collects:
  "(rt_step whole ^^ 4) (rt_start [''hi''] 0) (rt_state [] (Some (''hi'', 0, [])) [] [] [] False True ''hi'' [])"
proof -
  let ?c = "Some (''hi'', 0, [])"
  have "rt_step whole (rt_start [''hi''] 0) (rt_state [] ?c [] ''hi'' [] False False [] [])"
    using rt_moves(1) [of whole "''hi''" "[]" "[]" "[]" "[]" False False "[]" "[]"] by (simp add: rt_state_start)
  moreover have "rt_step whole (rt_state [] ?c [] ''hi'' [] False False [] []) (rt_state [] ?c [] [] ''hi'' True False [] [])"
    using rt_moves(2) [of "''hi''" whole "[]" ?c "[]" "[]"] by simp
  moreover have "rt_step whole (rt_state [] ?c [] [] ''hi'' True False [] []) (rt_state [] ?c [] [] ''hi'' False True [] [])"
    by (rule rt_moves)
  moreover have "rt_step whole (rt_state [] ?c [] [] ''hi'' False True [] []) (rt_state [] ?c [] [] [] False True ''hi'' [])"
    using rt_moves(4) [of "''hi''" whole "[]" ?c "[]" "[]" False "[]"] by simp
  ultimately have "(rt_step whole ^^ Suc (Suc (Suc (Suc 0)))) (rt_start [''hi''] 0) (rt_state [] ?c [] [] [] False True ''hi'' [])"
    by (meson relpowp_Suc_I relpowp_0_I)
  then show ?thesis by (simp only: numeral_nat One_nat_def Suc_numeral add_numeral_special)
qed

lemma rt_demo: "(rt_step True ^^ 6) (rt_start [''hi''] 0) (rt_state [] None [''hi''] [] [] False False [] [])"
proof -
  let ?c = "Some (''hi'', 0, [])"
  have "rt_step True (rt_state [] ?c [] [] [] False True ''hi'' []) (rt_state [] ?c [] [] [] False False [] ''hi'')"
    using rt_moves(5) [of 2 "''hi''" True "[]" ?c "[]" "[]" False "[]"] by simp
  moreover have "rt_step True (rt_state [] ?c [] [] [] False False [] ''hi'') (rt_state [] None [''hi''] [] [] False False [] [])"
    using rt_moves(6) [of "''hi''" "''hi''" 0 True "[]" "[]" "[]"] by simp
  ultimately have "(rt_step True ^^ Suc (Suc 4)) (rt_start [''hi''] 0) (rt_state [] None [''hi''] [] [] False False [] [])"
    using rt_demo_collects by (meson relpowp_Suc_I)
  then show ?thesis by simp
qed

theorem day09_round_trip_witness:
  "\<exists>s. (rt_step True ^^ 6) (rt_start [''hi''] 0) s \<and> prefix (rt_shown s) [''hi''] \<and>
     ((\<nexists>t. rt_step True s t) \<longrightarrow> rt_shown s = [''hi''])"
  using day09_round_trip [OF _ rt_demo] rt_demo by auto

section \<open>Where the round trip fails\<close>

text \<open>When \<open>write\<close> takes a part only, the rest is cleared from the buffer, and the client waits for it for ever.\<close>

lemma partial_write_loses_bytes:
  "\<exists>s. (rt_step False)\<^sup>*\<^sup>* (rt_start [''hi''] 0) s \<and> rt_shown s = [] \<and> (\<nexists>t. rt_step False s t)"
proof -
  let ?c = "Some (''hi'', 0, [])"
  let ?s = "rt_state [] (Some (''hi'', 1, ''h'')) [] [] [] False False [] []"
  have "rt_step False (rt_state [] ?c [] [] [] False True ''hi'' []) (rt_state [] ?c [] [] [] False False [] ''h'')"
    using rt_moves(5) [of 1 "''hi''" False "[]" ?c "[]" "[]" False "[]"] by simp
  moreover have "rt_step False (rt_state [] ?c [] [] [] False False [] ''h'') ?s"
    using rt_moves(7) [of "''h''" 0 "''hi''" False "[]" "[]" "[]"] by simp
  ultimately have "(rt_step False)\<^sup>*\<^sup>* (rt_start [''hi''] 0) ?s"
    using relpowp_imp_rtranclp [OF rt_demo_collects] by (meson rtranclp.rtrancl_into_rtrancl)
  moreover have "\<not> rt_step False ?s t" for t
    by (auto elim!: rt_step.cases simp: day09_client_read_def)
  ultimately show ?thesis by (intro exI [of _ ?s]) simp
qed

text \<open>An empty line sends nothing, so nothing comes back and the client never shows anything.\<close>

lemma empty_line_hangs:
  "\<exists>s. (rt_step True)\<^sup>*\<^sup>* (rt_start [[]] 0) s \<and> rt_shown s = [] \<and> (\<nexists>t. rt_step True s t)"
proof -
  let ?s = "rt_state [] (Some ([], 0, [])) [] [] [] False False [] []"
  have "rt_step True (rt_start [[]] 0) ?s"
    using rt_moves(1) [of True "[]" "[]" "[]" "[]" "[]" False False "[]" "[]"] by (simp add: rt_state_start)
  then have "(rt_step True)\<^sup>*\<^sup>* (rt_start [[]] 0) ?s" by blast
  moreover have "\<not> rt_step True ?s t" for t
    by (auto elim!: rt_step.cases simp: day09_client_read_def)
  ultimately show ?thesis by (intro exI [of _ ?s]) simp
qed

end
