(* ===== verification/Doubles.thy ===== *)
theory Doubles
  imports Prelude "HOL-Library.Log_Nat"
begin

text \<open>
  Additions of \<open>double\<close>. A finite double is a whole number of units \<open>2 ^ -1074\<close>, the smallest positive one, and is kept
  as that number; a sum of two doubles is a whole number of units too, which the processor rounds to 53 significant bits,
  to the even neighbour when it lies in the middle. Overflow to infinity needs more than \<open>2 ^ 1023\<close> and is left out.
\<close>

type_synonym double = int

definition cut_bits :: "int \<Rightarrow> nat" where
  "cut_bits n = nat (bitlen \<bar>n\<bar> - 53)"

definition half_even :: "nat \<Rightarrow> int \<Rightarrow> int" where
  "half_even k n = (let q = n div 2 ^ k; r = 2 * (n mod 2 ^ k)
     in if r < 2 ^ k \<or> r = 2 ^ k \<and> even q then q else q + 1)"

definition dround :: "int \<Rightarrow> double" where
  "dround n = half_even (cut_bits n) n * 2 ^ cut_bits n"

definition dadd :: "double \<Rightarrow> double \<Rightarrow> double" where
  "dadd x y = dround (x + y)"

definition is_double :: "int \<Rightarrow> bool" where
  "is_double x \<longleftrightarrow> dround x = x"

definition dsum :: "double \<Rightarrow> double list \<Rightarrow> double" where
  "dsum = foldl dadd"

section \<open>What rounding keeps\<close>

lemma half_even_error: "2 * \<bar>half_even k n * 2 ^ k - n\<bar> \<le> 2 ^ k"
proof -
  let ?p = "2 ^ k :: int"
  have n: "n = n div ?p * ?p + n mod ?p" by (rule div_mult_mod_eq [symmetric])
  have m: "0 \<le> n mod ?p" "n mod ?p < ?p" by simp_all
  show ?thesis
  proof (cases "2 * (n mod ?p) < ?p \<or> 2 * (n mod ?p) = ?p \<and> even (n div ?p)")
    case True
    then have "half_even k n * ?p - n = - (n mod ?p)" using n by (simp add: half_even_def Let_def)
    with True m show ?thesis by auto
  next
    case False
    then have "half_even k n = n div ?p + 1" by (auto simp: half_even_def Let_def)
    then have "half_even k n * ?p - n = ?p - n mod ?p" using n by (simp add: algebra_simps)
    moreover have "?p \<le> 2 * (n mod ?p)" using False by auto
    ultimately show ?thesis using m by (simp add: abs_of_pos)
  qed
qed

lemma half_even_exact: "2 ^ k dvd n \<Longrightarrow> half_even k n * 2 ^ k = n"
  by (simp add: half_even_def Let_def)

lemma cut_bits_pos: "0 < cut_bits n \<Longrightarrow> 2 ^ (cut_bits n + 52) \<le> \<bar>n\<bar>"
proof -
  assume c: "0 < cut_bits n"
  then have b: "53 < bitlen \<bar>n\<bar>" by (simp add: cut_bits_def)
  then have "n \<noteq> 0" by auto
  then have "2 ^ nat (bitlen \<bar>n\<bar> - 1) \<le> \<bar>n\<bar>" using bitlen_bounds [of "\<bar>n\<bar>"] by simp
  moreover have "nat (bitlen \<bar>n\<bar> - 1) = cut_bits n + 52" using b by (simp add: cut_bits_def nat_diff_distrib')
  ultimately show ?thesis by simp
qed

lemma cut_bits_le: "\<bar>n\<bar> < 2 ^ (k + 53) \<Longrightarrow> cut_bits n \<le> k"
proof (rule ccontr)
  assume n: "\<bar>n\<bar> < 2 ^ (k + 53)" and "\<not> cut_bits n \<le> k"
  then have c: "k + 1 \<le> cut_bits n" by simp
  then have "2 ^ (k + 53) \<le> (2 :: int) ^ (cut_bits n + 52)" by (intro power_increasing) simp_all
  also have "\<dots> \<le> \<bar>n\<bar>" using c by (intro cut_bits_pos) simp
  finally show False using n by simp
qed

text \<open>The result of an addition differs from the exact sum by at most a \<open>2 ^ -53\<close> part of it.\<close>

lemma dround_error: "2 ^ 53 * \<bar>dround n - n\<bar> \<le> \<bar>n\<bar>"
proof (cases "cut_bits n = 0")
  case True
  then show ?thesis by (simp add: dround_def half_even_def)
next
  case False
  have "2 * \<bar>dround n - n\<bar> \<le> 2 ^ cut_bits n" unfolding dround_def by (rule half_even_error)
  then have "2 ^ 53 * \<bar>dround n - n\<bar> \<le> 2 ^ (cut_bits n + 52)" by (simp add: power_add)
  also have "\<dots> \<le> \<bar>n\<bar>" using False by (intro cut_bits_pos) simp
  finally show ?thesis .
qed

lemma dround_exact:
  assumes "2 ^ k dvd n" and "\<bar>n\<bar> < 2 ^ (k + 53)"
  shows "dround n = n"
proof -
  have "(2 :: int) ^ cut_bits n dvd 2 ^ k" using cut_bits_le [OF assms(2)] by (rule le_imp_power_dvd)
  then have "2 ^ cut_bits n dvd n" using assms(1) by (rule dvd_trans)
  then show ?thesis unfolding dround_def by (rule half_even_exact)
qed

lemma dround_0 [simp]: "dround 0 = 0"
  using dround_error [of 0] by simp

lemma dround_shift: "dround (n * 2 ^ j) = dround n * 2 ^ j"
proof (cases "cut_bits n = 0")
  case True
  then have "\<bar>n\<bar> < 2 ^ 53"
  proof (cases "n = 0")
    case False
    have "\<bar>n\<bar> < 2 ^ nat (bitlen \<bar>n\<bar>)" using False bitlen_bounds [of "\<bar>n\<bar>"] by simp
    also have "\<dots> \<le> 2 ^ 53" using True by (intro power_increasing) (simp_all add: cut_bits_def)
    finally show ?thesis .
  qed simp
  then have "\<bar>n * 2 ^ j\<bar> < 2 ^ (j + 53)" by (simp add: abs_mult power_add)
  then have "dround (n * 2 ^ j) = n * 2 ^ j" by (intro dround_exact) simp_all
  moreover have "dround n = n" using \<open>\<bar>n\<bar> < 2 ^ 53\<close> by (intro dround_exact [of 0]) simp_all
  ultimately show ?thesis by simp
next
  case False
  then have "0 < cut_bits n" by simp
  then have "n \<noteq> 0" by (auto simp: cut_bits_def)
  then have c: "cut_bits (n * 2 ^ j) = cut_bits n + j"
    using False by (simp add: cut_bits_def abs_mult)
  have "n * 2 ^ j div 2 ^ (cut_bits n + j) = n div 2 ^ cut_bits n"
    "n * 2 ^ j mod 2 ^ (cut_bits n + j) = n mod 2 ^ cut_bits n * 2 ^ j"
    by (simp_all add: power_add mult_mod_left)
  then have "half_even (cut_bits n + j) (n * 2 ^ j) = half_even (cut_bits n) n"
    by (simp add: half_even_def Let_def power_add flip: mult.assoc)
  then show ?thesis by (simp add: dround_def c power_add)
qed

section \<open>The interface of rounded addition\<close>

text \<open>
  Everything below follows from the bound on the error: the sign of a sum is that of the exact one, and a sum of
  numbers that are not negative stays between two multiples of the exact sum. Factors are kept as whole numbers.
\<close>

locale rounded_addition =
  fixes rnd :: "int \<Rightarrow> int"
  assumes error: "2 ^ 53 * \<bar>rnd n - n\<bar> \<le> \<bar>n\<bar>"
begin

lemma nonneg: "0 \<le> n \<Longrightarrow> 0 \<le> rnd n"
  using error [of n] by (auto simp: abs_if split: if_splits)

lemma pos_iff: "0 < rnd n \<longleftrightarrow> 0 < n"
  using error [of n] by (auto simp: abs_if split: if_splits)

lemma lower: "0 \<le> n \<Longrightarrow> (2 ^ 53 - 1) * n \<le> 2 ^ 53 * rnd n"
  using error [of n] by (simp add: abs_if algebra_simps split: if_splits)

lemma upper: "0 \<le> n \<Longrightarrow> 2 ^ 53 * rnd n \<le> (2 ^ 53 + 1) * n"
  using error [of n] by (simp add: abs_if algebra_simps split: if_splits)

end

interpretation dr: rounded_addition dround
  by unfold_locales (rule dround_error)

text \<open>\<open>near k x y\<close>: \<open>y\<close> can come from \<open>x\<close> by \<open>k\<close> changes of at most a \<open>2 ^ -53\<close> part each.\<close>

definition near :: "nat \<Rightarrow> int \<Rightarrow> int \<Rightarrow> bool" where
  "near k x y \<longleftrightarrow> (2 ^ 53 - 1) ^ k * x \<le> (2 ^ 53) ^ k * y \<and> (2 ^ 53) ^ k * y \<le> (2 ^ 53 + 1) ^ k * x"

lemma near_0 [simp]: "near 0 x y \<longleftrightarrow> x = y"
  by (auto simp: near_def)

lemma near_1: "near (Suc 0) x y \<longleftrightarrow> 2 ^ 53 * \<bar>y - x\<bar> \<le> x"
  by (auto simp: near_def abs_if algebra_simps)

lemma near_trans: 
  assumes "near j x y" and "near k y z"
  shows "near (j + k) x z"
proof -
  have l: "(2 ^ 53 - 1) ^ j * x \<le> (2 ^ 53) ^ j * y" "(2 ^ 53) ^ j * y \<le> (2 ^ 53 + 1) ^ j * x"
    "(2 ^ 53 - 1) ^ k * y \<le> (2 ^ 53) ^ k * z" "(2 ^ 53) ^ k * z \<le> (2 ^ 53 + 1) ^ k * y"
    using assms by (simp_all only: near_def)
  define a b c where "a = (2 ^ 53 - 1 :: int)" and "b = (2 ^ 53 :: int)" and "c = (2 ^ 53 + 1 :: int)"
  have p: "0 \<le> a" "0 \<le> b" "0 \<le> c" by (simp_all add: a_def b_def c_def)
  have l': "a ^ j * x \<le> b ^ j * y" "b ^ j * y \<le> c ^ j * x" "a ^ k * y \<le> b ^ k * z" "b ^ k * z \<le> c ^ k * y"
    using l by (simp_all only: a_def b_def c_def)
  have "a ^ (j + k) * x = a ^ k * (a ^ j * x)" by (simp add: power_add)
  also have "\<dots> \<le> a ^ k * (b ^ j * y)" using l'(1) p by (intro mult_left_mono) simp_all
  also have "\<dots> = b ^ j * (a ^ k * y)" by (simp add: ac_simps)
  also have "\<dots> \<le> b ^ j * (b ^ k * z)" using l'(3) p by (intro mult_left_mono) simp_all
  also have "\<dots> = b ^ (j + k) * z" by (simp add: power_add)
  finally have lo: "a ^ (j + k) * x \<le> b ^ (j + k) * z" .
  have "b ^ (j + k) * z = b ^ j * (b ^ k * z)" by (simp add: power_add)
  also have "\<dots> \<le> b ^ j * (c ^ k * y)" using l'(4) p by (intro mult_left_mono) simp_all
  also have "\<dots> = c ^ k * (b ^ j * y)" by (simp add: ac_simps)
  also have "\<dots> \<le> c ^ k * (c ^ j * x)" using l'(2) p by (intro mult_left_mono) simp_all
  also have "\<dots> = c ^ (j + k) * x" by (simp add: power_add)
  finally show ?thesis using lo unfolding near_def a_def b_def c_def by (intro conjI)
qed

lemma near_add:
  assumes "near k x y" and "0 \<le> d"
  shows "near k (x + d) (y + d)"
proof -
  have "(2 ^ 53 - 1) ^ k * d \<le> (2 ^ 53) ^ k * (d :: int)" "(2 ^ 53) ^ k * d \<le> (2 ^ 53 + 1) ^ k * (d :: int)"
    using assms(2) by (intro mult_right_mono power_mono; simp)+
  with assms(1) show ?thesis unfolding near_def by (simp only: distrib_left) (simp add: add_mono)
qed

lemma near_dadd: "0 \<le> x + y \<Longrightarrow> near (Suc 0) (x + y) (dadd x y)"
  using dround_error [of "x + y"] by (simp add: near_1 dadd_def)

lemma near_suc: "near k x y \<Longrightarrow> 2 ^ 53 * \<bar>z - y\<bar> \<le> y \<Longrightarrow> near (Suc k) x z"
  using near_trans [of k x y "Suc 0" z] by (simp add: near_1)

lemma dadd_nonneg: "0 \<le> x + y \<Longrightarrow> 0 \<le> dadd x y"
  by (simp add: dadd_def dr.nonneg)

lemma dadd_pos_iff: "0 < dadd x y \<longleftrightarrow> 0 < x + y"
  by (simp add: dadd_def dr.pos_iff)

text \<open>A sum of doubles that are not negative, in the order given.\<close>

lemma dsum_near:
  assumes "\<forall>x \<in> set xs. 0 \<le> x" and "0 \<le> acc"
  shows "0 \<le> dsum acc xs \<and> near (length xs) (acc + sum_list xs) (dsum acc xs)"
  using assms
proof (induction xs rule: rev_induct)
  case (snoc x xs)
  then have IH: "0 \<le> dsum acc xs" "near (length xs) (acc + sum_list xs) (dsum acc xs)" and x: "0 \<le> x" by auto
  have "near (length xs) (acc + sum_list xs + x) (dsum acc xs + x)" using IH(2) x by (rule near_add)
  then have "near (length xs + Suc 0) (acc + sum_list xs + x) (dadd (dsum acc xs) x)"
    using IH(1) x by (intro near_trans [OF _ near_dadd]) simp_all
  moreover have "0 \<le> dadd (dsum acc xs) x" using IH(1) x by (intro dadd_nonneg) simp
  ultimately show ?case by (simp add: dsum_def add.assoc)
qed (simp add: dsum_def)

text \<open>With unit \<open>2 ^ -46\<close> the numbers \<open>100\<close> and \<open>64 + 2 ^ -46\<close>: moving the second loses \<open>2 ^ -46\<close>.\<close>

lemma dadd_drifts:
  "dadd (100 * 2 ^ 46) (- (64 * 2 ^ 46 + 1)) = 36 * 2 ^ 46 - 1"
  "dadd (100 * 2 ^ 46) (64 * 2 ^ 46 + 1) = 164 * 2 ^ 46"
  by (simp_all add: dadd_def dround_def cut_bits_def half_even_def bitlen_def compute_floorlog)

end
