(* ===== verification/Concurrency_Bank.thy ===== *)
theory Concurrency_Bank
  imports Doubles
begin

text \<open>
  The three bank programs of CppConcurrencyProgramming: 09 locks the two accounts one after the other, 10 with
  \<open>std::lock\<close>, and 11 waits on a condition variable of the account. A thread transfers between its two accounts for
  ever; its steps between lock operations are atomic. Money is a \<open>double\<close> and every addition is rounded (Doubles). The
  unlocked reads of \<open>total\<close> and \<open>getMoney\<close> for the printed lines change nothing and are left out of the steps.
\<close>

section \<open>\<open>Account\<close> and \<open>Bank\<close>\<close>

type_synonym accounts = "nat \<Rightarrow> double"

definition changeMoney :: "nat \<Rightarrow> double \<Rightarrow> accounts \<Rightarrow> accounts" where
  "changeMoney a amount m = m(a := dadd (m a) amount)"

text \<open>\<open>total\<close> adds up the accounts in the order of the set; \<open>bank_worth\<close> is what they are worth without rounding.\<close>

definition bank_total :: "nat list \<Rightarrow> accounts \<Rightarrow> double" where
  "bank_total as m = dsum 0 (map m as)"

definition bank_worth :: "nat set \<Rightarrow> accounts \<Rightarrow> int" where
  "bank_worth A m = (\<Sum>a \<in> A. m a)"

text \<open>\<open>dollars n\<close> is the double \<open>n\<close>; the random amounts lie between \<open>0\<close> and \<open>100\<close>.\<close>

definition dollars :: "int \<Rightarrow> double" where
  "dollars n = n * 2 ^ 1074"

definition random_amount :: "double \<Rightarrow> bool" where
  "random_amount x \<longleftrightarrow> is_double x \<and> 0 \<le> x \<and> x \<le> dollars 100"

lemma dollars_double: "\<bar>n\<bar> < 2 ^ 53 \<Longrightarrow> dround (dollars n) = dollars n"
  unfolding dollars_def dround_shift by (simp add: dround_exact [of 0])

lemma dollars_add: "\<bar>a + b\<bar> < 2 ^ 53 \<Longrightarrow> dadd (dollars a) (dollars b) = dollars (a + b)"
  using dollars_double [of "a + b"] by (simp add: dadd_def dollars_def distrib_right)

lemma dollars_simps: "dollars a \<le> dollars b \<longleftrightarrow> a \<le> b" "dollars a < dollars b \<longleftrightarrow> a < b" "dollars a = dollars b \<longleftrightarrow> a = b"
  "- dollars a = dollars (- a)" "dollars 0 = 0" "dollars a + dollars b = dollars (a + b)"
  by (simp_all add: dollars_def mult_le_cancel_right distrib_right del: power_numeral)


lemma random_dollars: "0 \<le> n \<Longrightarrow> n \<le> 100 \<Longrightarrow> random_amount (dollars n)"
  using dollars_simps(1) [of 0 n] dollars_simps(1) [of n 100]
  by (simp add: random_amount_def is_double_def dollars_double dollars_simps(5))

text \<open>The body of \<open>transferMoney\<close>, with both locks held.\<close>

definition transferMoney :: "nat \<Rightarrow> nat \<Rightarrow> double \<Rightarrow> accounts \<Rightarrow> bool \<times> accounts" where
  "transferMoney alice bob amount m =
     (if m alice < amount then (False, m)
      else (True, changeMoney bob amount (changeMoney alice (- amount) m)))"








section \<open>The deadlock of program 09\<close>


section \<open>One transfer\<close>









section \<open>The invariant of program 10\<close>





text \<open>A transfer that the rounding takes money from: 100 and 100 become 36 and 164 with amounts next to 64.\<close>

lemma transfer_loses_money:
  "bank_worth {0, 1} (snd (transferMoney 0 1 ((64 * 2 ^ 46 + 1) * 2 ^ 1028) (\<lambda>_. dollars 100))) = dollars 200 - 2 ^ 1028"
proof -
  have d: "dollars 100 = (100 * 2 ^ 46) * 2 ^ 1028" by (simp add: dollars_def)
  have "dadd (dollars 100) (- ((64 * 2 ^ 46 + 1) * 2 ^ 1028)) = (36 * 2 ^ 46 - 1) * 2 ^ 1028"
    "dadd (dollars 100) ((64 * 2 ^ 46 + 1) * 2 ^ 1028) = (164 * 2 ^ 46) * 2 ^ 1028"
    unfolding d using dround_shift [of "100 * 2 ^ 46 - (64 * 2 ^ 46 + 1)" 1028] dround_shift [of "100 * 2 ^ 46 + (64 * 2 ^ 46 + 1)" 1028]
      dadd_drifts by (simp_all only: dadd_def left_diff_distrib distrib_right flip: diff_conv_add_uminus)
  then show ?thesis by (simp add: transferMoney_def changeMoney_def bank_worth_def dollars_def)
qed

section \<open>Program 11: waiting for money\<close>

text \<open>
  \<open>changeMoney\<close> of program 11 waits under the lock of the account until \<open>money_ + amount > 0\<close>; a transfer is a
  withdrawal followed by a deposit.
\<close>

datatype waiting_pc = Choose | Withdraw double | Deposit double

record waiting_bank =
  wb_money :: accounts
  wb_pc :: "nat \<Rightarrow> waiting_pc"

definition changeMoney_enabled :: "nat \<Rightarrow> double \<Rightarrow> accounts \<Rightarrow> bool" where
  "changeMoney_enabled a amount m \<longleftrightarrow> 0 < dadd (m a) amount"

inductive step11 :: "nat \<Rightarrow> (nat \<Rightarrow> nat) \<Rightarrow> (nat \<Rightarrow> nat) \<Rightarrow> waiting_bank \<Rightarrow> waiting_bank \<Rightarrow> bool"
  for threads "from" into where
  choose: "i < threads \<Longrightarrow> wb_pc s i = Choose \<Longrightarrow> random_amount x \<Longrightarrow>
    step11 threads from into s (s\<lparr>wb_pc := (wb_pc s)(i := Withdraw x)\<rparr>)"
| withdraw: "i < threads \<Longrightarrow> wb_pc s i = Withdraw x \<Longrightarrow> changeMoney_enabled (from i) (- x) (wb_money s) \<Longrightarrow>
    step11 threads from into s
      (s\<lparr>wb_money := changeMoney (from i) (- x) (wb_money s), wb_pc := (wb_pc s)(i := Deposit x)\<rparr>)"
| deposit: "i < threads \<Longrightarrow> wb_pc s i = Deposit x \<Longrightarrow> changeMoney_enabled (into i) x (wb_money s) \<Longrightarrow>
    step11 threads from into s
      (s\<lparr>wb_money := changeMoney (into i) x (wb_money s), wb_pc := (wb_pc s)(i := Choose)\<rparr>)"

fun in_flight :: "waiting_pc \<Rightarrow> double" where
  "in_flight (Deposit x) = x"
| "in_flight _ = 0"

text \<open>What the accounts are worth together with what is in flight; \<open>total\<close> read in the middle of a transfer misses the latter.\<close>

definition wb_worth :: "nat \<Rightarrow> nat set \<Rightarrow> waiting_bank \<Rightarrow> int" where
  "wb_worth threads A s = bank_worth A (wb_money s) + (\<Sum>i < threads. in_flight (wb_pc s i))"

definition inv11 :: "nat \<Rightarrow> nat set \<Rightarrow> waiting_bank \<Rightarrow> bool" where
  "inv11 threads A s \<longleftrightarrow> (\<forall>a \<in> A. 0 < wb_money s a) \<and>
     (\<forall>i < threads. \<forall>x. wb_pc s i = Withdraw x \<or> wb_pc s i = Deposit x \<longrightarrow> random_amount x)"

lemma worth_change: "finite A \<Longrightarrow> a \<in> A \<Longrightarrow>
    bank_worth A (changeMoney a x m) = bank_worth A m + (dadd (m a) x - m a)"
proof -
  assume "finite A" "a \<in> A"
  then have "bank_worth A m' = m' a + bank_worth (A - {a}) m'" for m'
    unfolding bank_worth_def by (rule sum.remove)
  moreover have "bank_worth (A - {a}) (changeMoney a x m) = bank_worth (A - {a}) m"
    unfolding bank_worth_def by (intro sum.cong) (auto simp: changeMoney_def)
  ultimately show ?thesis by (simp add: changeMoney_def)
qed

lemma flight_change:
  fixes threads :: nat
  assumes "i < threads"
  shows "(\<Sum>j < threads. in_flight ((pc(i := q)) j)) = (\<Sum>j < threads. in_flight (pc j)) - in_flight (pc i) + in_flight q"
proof -
  have "(\<Sum>j < threads. in_flight (pc' j)) = in_flight (pc' i) + (\<Sum>j \<in> {..<threads} - {i}. in_flight (pc' j))" for pc'
    using assms by (intro sum.remove) simp_all
  moreover have "(\<Sum>j \<in> {..<threads} - {i}. in_flight ((pc(i := q)) j)) = (\<Sum>j \<in> {..<threads} - {i}. in_flight (pc j))"
    by (intro sum.cong) auto
  ultimately show ?thesis by simp
qed

lemma worth_ge:
  assumes "inv11 threads A s" and "finite A" and "a \<in> A" and "i < threads"
  shows "wb_money s a + in_flight (wb_pc s i) \<le> wb_worth threads A s"
proof -
  have "0 \<le> in_flight (wb_pc s j)" if "j < threads" for j
    using assms(1) that by (cases "wb_pc s j") (auto simp: inv11_def random_amount_def)
  then have "in_flight (wb_pc s i) \<le> (\<Sum>i < threads. in_flight (wb_pc s i))"
    using assms(4) by (intro member_le_sum) simp_all
  moreover have "wb_money s a \<le> bank_worth A (wb_money s)"
    unfolding bank_worth_def using assms(1-3) by (intro member_le_sum) (auto simp: inv11_def less_imp_le)
  ultimately show ?thesis by (simp add: wb_worth_def)
qed

lemma step11_inv:
  assumes "finite A" and "\<forall>i < threads. from i \<in> A \<and> into i \<in> A" and "inv11 threads A s" and "step11 threads from into s t"
  shows "inv11 threads A t \<and> near (Suc 0) (wb_worth threads A s) (wb_worth threads A t)"
  using assms(4)
proof cases
  case (choose i x)
  have "0 < wb_money s (from i)" using assms(2,3) choose(2) by (simp add: inv11_def)
  then have "0 \<le> wb_worth threads A s" using worth_ge [OF assms(3,1), of "from i" i] assms(2) choose(2,3) by simp
  moreover have "wb_worth threads A t = wb_worth threads A s"
    using flight_change [OF choose(2), of "wb_pc s" "Withdraw x"] choose by (simp add: wb_worth_def)
  ultimately show ?thesis using assms(3) choose by (auto simp: inv11_def near_1)
next
  case (withdraw i x)
  have a: "from i \<in> A" using assms(2) withdraw(2) by simp
  have x: "0 \<le> x" "random_amount x" using assms(3) withdraw(2,3) by (auto simp: inv11_def random_amount_def)
  have "0 < wb_money s (from i) - x" using withdraw(4) dadd_pos_iff [of "wb_money s (from i)" "- x"]
    by (simp add: changeMoney_enabled_def)
  moreover have "wb_worth threads A t = wb_worth threads A s + (dadd (wb_money s (from i)) (- x) - (wb_money s (from i) - x))"
    using flight_change [OF withdraw(2), of "wb_pc s" "Deposit x"] worth_change [OF assms(1) a, of "- x" "wb_money s"] withdraw
    by (simp add: wb_worth_def)
  moreover have "wb_money s (from i) \<le> wb_worth threads A s"
    using worth_ge [OF assms(3,1) a withdraw(2)] withdraw(3) by simp
  ultimately have "near (Suc 0) (wb_worth threads A s) (wb_worth threads A t)"
    using dround_error [of "wb_money s (from i) - x"] x(1) by (simp add: near_1 dadd_def)
  moreover have "inv11 threads A t" using withdraw assms(3) x
    by (auto simp: inv11_def changeMoney_def changeMoney_enabled_def)
  ultimately show ?thesis by blast
next
  case (deposit i x)
  have a: "into i \<in> A" using assms(2) deposit(2) by simp
  have x: "0 \<le> x" "0 < wb_money s (into i)" using assms(3) deposit(2,3) a by (auto simp: inv11_def random_amount_def)
  have "wb_worth threads A t = wb_worth threads A s + (dadd (wb_money s (into i)) x - (wb_money s (into i) + x))"
    using flight_change [OF deposit(2), of "wb_pc s" Choose] worth_change [OF assms(1) a, of x "wb_money s"] deposit
    by (simp add: wb_worth_def)
  moreover have "wb_money s (into i) + x \<le> wb_worth threads A s"
    using worth_ge [OF assms(3,1) a deposit(2)] deposit(3) by simp
  ultimately have "near (Suc 0) (wb_worth threads A s) (wb_worth threads A t)"
    using dround_error [of "wb_money s (into i) + x"] x by (simp add: near_1 dadd_def)
  moreover have "inv11 threads A t" using deposit assms(3) x
    by (auto simp: inv11_def changeMoney_def changeMoney_enabled_def)
  ultimately show ?thesis by blast
qed

definition two_start :: waiting_bank where
  "two_start = \<lparr>wb_money = \<lambda>_. dollars 100, wb_pc = \<lambda>_. Choose\<rparr>"

lemma two_start_runs:
  assumes "(step11 2 (\<lambda>i. i) (\<lambda>i. 1 - i) ^^ n) two_start t"
  shows "inv11 2 {0, 1} t \<and> near n (dollars 200) (wb_worth 2 {0, 1} t)"
  using assms
proof (induction n arbitrary: t)
  case 0
  then have t: "t = two_start" by simp
  have "inv11 2 {0, 1} two_start" using dollars_simps(2) [of 0 100] by (simp add: two_start_def inv11_def dollars_simps(5))
  moreover have "wb_worth 2 {0, 1} two_start = dollars 200"
    by (simp add: two_start_def wb_worth_def bank_worth_def dollars_def)
  ultimately show ?case by (simp add: t)
next
  case (Suc n)
  then obtain u where u: "(step11 2 (\<lambda>i. i) (\<lambda>i. 1 - i) ^^ n) two_start u" "step11 2 (\<lambda>i. i) (\<lambda>i. 1 - i) u t" by auto
  have acc: "\<forall>i < 2. i \<in> {0, 1 :: nat} \<and> 1 - i \<in> {0, 1 :: nat}" by auto
  have IH: "inv11 2 {0, 1} u" "near n (dollars 200) (wb_worth 2 {0, 1} u)" using Suc.IH [OF u(1)] by simp_all
  have s: "inv11 2 {0, 1} t" "near (Suc 0) (wb_worth 2 {0, 1} u) (wb_worth 2 {0, 1} t)"
    using step11_inv [OF _ acc IH(1) u(2)] by simp_all
  have "near (n + Suc 0) (dollars 200) (wb_worth 2 {0, 1} t)" by (rule near_trans [OF IH(2) s(2)])
  with s(1) show ?case by simp
qed

lemma step11_can_block:
  "\<exists>t. (step11 2 (\<lambda>i. i) (\<lambda>i. 1 - i))\<^sup>*\<^sup>* two_start t \<and> (\<forall>u. \<not> step11 2 (\<lambda>i. i) (\<lambda>i. 1 - i) t u)"
proof -
  let ?f = "\<lambda>i :: nat. i" and ?g = "\<lambda>i :: nat. 1 - i"
  let ?s = "two_start\<lparr>wb_pc := (wb_pc two_start)(0 := Withdraw (dollars 100))\<rparr>"
  let ?t = "?s\<lparr>wb_pc := (wb_pc ?s)(1 := Withdraw (dollars 100))\<rparr>"
  have "step11 2 ?f ?g two_start ?s" using random_dollars [of 100] by (intro choose) (simp_all add: two_start_def)
  moreover have "step11 2 ?f ?g ?s ?t" using random_dollars [of 100] by (intro choose) (simp_all add: two_start_def)
  moreover have "\<not> step11 2 ?f ?g ?t u" for u
  proof
    assume "step11 2 ?f ?g ?t u"
    then show False
      by cases (auto simp: two_start_def changeMoney_enabled_def dadd_def less_2_cases_iff split: if_splits)
  qed
  ultimately show ?thesis by (meson rtranclp.rtrancl_into_rtrancl r_into_rtranclp)
qed

text \<open>C33: The waiting bank of program 11 with the two threads of \<open>main\<close> and rounded money: in every run both accounts
  stay positive, and after \<open>n\<close> steps what they are worth, with what is in flight, differs from 200 by at most \<open>n\<close> changes
  of a \<open>2 ^ -53\<close> part. The threads block each other only when both wait to withdraw at least what their own account has,
  each at most 100, and that can happen.\<close>
theorem waiting_bank_progress:
  assumes "(step11 2 (\<lambda>i. i) (\<lambda>i. 1 - i) ^^ n) two_start t"
  shows "0 < wb_money t 0 \<and> 0 < wb_money t 1 \<and> near n (dollars 200) (wb_worth 2 {0, 1} t) \<and>
    ((\<forall>u. \<not> step11 2 (\<lambda>i. i) (\<lambda>i. 1 - i) t u) \<longrightarrow>
      (\<exists>x y. wb_pc t 0 = Withdraw x \<and> wb_pc t 1 = Withdraw y \<and> wb_money t 0 \<le> x \<and> x \<le> dollars 100 \<and>
        wb_money t 1 \<le> y \<and> y \<le> dollars 100)) \<and>
    (\<exists>t. (step11 2 (\<lambda>i. i) (\<lambda>i. 1 - i))\<^sup>*\<^sup>* two_start t \<and> (\<forall>u. \<not> step11 2 (\<lambda>i. i) (\<lambda>i. 1 - i) t u))"
proof -
  have inv: "inv11 2 {0, 1} t" and w: "near n (dollars 200) (wb_worth 2 {0, 1} t)"
    using two_start_runs [OF assms] by simp_all
  then have m: "0 < wb_money t 0" "0 < wb_money t 1" by (simp_all add: inv11_def)
  have pc: "\<exists>x. wb_pc t i = Withdraw x \<and> wb_money t i \<le> x \<and> x \<le> dollars 100"
    if stuck: "\<forall>u. \<not> step11 2 (\<lambda>i. i) (\<lambda>i. 1 - i) t u" and i: "i < 2" for i
  proof (cases "wb_pc t i")
    case Choose
    with stuck choose [OF i, of t "dollars 1"] random_dollars [of 1] show ?thesis by auto
  next
    case (Withdraw x)
    then have "\<not> changeMoney_enabled i (- x) (wb_money t)"
      using stuck withdraw [OF i Withdraw, of "\<lambda>i. i" "\<lambda>i. 1 - i"] by blast
    then have "wb_money t i \<le> x" using dadd_pos_iff [of "wb_money t i" "- x"] by (simp add: changeMoney_enabled_def)
    with Withdraw inv i show ?thesis by (auto simp: inv11_def random_amount_def)
  next
    case (Deposit x)
    have "0 < wb_money t (1 - i)" using m i by (auto simp: less_2_cases_iff)
    moreover have "0 \<le> x" using inv i Deposit by (auto simp: inv11_def random_amount_def)
    ultimately show ?thesis using stuck deposit [OF i Deposit, of "\<lambda>i. 1 - i" "\<lambda>i. i"] dadd_pos_iff [of "wb_money t (1 - i)" x]
      by (auto simp: changeMoney_enabled_def)
  qed
  show ?thesis using m w step11_can_block pc [of 0] pc [of 1] by auto
qed

text \<open>A withdrawal of 30 by the first thread and the start of one of 100 by the second.\<close>

theorem waiting_bank_progress_witness:
  "\<exists>t. (step11 2 (\<lambda>i. i) (\<lambda>i. 1 - i) ^^ 3) two_start t \<and> wb_pc t 0 = Deposit (dollars 30) \<and>
    wb_pc t 1 = Withdraw (dollars 100) \<and> wb_money t 0 = dollars 70 \<and> 0 < wb_money t 0 \<and>
    near 3 (dollars 200) (wb_worth 2 {0, 1} t)"
proof -
  let ?f = "\<lambda>i :: nat. i" and ?g = "\<lambda>i :: nat. 1 - i"
  let ?s = "two_start\<lparr>wb_pc := (wb_pc two_start)(0 := Withdraw (dollars 30))\<rparr>"
  let ?t = "?s\<lparr>wb_pc := (wb_pc ?s)(1 := Withdraw (dollars 100))\<rparr>"
  let ?u = "?t\<lparr>wb_money := changeMoney 0 (- dollars 30) (wb_money ?t), wb_pc := (wb_pc ?t)(0 := Deposit (dollars 30))\<rparr>"
  have d: "dadd (dollars 100) (- dollars 30) = dollars 70" by (simp add: dollars_simps dollars_add)
  have "step11 2 ?f ?g two_start ?s" using random_dollars [of 30] by (intro choose) (simp_all add: two_start_def)
  moreover have "step11 2 ?f ?g ?s ?t" using random_dollars [of 100] by (intro choose) (simp_all add: two_start_def)
  moreover have "step11 2 ?f ?g ?t ?u" using withdraw [of 0 2 ?t "dollars 30" ?f ?g] d dollars_simps(2) [of 0 70]
    by (simp add: two_start_def changeMoney_enabled_def dollars_simps(5))
  ultimately have r: "(step11 2 ?f ?g ^^ 3) two_start ?u" by (auto simp: numeral_3_eq_3)
  have "wb_money ?u 0 = dollars 70" using d by (simp add: two_start_def changeMoney_def)
  with waiting_bank_progress [OF r] r show ?thesis by (intro exI [of _ ?u]) simp
qed

end
