(* ===== verification/Concurrency_Threads.thy ===== *)
theory Concurrency_Threads
  imports Day12_ThreadPool Doubles
begin

text \<open>
  The threads of CppConcurrencyProgramming that add up square roots (06, 07, 08, 13, 14), the counter of
  misc/concurrency_counter_test.cpp and the thread pool of ThreadPool.cpp. The summand is an argument \<open>f\<close> with values in
  \<open>double\<close>, and every addition is rounded (Doubles).
\<close>

section \<open>Splitting a range\<close>

definition worker_sum :: "(int \<Rightarrow> double) \<Rightarrow> int \<Rightarrow> int \<Rightarrow> double" where
  "worker_sum f mn mx = dsum 0 (map f [mn..mx])"

text \<open>The worker of program 13 stops before \<open>max\<close>.\<close>

definition half_open_work :: "(int \<Rightarrow> double) \<Rightarrow> int \<Rightarrow> int \<Rightarrow> double" where
  "half_open_work f mn mx = dsum 0 (map f [mn..mx - 1])"

text \<open>The loop of \<open>concurrent_task\<close>: \<open>k\<close> threads to go, \<open>t\<close> the number of the next one and \<open>mn\<close> its first number.\<close>

fun spawn :: "nat \<Rightarrow> int \<Rightarrow> nat \<Rightarrow> nat \<Rightarrow> int \<Rightarrow> (int \<times> int) list" where
  "spawn parts mx 0 t mn = []"
| "spawn parts mx (Suc k) t mn =
     (let range = mx div int parts * int (t + 1) in (mn, range) # spawn parts mx k (t + 1) (range + 1))"

definition thread_ranges :: "nat \<Rightarrow> int \<Rightarrow> (int \<times> int) list" where
  "thread_ranges threads mx = spawn threads mx threads 0 0"

text \<open>Programs 13 and 14 add the results of the workers in the order of the threads.\<close>

definition concurrent_task :: "(int \<Rightarrow> int \<Rightarrow> double) \<Rightarrow> nat \<Rightarrow> int \<Rightarrow> double" where
  "concurrent_task work threads mx = dsum 0 (map (\<lambda>(mn, range). work mn range) (thread_ranges threads mx))"

lemma upto_split: "a \<le> b + 1 \<Longrightarrow> b \<le> c \<Longrightarrow> [a..b] @ [b + 1..c] = [a..c]"
proof (cases "b < a")
  case True
  moreover assume "a \<le> b + 1"
  ultimately have "a = b + 1" by simp
  then show ?thesis by simp
next
  case False
  moreover assume "b \<le> c"
  ultimately show ?thesis using upto_split2 [of a b c] by simp
qed

lemma spawn_concat:
  assumes "0 < n" and "0 \<le> mx" and "mn = (if t = 0 then 0 else mx div int n * int t + 1)"
  shows "concat (map (\<lambda>(a, b). [a..b]) (spawn n mx k t mn)) =
    (if k = 0 then [] else [mn..mx div int n * int (t + k)])"
  using assms(3)
proof (induction k arbitrary: t mn)
  case (Suc k)
  let ?q = "mx div int n" and ?r = "mx div int n * int (t + 1)"
  have q: "0 \<le> ?q" using assms(1,2) by (simp add: pos_imp_zdiv_nonneg_iff)
  have le: "mn \<le> ?r + 1" using Suc.prems q by (simp add: mult_left_mono algebra_simps)
  have rest: "concat (map (\<lambda>(a, b). [a..b]) (spawn n mx k (t + 1) (?r + 1))) =
      (if k = 0 then [] else [?r + 1..?q * int (t + 1 + k)])"
    by (rule Suc.IH) simp
  show ?case
  proof (cases "k = 0")
    case True
    then show ?thesis by (simp add: Let_def)
  next
    case False
    have "?r \<le> ?q * int (t + 1 + k)" using q by (intro mult_left_mono) simp_all
    then have "[mn..?r] @ [?r + 1..?q * int (t + 1 + k)] = [mn..?q * int (t + 1 + k)]" using le by (intro upto_split)
    with False rest show ?thesis by (simp add: Let_def)
  qed
qed simp

text \<open>The numbers that \<open>concurrent_task\<close> gives its threads, up to the last multiple of \<open>max / threads\<close>.\<close>

definition last_number :: "nat \<Rightarrow> int \<Rightarrow> int" where
  "last_number threads mx = mx div int threads * int threads"

lemma thread_ranges_concat:
  "0 < threads \<Longrightarrow> 0 \<le> mx \<Longrightarrow> concat (map (\<lambda>(a, b). [a..b]) (thread_ranges threads mx)) = [0..last_number threads mx]"
  using spawn_concat [of threads mx 0 0 threads] by (simp add: thread_ranges_def last_number_def)

lemma length_spawn: "length (spawn n mx k t mn) = k"
  by (induction k arbitrary: t mn) (simp_all add: Let_def)

lemma spawn_nonempty:
  assumes "0 < n" and "int n \<le> mx" and "mn = (if t = 0 then 0 else mx div int n * int t + 1)"
  shows "\<forall>(a, b) \<in> set (spawn n mx k t mn). a \<le> b"
  using assms(3)
proof (induction k arbitrary: t mn)
  case (Suc k)
  have q: "1 \<le> mx div int n" using assms(1,2) by (simp add: pos_imp_zdiv_pos_iff int_one_le_iff_zero_less)
  have "\<forall>(a, b) \<in> set (spawn n mx k (t + 1) (mx div int n * int (t + 1) + 1)). a \<le> b" by (rule Suc.IH) simp
  moreover have "mn \<le> mx div int n * int (t + 1)" using Suc.prems q by (simp add: algebra_simps)
  ultimately show ?case by (simp add: Let_def)
qed simp

text \<open>The numbers past that multiple are added by no thread; the workers of program 13, which exclude the upper end, also
  leave out the last number of every range.\<close>

lemma concurrent_task_coverage:
  assumes "0 < threads" and "int threads \<le> mx"
  shows "concat (map (\<lambda>(a, b). [a..b]) (thread_ranges threads mx)) @ [last_number threads mx + 1..mx] = [0..mx] \<and>
    (\<forall>(a, b) \<in> set (thread_ranges threads mx). [a..b] = [a..b - 1] @ [b])"
proof
  have "0 \<le> mx" using assms by simp
  have "[0..last_number threads mx] @ [last_number threads mx + 1..mx] = [0..mx]"
  proof (rule upto_split)
    have "0 \<le> mx div int threads" using \<open>0 \<le> mx\<close> assms(1) by (simp add: pos_imp_zdiv_nonneg_iff)
    then show "0 \<le> last_number threads mx + 1" by (simp add: last_number_def mult_nonneg_nonneg)
    have "0 \<le> mx mod int threads" using assms(1) by simp
    then show "last_number threads mx \<le> mx" using div_mult_mod_eq [of mx "int threads"] unfolding last_number_def by linarith
  qed
  then show "concat (map (\<lambda>(a, b). [a..b]) (thread_ranges threads mx)) @ [last_number threads mx + 1..mx] = [0..mx]"
    using thread_ranges_concat [OF assms(1) \<open>0 \<le> mx\<close>] by simp
  show "\<forall>(a, b) \<in> set (thread_ranges threads mx). [a..b] = [a..b - 1] @ [b]"
    using spawn_nonempty [OF assms, of 0 0 threads] by (auto simp: thread_ranges_def upto_rec2)
qed

section \<open>Adding under a lock\<close>

text \<open>
  The loop body of a worker: \<open>lock\<close>, load the sum, store it with the number added, \<open>unlock\<close>. A thread has the numbers it
  still has to add; \<open>ad_done\<close> records the additions, with their thread, in the order of the stores.
\<close>

datatype add_pc = Unlocked | Locked | Loaded double | Stored

record adders =
  ad_sum :: double
  ad_owner :: "nat option"
  ad_threads :: "(add_pc \<times> double list) list"
  ad_done :: "(nat \<times> double) list"

inductive locked_add :: "adders \<Rightarrow> adders \<Rightarrow> bool" where
  add_lock: "i < length (ad_threads s) \<Longrightarrow> ad_threads s ! i = (Unlocked, x # xs) \<Longrightarrow> ad_owner s = None \<Longrightarrow>
    locked_add s (s\<lparr>ad_owner := Some i, ad_threads := (ad_threads s)[i := (Locked, x # xs)]\<rparr>)"
| add_load: "i < length (ad_threads s) \<Longrightarrow> ad_threads s ! i = (Locked, x # xs) \<Longrightarrow>
    locked_add s (s\<lparr>ad_threads := (ad_threads s)[i := (Loaded (ad_sum s), x # xs)]\<rparr>)"
| add_store: "i < length (ad_threads s) \<Longrightarrow> ad_threads s ! i = (Loaded r, x # xs) \<Longrightarrow>
    locked_add s (s\<lparr>ad_sum := dadd r x, ad_threads := (ad_threads s)[i := (Stored, xs)], ad_done := ad_done s @ [(i, x)]\<rparr>)"
| add_unlock: "i < length (ad_threads s) \<Longrightarrow> ad_threads s ! i = (Stored, xs) \<Longrightarrow>
    locked_add s (s\<lparr>ad_owner := None, ad_threads := (ad_threads s)[i := (Unlocked, xs)]\<rparr>)"

definition adders_start :: "double list list \<Rightarrow> adders" where
  "adders_start ps = \<lparr>ad_sum = 0, ad_owner = None, ad_threads = map (\<lambda>xs. (Unlocked, xs)) ps, ad_done = []\<rparr>"

definition adders_finished :: "adders \<Rightarrow> bool" where
  "adders_finished s \<longleftrightarrow> list_all (\<lambda>th. th = (Unlocked, [])) (ad_threads s)"

text \<open>What thread \<open>i\<close> has added, and the invariant of the workers with the numbers \<open>ps\<close>.\<close>

definition added_by :: "nat \<Rightarrow> (nat \<times> double) list \<Rightarrow> double list" where
  "added_by i ls = map snd (filter (\<lambda>(j, x). j = i) ls)"

definition adders_inv :: "double list list \<Rightarrow> adders \<Rightarrow> bool" where
  "adders_inv ps s \<longleftrightarrow> ad_sum s = dsum 0 (map snd (ad_done s)) \<and> length (ad_threads s) = length ps \<and>
     (\<forall>i < length ps. (fst (ad_threads s ! i) \<noteq> Unlocked \<longleftrightarrow> ad_owner s = Some i) \<and>
        added_by i (ad_done s) @ snd (ad_threads s ! i) = ps ! i \<and>
        (\<forall>r. fst (ad_threads s ! i) = Loaded r \<longrightarrow> r = ad_sum s) \<and>
        (snd (ad_threads s ! i) = [] \<longrightarrow> fst (ad_threads s ! i) = Unlocked \<or> fst (ad_threads s ! i) = Stored)) \<and>
     (\<forall>i. ad_owner s = Some i \<longrightarrow> i < length ps) \<and>
     mset (map snd (ad_done s)) + mset (concat (map snd (ad_threads s))) = mset (concat ps)"

lemma mset_concat_update: "i < length xss \<Longrightarrow> xss ! i = x # xs \<Longrightarrow>
    add_mset x (mset (concat (xss[i := xs]))) = mset (concat xss)"
proof (induction xss arbitrary: i)
  case (Cons ys xss)
  then show ?case by (cases i) simp_all
qed simp

lemma adders_inv_start: "adders_inv ps (adders_start ps)"
  by (simp add: adders_inv_def adders_start_def dsum_def added_by_def comp_def)

lemma others_unlocked:
  assumes "adders_inv ps s" and "i < length (ad_threads s)" and "fst (ad_threads s ! i) \<noteq> Unlocked"
    and "j < length ps" and "j \<noteq> i"
  shows "fst (ad_threads s ! j) = Unlocked"
proof -
  have "ad_owner s = Some i" using assms(1-3) by (auto simp: adders_inv_def)
  with assms(1,4,5) show ?thesis by (auto simp: adders_inv_def)
qed

lemma adders_step:
  assumes "adders_inv ps s" and "locked_add s t"
  shows "adders_inv ps t"
  using assms(2)
proof cases
  case (add_lock i x xs)
  have "map snd ((ad_threads s)[i := (Locked, x # xs)]) = map snd (ad_threads s)"
    using add_lock by (simp add: map_update list_update_same_conv)
  with assms(1) add_lock show ?thesis by (auto simp: adders_inv_def nth_list_update)
next
  case (add_load i x xs)
  have "map snd ((ad_threads s)[i := (Loaded (ad_sum s), x # xs)]) = map snd (ad_threads s)"
    using add_load by (simp add: map_update list_update_same_conv)
  with assms(1) add_load show ?thesis by (auto simp: adders_inv_def nth_list_update)
next
  case (add_store i r x xs)
  have "add_mset x (mset (concat (map snd ((ad_threads s)[i := (Stored, xs)])))) = mset (concat (map snd (ad_threads s)))"
    using mset_concat_update [of i "map snd (ad_threads s)" x xs] add_store by (simp add: map_update)
  moreover have "image_mset snd (mset (ad_done s)) + mset (concat (map snd (ad_threads s))) = mset (concat ps)"
    using assms(1) by (simp add: adders_inv_def)
  ultimately have "add_mset x (image_mset snd (mset (ad_done s)) + mset (concat (map snd ((ad_threads s)[i := (Stored, xs)])))) =
      mset (concat ps)" by (metis union_mset_add_mset_right)
  moreover have "fst (ad_threads s ! j) = Unlocked" if "j < length ps" "j \<noteq> i" for j
    using others_unlocked [OF assms(1) add_store(2) _ that] add_store(3) by simp
  ultimately show ?thesis using assms(1) add_store
    by (auto simp: adders_inv_def nth_list_update added_by_def dsum_def)
next
  case (add_unlock i xs)
  have "map snd ((ad_threads s)[i := (Unlocked, xs)]) = map snd (ad_threads s)"
    using add_unlock by (simp add: map_update list_update_same_conv)
  moreover have "fst (ad_threads s ! j) = Unlocked" if "j < length ps" "j \<noteq> i" for j
    using others_unlocked [OF assms(1) add_unlock(2) _ that] add_unlock(3) by simp
  ultimately show ?thesis using assms(1) add_unlock by (auto simp: adders_inv_def nth_list_update)
qed

lemma adders_run: "locked_add\<^sup>*\<^sup>* (adders_start ps) t \<Longrightarrow> adders_inv ps t"
  by (induction rule: rtranclp_induct) (auto intro: adders_inv_start adders_step)

lemma adders_progress:
  assumes "adders_inv ps s" and "\<not> adders_finished s"
  shows "\<exists>t. locked_add s t"
proof (cases "ad_owner s")
  case None
  then obtain i where i: "i < length ps" "ad_threads s ! i \<noteq> (Unlocked, [])"
    using assms by (auto simp: adders_finished_def list_all_length adders_inv_def)
  then have "fst (ad_threads s ! i) = Unlocked" using None assms(1) by (auto simp: adders_inv_def)
  with i obtain x xs where "ad_threads s ! i = (Unlocked, x # xs)" by (metis prod.collapse list.exhaust)
  with None i(1) assms(1) show ?thesis unfolding adders_inv_def by (metis add_lock)
next
  case (Some i)
  then have i: "i < length (ad_threads s)" "fst (ad_threads s ! i) \<noteq> Unlocked"
    "snd (ad_threads s ! i) = [] \<longrightarrow> fst (ad_threads s ! i) = Stored" using assms(1) by (auto simp: adders_inv_def)
  obtain q zs where th: "ad_threads s ! i = (q, zs)" by fastforce
  show ?thesis
  proof (cases "q = Stored")
    case True
    with i th show ?thesis by (auto intro: add_unlock)
  next
    case False
    with i th obtain x xs where "zs = x # xs" by (metis fst_conv snd_conv list.exhaust)
    with i th False show ?thesis by (cases q) (auto intro: add_load add_store)
  qed
qed

text \<open>The locked programs: 07 adds every number, 08 a sum of each range; the atomic counter is increased in one step.\<close>

definition pending07 :: "(int \<Rightarrow> double) \<Rightarrow> (int \<times> int) list \<Rightarrow> double list list" where
  "pending07 f rs = map (\<lambda>(a, b). map f [a..b]) rs"

definition pending08 :: "(int \<Rightarrow> double) \<Rightarrow> (int \<times> int) list \<Rightarrow> double list list" where
  "pending08 f rs = map (\<lambda>(a, b). [worker_sum f a b]) rs"

inductive atomic_add :: "int \<times> nat list \<Rightarrow> int \<times> nat list \<Rightarrow> bool" where
  atomic_add: "i < length ns \<Longrightarrow> ns ! i = Suc k \<Longrightarrow> atomic_add (c, ns) (c + 1, ns[i := k])"

definition counter_start :: "int \<times> nat list" where
  "counter_start = (0, replicate 10 100000)"

lemma sum_list_lower: "i < length ns \<Longrightarrow> ns ! i = Suc k \<Longrightarrow> Suc (sum_list (ns[i := k])) = sum_list ns"
proof (induction ns arbitrary: i)
  case (Cons n ns)
  then show ?case by (cases i) auto
qed simp

lemma counter_total: "atomic_add\<^sup>*\<^sup>* counter_start st \<Longrightarrow> fst st + int (sum_list (snd st)) = 1000000"
proof (induction rule: rtranclp_induct)
  case base
  then show ?case by (simp add: counter_start_def sum_list_replicate)
next
  case (step st st')
  from step.hyps(2) show ?case
  proof cases
    case (atomic_add i ns k c)
    then have "int (sum_list ns) = int (sum_list (ns[i := k])) + 1" using sum_list_lower [of i ns k] by simp
    with atomic_add step.IH show ?thesis by simp
  qed
qed

lemma near_sum:
  "near k x y \<Longrightarrow> near k u v \<Longrightarrow> near k (x + u) (y + v)"
  unfolding near_def by (simp only: distrib_left) (auto intro: add_mono)

lemma near_mono:
  assumes "near j x y" and "0 \<le> y" and "j \<le> k"
  shows "near k x y"
  using assms(3) by (induction k rule: dec_induct) (use assms near_suc [of _ x y y] in auto)

lemma pending08_near:
  assumes "\<forall>i. 0 \<le> f i" and "length (concat (map (\<lambda>(a, b). [a..b]) rs)) \<le> k"
  shows "(\<forall>x \<in> set (concat (pending08 f rs)). 0 \<le> x) \<and>
    near k (sum_list (concat (pending07 f rs))) (sum_list (concat (pending08 f rs)))"
  using assms(2)
proof (induction rs)
  case Nil
  then show ?case using near_mono [of 0 0 0 k] by (simp add: pending07_def pending08_def)
next
  case (Cons r rs)
  obtain a b where r: "r = (a, b)" by fastforce
  have w: "0 \<le> worker_sum f a b" "near (length [a..b]) (sum_list (map f [a..b])) (worker_sum f a b)"
    using dsum_near [of "map f [a..b]" 0] assms(1) by (simp_all add: worker_sum_def)
  have "near k (sum_list (map f [a..b])) (worker_sum f a b)"
    using near_mono [OF w(2,1), of k] Cons.prems r by simp
  moreover have "length (concat (map (\<lambda>(a, b). [a..b]) rs)) \<le> k" using Cons.prems r by simp
  ultimately show ?case using Cons.IH w(1) near_sum by (auto simp: pending07_def pending08_def r)
qed

lemma pending_near:
  assumes "0 < threads" and "0 \<le> mx" and "\<forall>i. 0 \<le> f i"
    and "ps = pending07 f (thread_ranges threads mx) \<or> ps = pending08 f (thread_ranges threads mx)"
    and "mset xs = mset (concat ps)"
  shows "near (nat (last_number threads mx + 1) + threads) (sum_list (map f [0..last_number threads mx])) (dsum 0 xs)"
proof -
  let ?e = "last_number threads mx" and ?rs = "thread_ranges threads mx"
  have len: "length (concat (map (\<lambda>(a, b). [a..b]) ?rs)) = nat (?e + 1)" using thread_ranges_concat [OF assms(1,2)] by simp
  have "concat (pending07 f rs) = map f (concat (map (\<lambda>(a, b). [a..b]) rs))" for rs
    by (induction rs) (auto simp: pending07_def)
  then have p7: "concat (pending07 f ?rs) = map f [0..?e]" using thread_ranges_concat [OF assms(1,2)] by simp
  have p8: "\<forall>x \<in> set (concat (pending08 f ?rs)). 0 \<le> x"
    "near (nat (?e + 1)) (sum_list (map f [0..?e])) (sum_list (concat (pending08 f ?rs)))"
    using pending08_near [of f ?rs "nat (?e + 1)"] assms(3) len p7 by simp_all
  have l8: "length (concat (pending08 f rs)) = length rs" for rs by (induction rs) (auto simp: pending08_def)
  have x: "sum_list xs = sum_list (concat ps)" "length xs = length (concat ps)" "set xs = set (concat ps)"
    using assms(5) by (metis sum_mset_sum_list, metis size_mset, metis set_mset_mset)
  have "\<forall>x \<in> set (concat (pending07 f ?rs)). 0 \<le> x" unfolding p7 using assms(3) by simp
  with assms(4) p8(1) have nn: "\<forall>x \<in> set xs. 0 \<le> x" unfolding x(3) by blast
  have xs: "0 \<le> dsum 0 xs" "near (length xs) (sum_list xs) (dsum 0 xs)" using dsum_near [OF nn, of 0] by simp_all
  from assms(4) show ?thesis
  proof
    assume "ps = pending07 f ?rs"
    then have "near (nat (?e + 1)) (sum_list (map f [0..?e])) (dsum 0 xs)" using xs(2) x p7 by simp
    then show ?thesis using xs(1) by (rule near_mono) simp
  next
    assume ps: "ps = pending08 f ?rs"
    have "length xs = threads" using x(2) l8 [of ?rs] ps by (simp add: thread_ranges_def length_spawn)
    then have "near threads (sum_list (concat (pending08 f ?rs))) (dsum 0 xs)" using xs(2) x(1) ps by simp
    with p8(2) show ?thesis by (rule near_trans)
  qed
qed

text \<open>C31: Adding under a lock loses nothing in programs 07 and 08. In every interleaving of the workers' steps (lock,
  load, store, unlock) at most one thread is between its lock and its unlock; the shared sum is that of the numbers added
  so far in the order of the stores; the numbers a thread has added, followed by those it still has, are its own in their
  order; and a thread can go on until all are through. Then every number of the ranges has been added exactly once, and
  the sum differs from the exact one by at most one change of a \<open>2 ^ -53\<close> part (the rounding) for each number, and for
  program 08 one more for each thread. The atomic counter of the ten threads ends at exactly a million.\<close>
theorem locked_sum_serial:
  assumes "0 < threads" and "0 \<le> mx" and "\<forall>i. 0 \<le> f i"
    and "ps = pending07 f (thread_ranges threads mx) \<or> ps = pending08 f (thread_ranges threads mx)"
    and "locked_add\<^sup>*\<^sup>* (adders_start ps) t"
  shows "(\<forall>i < length ps. \<forall>j < length ps. fst (ad_threads t ! i) \<noteq> Unlocked \<and> fst (ad_threads t ! j) \<noteq> Unlocked \<longrightarrow> i = j) \<and>
    ad_sum t = dsum 0 (map snd (ad_done t)) \<and>
    (\<forall>i < length ps. added_by i (ad_done t) @ snd (ad_threads t ! i) = ps ! i) \<and>
    (\<not> adders_finished t \<longrightarrow> (\<exists>u. locked_add t u)) \<and>
    (adders_finished t \<longrightarrow> mset (map snd (ad_done t)) = mset (concat ps) \<and>
      near (nat (last_number threads mx + 1) + threads) (sum_list (map f [0..last_number threads mx])) (ad_sum t)) \<and>
    (\<forall>c ns. atomic_add\<^sup>*\<^sup>* counter_start (c, ns) \<and> (\<forall>n \<in> set ns. n = 0) \<longrightarrow> c = 1000000)"
proof -
  have inv: "adders_inv ps t" using assms(5) by (rule adders_run)
  have all_added: "mset (map snd (ad_done t)) = mset (concat ps)" if "adders_finished t"
  proof -
    have "mset (concat (map snd (ad_threads t))) = {#}" using that by (auto simp: adders_finished_def list_all_iff)
    moreover have "mset (map snd (ad_done t)) + mset (concat (map snd (ad_threads t))) = mset (concat ps)"
      using inv by (simp only: adders_inv_def)
    ultimately show ?thesis by (simp only: add_0_right)
  qed
  have "near (nat (last_number threads mx + 1) + threads) (sum_list (map f [0..last_number threads mx])) (ad_sum t)"
    if "adders_finished t" using pending_near [OF assms(1-4) all_added [OF that]] inv by (simp add: adders_inv_def)
  moreover have "c = 1000000" if "atomic_add\<^sup>*\<^sup>* counter_start (c, ns)" "\<forall>n \<in> set ns. n = 0" for c ns
  proof -
    have "sum_list ns = 0" using that(2) by (induction ns) auto
    with counter_total [OF that(1)] show ?thesis by simp
  qed
  moreover have "i = j" if "i < length ps" "j < length ps" "fst (ad_threads t ! i) \<noteq> Unlocked" "fst (ad_threads t ! j) \<noteq> Unlocked"
    for i j using inv that unfolding adders_inv_def by (metis option.inject)
  ultimately show ?thesis using inv adders_progress [OF inv] all_added by (auto simp: adders_inv_def)
qed

lemma locked_round:
  assumes "i < length (ad_threads s)" and "ad_threads s ! i = (Unlocked, x # xs)" and "ad_owner s = None"
  shows "locked_add\<^sup>*\<^sup>* s (s\<lparr>ad_sum := dadd (ad_sum s) x, ad_threads := (ad_threads s)[i := (Unlocked, xs)],
    ad_done := ad_done s @ [(i, x)]\<rparr>)"
proof -
  let ?t = "s\<lparr>ad_owner := Some i, ad_threads := (ad_threads s)[i := (Locked, x # xs)]\<rparr>"
  let ?u = "?t\<lparr>ad_threads := (ad_threads ?t)[i := (Loaded (ad_sum ?t), x # xs)]\<rparr>"
  let ?v = "?u\<lparr>ad_sum := dadd (ad_sum s) x, ad_threads := (ad_threads ?u)[i := (Stored, xs)], ad_done := ad_done ?u @ [(i, x)]\<rparr>"
  let ?w = "?v\<lparr>ad_owner := None, ad_threads := (ad_threads ?v)[i := (Unlocked, xs)]\<rparr>"
  have "locked_add s ?t" using assms by (intro add_lock)
  moreover have "locked_add ?t ?u" using assms by (intro add_load) simp_all
  moreover have "locked_add ?u ?v" using assms by (intro add_store) simp_all
  moreover have "locked_add ?v ?w" using assms by (intro add_unlock) simp_all
  ultimately have "locked_add\<^sup>*\<^sup>* s ?w" by (meson rtranclp.rtrancl_into_rtrancl r_into_rtranclp)
  moreover have "?w = s\<lparr>ad_sum := dadd (ad_sum s) x, ad_threads := (ad_threads s)[i := (Unlocked, xs)],
    ad_done := ad_done s @ [(i, x)]\<rparr>" using assms(3) by simp
  ultimately show ?thesis by (simp only:)
qed

text \<open>Two threads with the ranges 0 to 1 and 2 to 2: the second gets the lock between the two additions of the first.\<close>

theorem locked_sum_serial_witness:
  "\<exists>t. locked_add\<^sup>*\<^sup>* (adders_start (pending07 abs (thread_ranges 2 3))) t \<and> adders_finished t \<and>
    ad_done t = [(0, 0), (1, 2), (0, 1)] \<and> ad_sum t = 3 \<and>
    mset (map snd (ad_done t)) = mset (concat (pending07 abs (thread_ranges 2 3))) \<and> near 5 3 (ad_sum t)"
proof -
  have ps: "pending07 abs (thread_ranges 2 3) = [[0, 1], [2]]"
    by (simp add: pending07_def thread_ranges_def numeral_2_eq_2 Let_def upto_rec1)
  have e: "last_number 2 3 = 2" "[0..2] = [0, 1, 2 :: int]" by (simp_all add: last_number_def upto_rec1)
  let ?s = "\<lparr>ad_sum = 0, ad_owner = None, ad_threads = [(Unlocked, [0, 1]), (Unlocked, [2])], ad_done = []\<rparr>"
  let ?t = "\<lparr>ad_sum = 0, ad_owner = None, ad_threads = [(Unlocked, [1]), (Unlocked, [2])], ad_done = [(0, 0)]\<rparr>"
  let ?u = "\<lparr>ad_sum = 2, ad_owner = None, ad_threads = [(Unlocked, [1]), (Unlocked, [])], ad_done = [(0, 0), (1, 2)]\<rparr>"
  let ?v = "\<lparr>ad_sum = 3, ad_owner = None, ad_threads = [(Unlocked, []), (Unlocked, [])], ad_done = [(0, 0), (1, 2), (0, 1)]\<rparr>"
  have d: "dadd 0 0 = 0" "dadd 0 2 = 2" "dadd 2 1 = 3" by (simp_all add: dadd_def dround_exact [of 0])
  have s: "adders_start (pending07 abs (thread_ranges 2 3)) = ?s" by (simp add: adders_start_def ps)
  have "locked_add\<^sup>*\<^sup>* ?s ?t" using locked_round [of 0 ?s 0 "[1]"] d by simp
  moreover have "locked_add\<^sup>*\<^sup>* ?t ?u" using locked_round [of 1 ?t 2 "[]"] d by simp
  moreover have "locked_add\<^sup>*\<^sup>* ?u ?v" using locked_round [of 0 ?u 1 "[]"] d by simp
  ultimately have r: "locked_add\<^sup>*\<^sup>* (adders_start (pending07 abs (thread_ranges 2 3))) ?v" unfolding s by (meson rtranclp_trans)
  have f: "adders_finished ?v" by (simp add: adders_finished_def)
  have "mset (map snd (ad_done ?v)) = mset (concat (pending07 abs (thread_ranges 2 3))) \<and>
      near (nat (last_number 2 3 + 1) + 2) (sum_list (map abs [0..last_number 2 3])) (ad_sum ?v)"
    using locked_sum_serial [of 2 3 abs "pending07 abs (thread_ranges 2 3)" ?v] r f by simp
  with r f show ?thesis by (intro exI [of _ ?v]) (simp add: e)
qed

text \<open>Program 06 without a lock: a thread loads the sum, and stores it with its number added.\<close>

inductive racy_add :: "double \<times> (double option \<times> double list) list \<Rightarrow> double \<times> (double option \<times> double list) list \<Rightarrow> bool" where
  racy_load: "i < length ps \<Longrightarrow> ps ! i = (None, x # xs) \<Longrightarrow> racy_add (s, ps) (s, ps[i := (Some s, x # xs)])"
| racy_store: "i < length ps \<Longrightarrow> ps ! i = (Some r, x # xs) \<Longrightarrow> racy_add (s, ps) (dadd r x, ps[i := (None, xs)])"

lemma racy_add_loses_update:
  "racy_add\<^sup>*\<^sup>* (0, [(None, [1]), (None, [1])]) (1, [(None, []), (None, [])])"
proof -
  have d: "dadd 0 1 = 1" by (simp add: dadd_def dround_exact [of 0])
  have "racy_add (0, [(None, [1]), (None, [1])]) (0, [(Some 0, [1]), (None, [1])])"
    using racy_load [of 0 "[(None, [1]), (None, [1])]" 1 "[]" 0] by simp
  moreover have "racy_add (0, [(Some 0, [1]), (None, [1])]) (0, [(Some 0, [1]), (Some 0, [1])])"
    using racy_load [of 1 "[(Some 0, [1]), (None, [1])]" 1 "[]" 0] by simp
  moreover have "racy_add (0, [(Some 0, [1]), (Some 0, [1])]) (1, [(None, []), (Some 0, [1])])"
    using racy_store [of 0 "[(Some 0, [1]), (Some 0, [1])]" 0 1 "[]" 0] d by simp
  moreover have "racy_add (1, [(None, []), (Some 0, [1])]) (1, [(None, []), (None, [])])"
    using racy_store [of 1 "[(None, []), (Some 0, [1])]" 0 1 "[]" 1] d by simp
  ultimately show ?thesis by (meson rtranclp.rtrancl_into_rtrancl r_into_rtranclp)
qed

section \<open>The pool of ThreadPool.cpp\<close>

text \<open>It initialises its flag and takes the number of hardware threads for zero; \<open>submit\<close> does not look at the flag.\<close>

definition mgkl_ThreadPool :: "nat \<Rightarrow> nat \<Rightarrow> 'a thread_pool" where
  "mgkl_ThreadPool hardware nthreads = ThreadPool_new False (if nthreads = 0 then hardware else nthreads)"

definition mgkl_submit :: "'a \<Rightarrow> 'a thread_pool \<Rightarrow> 'a thread_pool" where
  "mgkl_submit task p = p\<lparr>tp_tasks := tp_tasks p @ [task]\<rparr>"

definition mgkl_work :: "nat \<Rightarrow> 'a thread_pool \<Rightarrow> 'a thread_pool option" where
  "mgkl_work i p =
     (if \<not> (tp_stop p \<or> tp_tasks p \<noteq> []) then None
      else if tp_stop p \<and> tp_tasks p = [] then Some (p\<lparr>tp_threads := (tp_threads p)[i := Exited]\<rparr>)
      else Some (p\<lparr>tp_threads := (tp_threads p)[i := Busy (hd (tp_tasks p))], tp_tasks := tl (tp_tasks p)\<rparr>))"

lemma mgkl_work_day12: "mgkl_work = worker_wake"
  by (intro ext) (simp add: mgkl_work_def worker_wake_def)

text \<open>A task submitted after the workers have gone is accepted and stays in the queue.\<close>

lemma mgkl_submit_after_exit:
  "joined p \<Longrightarrow> tp_tasks (mgkl_submit t p) = tp_tasks p @ [t] \<and> joined (mgkl_submit t p)"
  by (simp add: mgkl_submit_def joined_def)

section \<open>\<open>call_once\<close> and \<open>async\<close>\<close>

text \<open>
  The workers of program 05: \<open>call_once\<close> runs \<open>init\<close> unless the flag is set. The state is the flag, how often \<open>init\<close> ran
  and the numbers of the threads in the order in which they ran.
\<close>

definition call_once :: "('s \<Rightarrow> 's) \<Rightarrow> bool \<times> 's \<Rightarrow> bool \<times> 's" where
  "call_once f = (\<lambda>(flag, s). if flag then (flag, s) else (True, f s))"

definition once_worker :: "nat \<Rightarrow> bool \<times> nat \<Rightarrow> bool \<times> nat" where
  "once_worker pid s = call_once Suc s"

lemma init_runs_once: "pids \<noteq> [] \<Longrightarrow> fold once_worker pids (False, 0) = (True, 1)"
proof (cases pids)
  case (Cons pid rest)
  have "fold once_worker rest (True, n) = (True, n)" for n
    by (induction rest) (simp_all add: once_worker_def call_once_def)
  with Cons show ?thesis by (simp add: once_worker_def call_once_def)
qed simp

text \<open>
  Program 12. The class \<open>Worker\<close> does not initialise \<open>result_\<close> (\<open>None\<close>); the lambda starts from \<open>0\<close>, and \<open>worker\<close> adds to
  the global \<open>sum\<close>.
\<close>

definition async_Worker :: "(int \<Rightarrow> double) \<Rightarrow> int \<Rightarrow> int \<Rightarrow> double option \<Rightarrow> double res" where
  "async_Worker f mn mx result = res_bind (res_of result) (\<lambda>r. Inr (dsum r (map f [mn..mx - 1])))"

definition async_worker :: "(int \<Rightarrow> double) \<Rightarrow> int \<Rightarrow> int \<Rightarrow> double \<Rightarrow> double" where
  "async_worker f mn mx acc = dsum acc (map f [mn..mx - 1])"

definition async_lambda :: "(int \<Rightarrow> double) \<Rightarrow> int \<Rightarrow> double" where
  "async_lambda f mx = dsum 0 (map f [0..mx - 1])"

lemma async_results:
  "async_worker f 0 mx 0 = async_lambda f mx"
  "async_Worker f 0 mx None = Inl Undefined"
  by (simp_all add: async_worker_def async_lambda_def async_Worker_def)

end
