(* ===== verification/Misc_SharedPtr.thy ===== *)
theory Misc_SharedPtr
  imports Prelude
begin

text \<open>
  \<open>SharedPtr\<close> of misc/my_shared_ptr.cpp and \<open>reverse\<close> of misc/reverse_linked_table.cpp. \<open>SafeSharedPtr\<close>, in the same
  file as the first, does not compile and is left out. The counter is a number without an upper bound: its 32 bits
  overflow only with as many objects.
\<close>

section \<open>\<open>SharedPtr\<close>\<close>

text \<open>
  The objects of the class are numbered; each holds \<open>m_ptr\<close> and \<open>m_ref_count\<close>, where \<open>0\<close> is the null pointer. The heap
  has the counters and the addresses of the live objects of type \<open>T\<close>.
\<close>

record sp_state =
  sp_vars :: "nat \<rightharpoonup> addr \<times> addr"
  sp_count :: "addr \<rightharpoonup> nat"
  sp_objs :: "addr set"


definition sp_default :: "nat \<Rightarrow> sp_state \<Rightarrow> sp_state res" where
  "sp_default v s = Inr (s\<lparr>sp_vars := (sp_vars s)(v \<mapsto> (0, 0))\<rparr>)"

text \<open>The constructor from a pointer: \<open>c\<close> is the address of the new counter.\<close>

definition sp_make :: "nat \<Rightarrow> addr \<Rightarrow> addr \<Rightarrow> sp_state \<Rightarrow> sp_state res" where
  "sp_make v p c s = Inr (s\<lparr>sp_vars := (sp_vars s)(v \<mapsto> (p, c)), sp_count := (sp_count s)(c \<mapsto> 1)\<rparr>)"

definition sp_copy :: "nat \<Rightarrow> nat \<Rightarrow> sp_state \<Rightarrow> sp_state res" where
  "sp_copy v w s = res_bind (res_of (sp_vars s w)) (\<lambda>(p, c).
     let s = s\<lparr>sp_vars := (sp_vars s)(v \<mapsto> (p, c))\<rparr> in
     if c \<noteq> 0 then res_bind (res_of (sp_count s c)) (\<lambda>n. Inr (s\<lparr>sp_count := (sp_count s)(c \<mapsto> n + 1)\<rparr>))
     else Inr s)"

text \<open>Deleting a pointer that is not null and not alive is undefined.\<close>

definition delete_obj :: "addr \<Rightarrow> sp_state \<Rightarrow> sp_state res" where
  "delete_obj p s = (if p = 0 then Inr s else if p \<in> sp_objs s then Inr (s\<lparr>sp_objs := sp_objs s - {p}\<rparr>) else Inl Undefined)"

text \<open>The first half of the copy assignment.\<close>

definition sp_drop :: "nat \<Rightarrow> sp_state \<Rightarrow> sp_state res" where
  "sp_drop v s = res_bind (res_of (sp_vars s v)) (\<lambda>(p, c).
     if c \<noteq> 0 then
       res_bind (res_of (sp_count s c)) (\<lambda>n.
         let s = s\<lparr>sp_count := (sp_count s)(c \<mapsto> n - 1)\<rparr> in
         if n - 1 = 0 then res_bind (delete_obj p s) (\<lambda>s. Inr (s\<lparr>sp_count := (sp_count s)(c := None)\<rparr>))
         else Inr s)
     else Inr s)"

definition sp_assign :: "nat \<Rightarrow> nat \<Rightarrow> sp_state \<Rightarrow> sp_state res" where
  "sp_assign v w s = (if v \<noteq> w then res_bind (sp_drop v s) (sp_copy v w) else Inr s)"

text \<open>The move constructor starts with null pointers and swaps with \<open>other\<close>.\<close>

definition sp_move :: "nat \<Rightarrow> nat \<Rightarrow> sp_state \<Rightarrow> sp_state res" where
  "sp_move v w s = res_bind (res_of (sp_vars s w)) (\<lambda>x.
     Inr (s\<lparr>sp_vars := (sp_vars s)(v \<mapsto> x, w \<mapsto> (0, 0))\<rparr>))"

text \<open>
  The move assignment swaps with a temporary made from \<open>rhs\<close>. There is no destructor: what the temporary holds at the
  end is forgotten, and so is what a variable holds at the end of its scope.
\<close>

definition sp_move_assign :: "nat \<Rightarrow> nat \<Rightarrow> sp_state \<Rightarrow> sp_state res" where
  "sp_move_assign v w s = (if v \<noteq> w then
     res_bind (res_of (sp_vars s w)) (\<lambda>x. res_bind (res_of (sp_vars s v)) (\<lambda>old.
       Inr (s\<lparr>sp_vars := (sp_vars s)(v \<mapsto> x, w \<mapsto> (0, 0))\<rparr>)))
     else Inr s)"

definition sp_scope_end :: "nat \<Rightarrow> sp_state \<Rightarrow> sp_state res" where
  "sp_scope_end v s = Inr (s\<lparr>sp_vars := (sp_vars s)(v := None)\<rparr>)"

section \<open>Counters and owners\<close>

definition holders :: "sp_state \<Rightarrow> addr \<Rightarrow> nat set" where
  "holders s c = {v. \<exists>p. sp_vars s v = Some (p, c)}"






lemma holders_other [simp]:
  "holders (s\<lparr>sp_count := x\<rparr>) d = holders s d" "holders (s\<lparr>sp_objs := y\<rparr>) d = holders s d"
  by (simp_all add: holders_def)
















section \<open>Programs with shared pointers\<close>

text \<open>
  The operations of a program; \<open>Make v p c\<close> is \<open>SharedPtr v(new T)\<close>. A variable is constructed before it is used and not
  constructed twice, and \<open>new\<close> gives addresses that are not in use.
\<close>

datatype sp_op = Default nat | Make nat addr addr | Copy nat nat | Assign nat nat | Move nat nat | Move_Assign nat nat | Scope_End nat

fun sp_exec :: "sp_op \<Rightarrow> sp_state \<Rightarrow> sp_state res" where
  "sp_exec (Default v) s = sp_default v s"
| "sp_exec (Make v p c) s = sp_make v p c (s\<lparr>sp_objs := insert p (sp_objs s)\<rparr>)"
| "sp_exec (Copy v w) s = sp_copy v w s"
| "sp_exec (Assign v w) s = sp_assign v w s"
| "sp_exec (Move v w) s = sp_move v w s"
| "sp_exec (Move_Assign v w) s = sp_move_assign v w s"
| "sp_exec (Scope_End v) s = sp_scope_end v s"

fun well_scoped :: "sp_op \<Rightarrow> sp_state \<Rightarrow> bool" where
  "well_scoped (Default v) s \<longleftrightarrow> sp_vars s v = None"
| "well_scoped (Make v p c) s \<longleftrightarrow> sp_vars s v = None \<and> p \<noteq> 0 \<and> p \<notin> sp_objs s \<and> c \<noteq> 0 \<and> sp_count s c = None"
| "well_scoped (Copy v w) s \<longleftrightarrow> sp_vars s v = None \<and> sp_vars s w \<noteq> None"
| "well_scoped (Assign v w) s \<longleftrightarrow> sp_vars s v \<noteq> None \<and> sp_vars s w \<noteq> None"
| "well_scoped (Move v w) s \<longleftrightarrow> sp_vars s v = None \<and> sp_vars s w \<noteq> None"
| "well_scoped (Move_Assign v w) s \<longleftrightarrow> sp_vars s v \<noteq> None \<and> sp_vars s w \<noteq> None"
| "well_scoped (Scope_End v) s \<longleftrightarrow> sp_vars s v \<noteq> None"

fun sp_run :: "sp_op list \<Rightarrow> sp_state \<Rightarrow> sp_state res" where
  "sp_run [] s = Inr s"
| "sp_run (op # ops) s = res_bind (sp_exec op s) (sp_run ops)"

fun well_scoped_run :: "sp_op list \<Rightarrow> sp_state \<Rightarrow> bool" where
  "well_scoped_run [] s \<longleftrightarrow> True"
| "well_scoped_run (op # ops) s \<longleftrightarrow> well_scoped op s \<and>
     (case sp_exec op s of Inl e \<Rightarrow> True | Inr t \<Rightarrow> well_scoped_run ops t)"



text \<open>A counter that no variable refers to stays as it is for ever: nothing can take it to zero.\<close>

lemma exec_leaks:
  assumes "sp_exec op s = Inr t" and "well_scoped op s" and "holders s c = {}" and "sp_count s c = Some n" and "c \<noteq> 0"
  shows "holders t c = {} \<and> sp_count t c = Some n"
proof -
  have no: "sp_vars s v \<noteq> Some (p, c)" for v p using assms(3) by (auto simp: holders_def)
  show ?thesis
  proof (cases op)
    case (Make v p d)
    then have "d \<noteq> c" using assms(2,4) by auto
    with Make assms show ?thesis by (auto simp: sp_make_def holders_def split: if_splits)
  next
    case (Assign v w)
    obtain p d where v: "sp_vars s v = Some (p, d)" using assms(2) Assign by auto
    with no have "d \<noteq> c" by auto
    with assms(1) Assign v no assms(4) show ?thesis
      by (auto simp: sp_assign_def sp_drop_def sp_copy_def delete_obj_def holders_def Let_def res_of_def split: if_splits option.splits)
  qed (use assms no in \<open>auto simp: sp_default_def sp_copy_def sp_move_def sp_move_assign_def sp_scope_end_def holders_def
      Let_def res_of_def split: if_splits option.splits\<close>)
qed

lemma run_leaks:
  "sp_run ops s = Inr t \<Longrightarrow> well_scoped_run ops s \<Longrightarrow> holders s c = {} \<Longrightarrow> sp_count s c = Some n \<Longrightarrow> c \<noteq> 0 \<Longrightarrow>
    holders t c = {} \<and> sp_count t c = Some n"
proof (induction ops arbitrary: s)
  case (Cons op ops)
  from Cons.prems(1) obtain u where u: "sp_exec op s = Inr u" "sp_run ops u = Inr t" by auto
  with exec_leaks [OF u(1) _ Cons.prems(3,4,5)] Cons.prems(2) Cons.IH [OF u(2)] Cons.prems(5) show ?case by simp
qed simp








section \<open>\<open>reverse\<close>\<close>

text \<open>The loop: \<open>p\<close> is the rest and \<open>res\<close> the reversed part.\<close>

fun reverse_loop :: "nat \<Rightarrow> (addr \<Rightarrow> addr) \<Rightarrow> addr \<Rightarrow> addr \<Rightarrow> ((addr \<Rightarrow> addr) \<times> addr) res" where
  "reverse_loop 0 h p r = Inl Diverges"
| "reverse_loop (Suc n) h p r = (if p \<noteq> 0 then reverse_loop n (h(p := r)) (h p) p else Inr (h, r))"

definition reverse_list :: "nat \<Rightarrow> (addr \<Rightarrow> addr) \<Rightarrow> addr \<Rightarrow> ((addr \<Rightarrow> addr) \<times> addr) res" where
  "reverse_list fuel h head = (if head = 0 then Inr (h, head) else reverse_loop fuel h head 0)"

lemma reverse_list_loop_ok:
  assumes "hlist h p as" and "hlist h r bs" and "set as \<inter> set bs = {}" and "length as < fuel"
  shows "\<exists>h' q. reverse_loop fuel h p r = Inr (h', q) \<and> hlist h' q (rev as @ bs) \<and> (\<forall>c. c \<notin> set as \<longrightarrow> h' c = h c)"
  using assms
proof (induction as arbitrary: h p r bs fuel)
  case Nil
  then obtain n where "fuel = Suc n" by (cases fuel) auto
  with Nil show ?case by (simp add: hlist_null)
next
  case (Cons a as)
  obtain n where n: "fuel = Suc n" using Cons.prems(4) by (cases fuel) auto
  have a: "p = a" "a \<noteq> 0" "hlist h (h a) as" using Cons.prems(1) by simp_all
  have d: "a \<notin> set as" "a \<notin> set bs" using hlist_distinct [OF Cons.prems(1)] Cons.prems(3) by auto
  have "hlist (h(a := r)) (h a) as" "hlist (h(a := r)) a (a # bs)" using a d Cons.prems(2) by simp_all
  moreover have "set as \<inter> set (a # bs) = {}" "length as < n" using Cons.prems(3,4) d n by auto
  ultimately have "\<exists>h' q. reverse_loop n (h(a := r)) (h a) a = Inr (h', q) \<and> hlist h' q (rev as @ a # bs) \<and>
      (\<forall>c. c \<notin> set as \<longrightarrow> h' c = (h(a := r)) c)" by (rule Cons.IH)
  then obtain h' q where l: "reverse_loop n (h(a := r)) (h a) a = Inr (h', q)" "hlist h' q (rev as @ a # bs)"
    "\<forall>c. c \<notin> set as \<longrightarrow> h' c = (h(a := r)) c" by blast
  have "reverse_loop fuel h p r = Inr (h', q)" using a(1,2) n l(1) by simp
  moreover have "hlist h' q (rev (a # as) @ bs)" using l(2) by simp
  moreover have "\<forall>c. c \<notin> set (a # as) \<longrightarrow> h' c = h c" using l(3) by simp
  ultimately show ?case by blast
qed

text \<open>With fuel for one round a node the list is reversed in place.\<close>

lemma reverse_list_reverses:
  assumes "hlist h head as" and "length as < fuel"
  shows "\<exists>h' q. reverse_list fuel h head = Inr (h', q) \<and> hlist h' q (rev as) \<and> (\<forall>c. c \<notin> set as \<longrightarrow> h' c = h c)"
proof (cases "head = 0")
  case True
  with assms(1) show ?thesis by (simp add: reverse_list_def)
next
  case False
  with reverse_list_loop_ok [OF assms(1), of 0 "[]" fuel] assms(2) show ?thesis by (simp add: reverse_list_def)
qed

text \<open>Reversed twice, a list is the list it was, in every node.\<close>

lemma reverse_list_twice:
  assumes "hlist h head as" and "length as < fuel" and "reverse_list fuel h head = Inr (h', q)"
  shows "\<exists>h''. reverse_list fuel h' q = Inr (h'', head) \<and> hlist h'' head as"
proof -
  have r: "hlist h' q (rev as)" using reverse_list_reverses [OF assms(1,2)] assms(3) by auto
  obtain h'' p where h: "reverse_list fuel h' q = Inr (h'', p)" "hlist h'' p as"
    using reverse_list_reverses [OF r, of fuel] assms(2) by auto
  have "p = head" using h(2) assms(1) by (cases as) auto
  with h show ?thesis by simp
qed

end
