(* ===== verification/Misc_SharedFromThis.thy ===== *)
theory Misc_SharedFromThis
  imports Prelude
begin

text \<open>
  misc/enable_shared_from_this_example.cpp: the classes \<open>Good\<close>, \<open>Best\<close> and \<open>Bad\<close> and their \<open>getptr\<close>, over what
  \<open>std::shared_ptr\<close> keeps: control blocks with a use count, and in an object that enables it a weak pointer to its block.
\<close>

section \<open>\<open>std::shared_ptr\<close>\<close>

text \<open>
  Objects and control blocks are numbers; a block has its object and its use count. \<open>sf_weak\<close> is the weak pointer of an
  object, \<open>sf_scope\<close> the variables with their blocks, and \<open>sf_destroyed\<close> the objects whose destructor ran, in order.
\<close>

record sf_state =
  sf_objects :: nat
  sf_blocks :: "(nat \<times> nat) list"
  sf_weak :: "nat \<rightharpoonup> nat"
  sf_scope :: "(string \<times> nat) list"
  sf_destroyed :: "nat list"

definition sf_start :: sf_state where
  "sf_start = \<lparr>sf_objects = 0, sf_blocks = [], sf_weak = Map.empty, sf_scope = [], sf_destroyed = []\<rparr>"

text \<open>A new block that owns \<open>obj\<close>, for a new variable.\<close>

definition own :: "string \<Rightarrow> nat \<Rightarrow> sf_state \<Rightarrow> sf_state" where
  "own v obj s = s\<lparr>sf_blocks := sf_blocks s @ [(obj, 1)], sf_scope := (v, length (sf_blocks s)) # sf_scope s\<rparr>"

text \<open>\<open>make_shared\<close> of \<open>Good\<close> or \<open>Best\<close> sets the weak pointer of the object; that of \<open>Bad\<close> has none.\<close>

definition make_good :: "string \<Rightarrow> sf_state \<Rightarrow> sf_state" where
  "make_good v s = own v (sf_objects s) (s\<lparr>sf_objects := Suc (sf_objects s),
     sf_weak := (sf_weak s)(sf_objects s \<mapsto> length (sf_blocks s))\<rparr>)"

definition make_bad :: "string \<Rightarrow> sf_state \<Rightarrow> sf_state" where
  "make_bad v s = own v (sf_objects s) (s\<lparr>sf_objects := Suc (sf_objects s)\<rparr>)"

text \<open>The object of a variable, when it is still alive.\<close>

definition object_of :: "string \<Rightarrow> sf_state \<Rightarrow> nat res" where
  "object_of v s = res_bind (res_of (map_of (sf_scope s) v)) (\<lambda>b. res_bind (vat (sf_blocks s) b) (\<lambda>(obj, n).
     if obj \<in> set (sf_destroyed s) then Inl Undefined else Inr obj))"

text \<open>
  \<open>shared_from_this\<close> of \<open>obj\<close>, for a new variable: another owner of the block of the weak pointer. Without a block whose
  object is alive it throws \<open>bad_weak_ptr\<close>.
\<close>

definition shared_from_this :: "string \<Rightarrow> nat \<Rightarrow> sf_state \<Rightarrow> sf_state res" where
  "shared_from_this w obj s = (case sf_weak s obj of
     None \<Rightarrow> Inl (Runtime_Error ''bad_weak_ptr'')
   | Some b \<Rightarrow> res_bind (vat (sf_blocks s) b) (\<lambda>(obj', n).
       if n = 0 then Inl (Runtime_Error ''bad_weak_ptr'')
       else Inr (s\<lparr>sf_blocks := (sf_blocks s)[b := (obj', n + 1)], sf_scope := (w, b) # sf_scope s\<rparr>)))"

definition good_getptr :: "string \<Rightarrow> string \<Rightarrow> sf_state \<Rightarrow> sf_state res" where
  "good_getptr v w s = res_bind (object_of v s) (\<lambda>obj. shared_from_this w obj s)"

definition bad_getptr :: "string \<Rightarrow> string \<Rightarrow> sf_state \<Rightarrow> sf_state res" where
  "bad_getptr v w s = res_bind (object_of v s) (\<lambda>obj. Inr (own w obj s))"

text \<open>A variable goes out of scope: the last owner of a block deletes the object, and deleting it twice is undefined.\<close>

definition drop_var :: "string \<Rightarrow> sf_state \<Rightarrow> sf_state res" where
  "drop_var v s = res_bind (res_of (map_of (sf_scope s) v)) (\<lambda>b. res_bind (vat (sf_blocks s) b) (\<lambda>(obj, n).
     let s = s\<lparr>sf_blocks := (sf_blocks s)[b := (obj, n - 1)], sf_scope := filter (\<lambda>p. fst p \<noteq> v) (sf_scope s)\<rparr> in
     if n - 1 = 0 then (if obj \<in> set (sf_destroyed s) then Inl Undefined else Inr (s\<lparr>sf_destroyed := sf_destroyed s @ [obj]\<rparr>))
     else Inr s))"

definition use_count :: "string \<Rightarrow> sf_state \<Rightarrow> nat res" where
  "use_count v s = res_bind (res_of (map_of (sf_scope s) v)) (\<lambda>b. res_bind (vat (sf_blocks s) b) (\<lambda>(obj, n). Inr n))"

section \<open>The four functions of the example\<close>

text \<open>The result is the use count that is printed and the state at the end.\<close>

definition testGood :: "sf_state \<Rightarrow> (nat \<times> sf_state) res" where
  "testGood s = res_bind (good_getptr ''good0'' ''good1'' (make_good ''good0'' s)) (\<lambda>s.
     res_bind (use_count ''good1'' s) (\<lambda>n.
     res_bind (drop_var ''good1'' s) (\<lambda>s. res_bind (drop_var ''good0'' s) (\<lambda>s. Inr (n, s)))))"

text \<open>\<open>not_so_good\<close> is on the stack; the exception is caught and its text printed.\<close>

definition misuseGood :: "sf_state \<Rightarrow> string res" where
  "misuseGood s = (let obj = sf_objects s; s = s\<lparr>sf_objects := Suc obj\<rparr> in
     case shared_from_this ''good1'' obj s of Inl (Runtime_Error msg) \<Rightarrow> Inr msg | Inl e \<Rightarrow> Inl e | Inr _ \<Rightarrow> Inr [])"

definition best_create :: "string \<Rightarrow> sf_state \<Rightarrow> sf_state" where
  "best_create v s = make_good v s"

definition testBest :: "sf_state \<Rightarrow> (nat \<times> sf_state) res" where
  "testBest s = res_bind (good_getptr ''best0'' ''best1'' (best_create ''best0'' s)) (\<lambda>s.
     res_bind (use_count ''best1'' s) (\<lambda>n.
     res_bind (drop_var ''best1'' s) (\<lambda>s. res_bind (drop_var ''best0'' s) (\<lambda>s. Inr (n, s)))))"

text \<open>\<open>testBad\<close> up to its output, and its end.\<close>

definition testBad_body :: "sf_state \<Rightarrow> (nat \<times> sf_state) res" where
  "testBad_body s = res_bind (bad_getptr ''bad0'' ''bad1'' (make_bad ''bad0'' s)) (\<lambda>s.
     res_bind (use_count ''bad1'' s) (\<lambda>n. Inr (n, s)))"

definition testBad :: "sf_state \<Rightarrow> (nat \<times> sf_state) res" where
  "testBad s = res_bind (testBad_body s) (\<lambda>(n, s).
     res_bind (drop_var ''bad1'' s) (\<lambda>s. res_bind (drop_var ''bad0'' s) (\<lambda>s. Inr (n, s))))"

lemmas sf_defs = sf_start_def own_def make_good_def make_bad_def object_of_def shared_from_this_def good_getptr_def
  bad_getptr_def drop_var_def use_count_def

text \<open>The output of the example, as its comment lists it: 2, \<open>bad_weak_ptr\<close>, 2, 1, and then the second deletion.\<close>

lemma example_output:
  "\<exists>s. testGood sf_start = Inr (2, s) \<and> sf_destroyed s = [0]"
  "misuseGood sf_start = Inr ''bad_weak_ptr''"
  "\<exists>s. testBest sf_start = Inr (2, s) \<and> sf_destroyed s = [0]"
  "\<exists>s. testBad_body sf_start = Inr (1, s)"
  "testBad sf_start = Inl Undefined"
  by (simp_all add: testGood_def misuseGood_def testBest_def best_create_def testBad_def testBad_body_def sf_defs vat_def Let_def)

section \<open>\<open>shared_from_this\<close> is safe\<close>

datatype sf_op = Make string | Get_Ptr string string | Drop_Var string

fun sf_step :: "sf_op \<Rightarrow> sf_state \<Rightarrow> sf_state res" where
  "sf_step (Make v) s = Inr (make_good v s)"
| "sf_step (Get_Ptr v w) s = good_getptr v w s"
| "sf_step (Drop_Var v) s = drop_var v s"

fun sf_run :: "sf_op list \<Rightarrow> sf_state \<Rightarrow> sf_state res" where
  "sf_run [] s = Inr s"
| "sf_run (x # xs) s = res_bind (sf_step x s) (sf_run xs)"

text \<open>Variables are declared once and used while in scope.\<close>

fun sf_scoped :: "sf_op list \<Rightarrow> string list \<Rightarrow> bool" where
  "sf_scoped [] vs = True"
| "sf_scoped (Make v # xs) vs \<longleftrightarrow> v \<notin> set vs \<and> sf_scoped xs (v # vs)"
| "sf_scoped (Get_Ptr v w # xs) vs \<longleftrightarrow> v \<in> set vs \<and> w \<notin> set vs \<and> sf_scoped xs (w # vs)"
| "sf_scoped (Drop_Var v # xs) vs \<longleftrightarrow> v \<in> set vs \<and> sf_scoped xs (filter (\<lambda>w. w \<noteq> v) vs)"

definition owners :: "nat \<Rightarrow> (string \<times> nat) list \<Rightarrow> nat" where
  "owners b sc = length (filter (\<lambda>p. snd p = b) sc)"

definition sf_inv :: "string list \<Rightarrow> sf_state \<Rightarrow> bool" where
  "sf_inv vs s \<longleftrightarrow> map fst (sf_scope s) = vs \<and> distinct vs \<and> length (sf_blocks s) = sf_objects s \<and>
     (\<forall>b < sf_objects s. sf_blocks s ! b = (b, owners b (sf_scope s)) \<and> sf_weak s b = Some b) \<and>
     (\<forall>(v, b) \<in> set (sf_scope s). b < sf_objects s) \<and> distinct (sf_destroyed s) \<and>
     set (sf_destroyed s) = {b. b < sf_objects s \<and> owners b (sf_scope s) = 0}"

lemma owners_simps [simp]: "owners b [] = 0" "owners b ((v, b') # sc) = (if b' = b then 1 else 0) + owners b sc"
  by (simp_all add: owners_def)

lemma owners_pos: "(v, b) \<in> set sc \<Longrightarrow> 0 < owners b sc"
  by (force simp: owners_def filter_empty_conv)

lemma owners_drop:
  assumes "distinct (map fst sc)" and "(v, b) \<in> set sc"
  shows "owners b' (filter (\<lambda>p. fst p \<noteq> v) sc) = owners b' sc - (if b' = b then 1 else 0)"
  using assms
proof (induction sc)
  case (Cons p sc)
  obtain w c where p: "p = (w, c)" by force
  show ?case
  proof (cases "w = v")
    case True
    with Cons.prems p have "b = c" by (force simp: image_iff)
    moreover have "filter (\<lambda>p. fst p \<noteq> v) sc = sc" using Cons.prems True p by (force simp: filter_id_conv)
    ultimately show ?thesis using True p by simp
  next
    case False
    with Cons.prems p have m: "(v, b) \<in> set sc" by auto
    with Cons.prems p have "owners b' (filter (\<lambda>p. fst p \<noteq> v) sc) = owners b' sc - (if b' = b then 1 else 0)"
      by (intro Cons.IH) simp_all
    with owners_pos [OF m] False p show ?thesis by auto
  qed
qed simp

lemma owners_new: "\<forall>(v, b) \<in> set sc. b < n \<Longrightarrow> owners n sc = 0"
  by (force simp: owners_def filter_empty_conv)

lemma sf_make_inv:
  assumes "sf_inv vs s" and "v \<notin> set vs"
  shows "sf_inv (v # vs) (make_good v s)"
proof -
  have new: "owners (sf_objects s) (sf_scope s) = 0" using assms(1) by (intro owners_new) (simp add: sf_inv_def)
  show ?thesis
    using assms new unfolding sf_inv_def make_good_def own_def by (auto simp: nth_append less_Suc_eq)
qed

lemma in_scope:
  assumes "sf_inv vs s" and "v \<in> set vs"
  obtains b where "map_of (sf_scope s) v = Some b" "(v, b) \<in> set (sf_scope s)" "b < length (sf_blocks s)" "b < sf_objects s"
    "sf_blocks s ! b = (b, owners b (sf_scope s))" "sf_weak s b = Some b" "0 < owners b (sf_scope s)" "b \<notin> set (sf_destroyed s)"
proof -
  have vs: "map fst (sf_scope s) = vs" using assms(1) by (simp add: sf_inv_def)
  with assms(2) obtain b where b: "map_of (sf_scope s) v = Some b"
    by (metis list.set_map map_of_eq_None_iff not_Some_eq)
  then have m: "(v, b) \<in> set (sf_scope s)" by (rule map_of_SomeD)
  then have l: "b < sf_objects s" using assms(1) by (auto simp: sf_inv_def)
  have pos: "0 < owners b (sf_scope s)" using m by (rule owners_pos)
  with assms(1) have "b \<notin> set (sf_destroyed s)" by (simp add: sf_inv_def)
  with assms(1) b m l pos that show thesis by (simp add: sf_inv_def)
qed

lemma sf_getptr_inv:
  assumes "sf_inv vs s" and "v \<in> set vs" and "w \<notin> set vs"
  shows "\<exists>s'. good_getptr v w s = Inr s' \<and> sf_inv (w # vs) s'"
proof -
  obtain b where b: "map_of (sf_scope s) v = Some b" "(v, b) \<in> set (sf_scope s)" "b < length (sf_blocks s)" "b < sf_objects s"
    "sf_blocks s ! b = (b, owners b (sf_scope s))" "sf_weak s b = Some b" "0 < owners b (sf_scope s)" "b \<notin> set (sf_destroyed s)"
    using in_scope [OF assms(1,2)] .
  let ?s = "s\<lparr>sf_blocks := (sf_blocks s)[b := (b, owners b (sf_scope s) + 1)], sf_scope := (w, b) # sf_scope s\<rparr>"
  have "good_getptr v w s = Inr ?s" using b by (simp add: good_getptr_def object_of_def shared_from_this_def)
  moreover have "sf_inv (w # vs) ?s"
    using assms b unfolding sf_inv_def by (auto simp: nth_list_update)
  ultimately show ?thesis by blast
qed

lemma sf_drop_inv:
  assumes "sf_inv vs s" and "v \<in> set vs"
  shows "\<exists>s'. drop_var v s = Inr s' \<and> sf_inv (filter (\<lambda>w. w \<noteq> v) vs) s'"
proof -
  obtain b where b: "map_of (sf_scope s) v = Some b" "(v, b) \<in> set (sf_scope s)" "b < length (sf_blocks s)" "b < sf_objects s"
    "sf_blocks s ! b = (b, owners b (sf_scope s))" "sf_weak s b = Some b" "0 < owners b (sf_scope s)" "b \<notin> set (sf_destroyed s)"
    using in_scope [OF assms] .
  have vs: "map fst (sf_scope s) = vs" "distinct vs" using assms(1) by (simp_all add: sf_inv_def)
  let ?sc = "filter (\<lambda>p. fst p \<noteq> v) (sf_scope s)"
  have o: "owners b' ?sc = owners b' (sf_scope s) - (if b' = b then 1 else 0)" for b'
    using owners_drop [OF _ b(2)] vs by simp
  let ?s = "s\<lparr>sf_blocks := (sf_blocks s)[b := (b, owners b (sf_scope s) - 1)], sf_scope := ?sc,
    sf_destroyed := (if owners b (sf_scope s) = 1 then sf_destroyed s @ [b] else sf_destroyed s)\<rparr>"
  have "drop_var v s = Inr ?s" using b by (simp add: drop_var_def Let_def)
  moreover have "map fst ?sc = filter (\<lambda>w. w \<noteq> v) vs" unfolding vs(1) [symmetric] by (simp add: filter_map comp_def)
  moreover have "set (sf_destroyed ?s) = {c. c < sf_objects s \<and> owners c ?sc = 0}"
    using assms(1) b unfolding o by (auto simp: sf_inv_def)
  ultimately show ?thesis
    using assms(1) b unfolding sf_inv_def by (auto simp: nth_list_update o)
qed

lemma sf_run_safe:
  assumes "sf_inv vs s" and "sf_scoped xs vs"
  shows "\<exists>s' vs'. sf_run xs s = Inr s' \<and> sf_inv vs' s'"
  using assms
proof (induction xs arbitrary: vs s)
  case (Cons x xs)
  have "\<exists>s' vs'. sf_step x s = Inr s' \<and> sf_inv vs' s' \<and> sf_scoped xs vs'"
  proof (cases x)
    case (Make v)
    with Cons.prems sf_make_inv show ?thesis by fastforce
  next
    case (Get_Ptr v w)
    with Cons.prems sf_getptr_inv show ?thesis by fastforce
  next
    case (Drop_Var v)
    with Cons.prems sf_drop_inv show ?thesis by fastforce
  qed
  with Cons.IH show ?case by fastforce
qed auto

text \<open>
  Pointers of \<open>Good\<close> and \<open>Best\<close> objects, made by \<open>make_shared\<close> and \<open>getptr\<close> and dropped in any order: nothing goes
  undefined, every variable points to a live object, and an object is destroyed once, when its last variable goes.
\<close>

lemma shared_from_this_safe:
  assumes "sf_scoped xs []"
  shows "\<exists>s. sf_run xs sf_start = Inr s \<and> distinct (sf_destroyed s) \<and>
    (\<forall>obj < sf_objects s. obj \<in> set (sf_destroyed s) \<longleftrightarrow> (\<forall>v. (v, obj) \<notin> set (sf_scope s)))"
proof -
  have "sf_inv [] sf_start" by (simp add: sf_inv_def sf_start_def)
  from sf_run_safe [OF this assms] obtain s vs where s: "sf_run xs sf_start = Inr s" "sf_inv vs s" by blast
  have "owners obj (sf_scope s) = 0 \<longleftrightarrow> (\<forall>v. (v, obj) \<notin> set (sf_scope s))" for obj
    by (force simp: owners_def filter_empty_conv)
  with s show ?thesis by (auto simp: sf_inv_def)
qed

end
