(* ===== verification/Misc_Random.thy ===== *)
theory Misc_Random
  imports Prelude
begin

text \<open>
  misc/cpp_rand_example.cpp: \<open>bounded_rand\<close>, which rejects the answers of \<open>rand\<close> that would make the remainder uneven,
  in 32-bit unsigned arithmetic, and the dice of \<open>main\<close>. The answers of \<open>rand\<close> are an argument.
\<close>

section \<open>\<open>bounded_rand\<close>\<close>

definition accepted :: "32 word \<Rightarrow> 32 word \<Rightarrow> bool" where
  "accepted rng x \<longleftrightarrow> x - x mod rng \<le> - rng"

fun bounded_rand :: "32 word \<Rightarrow> 32 word list \<Rightarrow> (32 word \<times> 32 word list) res" where
  "bounded_rand rng [] = Inl Diverges"
| "bounded_rand rng (x # xs) =
     (if rng = 0 then Inl Undefined
      else if accepted rng x then Inr (x mod rng, xs) else bounded_rand rng xs)"

text \<open>\<open>main\<close>: a die with \<open>sides\<close> faces is rolled \<open>n\<close> times.\<close>

fun roll :: "32 word \<Rightarrow> nat \<Rightarrow> 32 word list \<Rightarrow> (32 word list \<times> 32 word list) res" where
  "roll sides 0 xs = Inr ([], xs)"
| "roll sides (Suc n) xs = res_bind (bounded_rand sides xs) (\<lambda>(r, xs). res_bind (roll sides n xs) (\<lambda>(rs, xs). Inr ((1 + r) # rs, xs)))"

definition RAND_MAX :: "32 word" where
  "RAND_MAX = 0x7FFFFFFF"

section \<open>The remainders are even over all words\<close>

lemma unat_of_nat_fits: "k < 2 ^ 32 \<Longrightarrow> unat (of_nat k :: 32 word) = k"
  by (simp add: unat_of_nat take_bit_nat_eq_self)

lemma unat_neg:
  assumes "(x :: 32 word) \<noteq> 0"
  shows "unat (- x) = 2 ^ 32 - unat x"
proof -
  have "unat x < 2 ^ 32" using unsigned_less [of x] by simp
  then have "(of_nat (2 ^ 32 - unat x) :: 32 word) = of_nat (2 ^ 32) - of_nat (unat x)" by (intro of_nat_diff) simp
  also have "\<dots> = - x" by simp
  finally have "unat (- x) = unat (of_nat (2 ^ 32 - unat x) :: 32 word)" by simp
  moreover have "2 ^ 32 - unat x < 2 ^ 32" using assms by (simp add: unat_gt_0)
  ultimately show ?thesis by (simp only: unat_of_nat_fits)
qed

lemma accepted_iff:
  assumes "rng \<noteq> 0"
  shows "accepted rng x \<longleftrightarrow> unat x < 2 ^ 32 div unat rng * unat rng"
proof -
  let ?n = "unat rng" and ?x = "unat x"
  have n: "0 < ?n" using assms by (simp add: unat_gt_0)
  have small: "?n \<le> 2 ^ 32" using unsigned_less [of rng, where 'a = nat] by simp
  have "unat (x - x mod rng) = ?x - ?x mod ?n"
    using unat_sub [of "x mod rng" x] by (simp add: word_le_nat_alt unat_mod)
  then have l: "unat (x - x mod rng) = ?x div ?n * ?n" by (simp add: minus_mod_eq_div_mult)
  have "unat (- rng) = 2 ^ 32 - ?n" using assms by (rule unat_neg)
  then have "accepted rng x \<longleftrightarrow> ?x div ?n * ?n \<le> 2 ^ 32 - ?n" using l by (simp add: accepted_def word_le_nat_alt)
  also have "\<dots> \<longleftrightarrow> (?x div ?n + 1) * ?n \<le> 2 ^ 32" using small by (simp add: le_diff_conv2 algebra_simps)
  also have "\<dots> \<longleftrightarrow> ?x div ?n + 1 \<le> 2 ^ 32 div ?n" using n by (simp add: less_eq_div_iff_mult_less_eq)
  also have "\<dots> \<longleftrightarrow> ?x div ?n < 2 ^ 32 div ?n" by (simp add: Suc_le_eq)
  also have "\<dots> \<longleftrightarrow> ?x < 2 ^ 32 div ?n * ?n" using n by (simp add: div_less_iff_less_mult)
  finally show ?thesis .
qed

lemma card_residue:
  assumes "r < n"
  shows "card {k. k < q * n \<and> k mod n = r} = (q :: nat)"
proof -
  have "{k. k < q * n \<and> k mod n = r} = (\<lambda>i. i * n + r) ` {..<q}"
  proof (intro equalityI subsetI)
    fix k
    assume "k \<in> {k. k < q * n \<and> k mod n = r}"
    then have "k = k div n * n + r" "k div n < q" using assms by (auto simp: less_mult_imp_div_less)
    then show "k \<in> (\<lambda>i. i * n + r) ` {..<q}" by blast
  next
    fix k
    assume "k \<in> (\<lambda>i. i * n + r) ` {..<q}"
    then obtain i where i: "i < q" "k = i * n + r" by auto
    then have "i * n + n \<le> q * n" by (metis Suc_leI add.commute mult_Suc mult_le_mono1)
    with i assms show "k \<in> {k. k < q * n \<and> k mod n = r}" by auto
  qed
  moreover have "inj_on (\<lambda>i. i * n + r) {..<q}" using assms by (auto simp: inj_on_def)
  ultimately show ?thesis by (simp add: card_image)
qed

lemma card_unat:
  assumes "m \<le> 2 ^ 32"
  shows "card {x :: 32 word. unat x < m \<and> P (unat x)} = card {k. k < m \<and> P k}"
proof -
  have "{x :: 32 word. unat x < m \<and> P (unat x)} = of_nat ` {k. k < m \<and> P k}"
  proof (intro equalityI subsetI)
    fix x :: "32 word"
    assume "x \<in> {x. unat x < m \<and> P (unat x)}"
    then have "unat x \<in> {k. k < m \<and> P k}" "x = of_nat (unat x)" by simp_all
    then show "x \<in> of_nat ` {k. k < m \<and> P k}" by blast
  next
    fix x :: "32 word"
    assume "x \<in> of_nat ` {k. k < m \<and> P k}"
    then obtain k where "k < m" "P k" "x = of_nat k" by auto
    moreover have "unat (of_nat k :: 32 word) = k" using \<open>k < m\<close> assms by (intro unat_of_nat_fits) simp
    ultimately show "x \<in> {x. unat x < m \<and> P (unat x)}" by simp
  qed
  moreover have "inj_on (of_nat :: nat \<Rightarrow> 32 word) {k. k < m \<and> P k}"
  proof (rule inj_onI)
    fix j k
    assume "j \<in> {k. k < m \<and> P k}" "k \<in> {k. k < m \<and> P k}" and e: "(of_nat j :: 32 word) = of_nat k"
    then have "j < 2 ^ 32" "k < 2 ^ 32" using assms by auto
    then have "unat (of_nat j :: 32 word) = j" "unat (of_nat k :: 32 word) = k" by (simp_all only: unat_of_nat_fits)
    with e show "j = k" by metis
  qed
  ultimately show ?thesis by (simp add: card_image)
qed

lemma bounded_rand_first:
  assumes "rng \<noteq> 0"
  shows "bounded_rand rng xs = (case dropWhile (\<lambda>x. \<not> accepted rng x) xs of [] \<Rightarrow> Inl Diverges | x # rest \<Rightarrow> Inr (x mod rng, rest))"
  using assms by (induction xs) auto

text \<open>C40: \<open>bounded_rand\<close> returns the remainder of the first answer it accepts, which is below \<open>range\<close>; over all 32-bit
  answers every remainder is accepted equally often, namely for \<open>2 ^ 32 div range\<close> of them, and fewer than \<open>range\<close> answers
  are rejected.\<close>
theorem bounded_rand_uniform:
  assumes "rng \<noteq> 0"
  shows "bounded_rand rng xs = (case dropWhile (\<lambda>x. \<not> accepted rng x) xs of
      [] \<Rightarrow> Inl Diverges | x # rest \<Rightarrow> Inr (x mod rng, rest)) \<and>
    (\<forall>x. x mod rng < rng) \<and>
    (\<forall>r. r < rng \<longrightarrow> card {x. accepted rng x \<and> x mod rng = r} = 2 ^ 32 div unat rng) \<and>
    card {x. \<not> accepted rng x} < unat rng"
proof -
  let ?n = "unat rng" and ?q = "2 ^ 32 div unat rng"
  have n: "0 < ?n" using assms by (simp add: unat_gt_0)
  have le: "?q * ?n \<le> 2 ^ 32" by (simp add: div_times_less_eq_dividend)
  have "card {x. accepted rng x \<and> x mod rng = r} = ?q" if "r < rng" for r
  proof -
    have "{x. accepted rng x \<and> x mod rng = r} = {x. unat x < ?q * ?n \<and> unat x mod ?n = unat r}"
      by (auto simp: accepted_iff [OF assms] unat_mod word_unat_eq_iff)
    moreover have "card {x :: 32 word. unat x < ?q * ?n \<and> unat x mod ?n = unat r} = ?q"
      using card_unat [OF le, of "\<lambda>k. k mod ?n = unat r"] card_residue [of "unat r" ?n ?q] that by (simp add: word_less_nat_alt)
    ultimately show ?thesis by simp
  qed
  moreover have "card {x. \<not> accepted rng x} < ?n"
  proof -
    have "{x. \<not> accepted rng x} = UNIV - {x. unat x < ?q * ?n \<and> True}" by (auto simp: accepted_iff [OF assms])
    moreover have "card (UNIV - {x :: 32 word. unat x < ?q * ?n \<and> True}) = 2 ^ 32 - ?q * ?n"
      using card_unat [OF le, of "\<lambda>_. True"] by (subst card_Diff_subset) (simp_all add: card_word)
    moreover have "2 ^ 32 - ?q * ?n = 2 ^ 32 mod ?n" by (simp add: minus_div_mult_eq_mod)
    ultimately show ?thesis using n by (metis mod_less_divisor)
  qed
  moreover have "x mod rng < rng" for x using assms by (simp add: word_mod_less_divisor word_gt_0)
  ultimately show ?thesis using bounded_rand_first [OF assms] by simp
qed

theorem bounded_rand_uniform_witness:
  "card {x :: 32 word. accepted 6 x \<and> x mod 6 = 5} = 715827882"
  using bounded_rand_uniform [of 6 "[]"] by simp

section \<open>With \<open>rand\<close> nothing is rejected\<close>

text \<open>
  But \<open>rand\<close> only answers up to \<open>RAND_MAX\<close>, which is \<open>2 ^ 31 - 1\<close>: for every \<open>range\<close> up to \<open>2 ^ 31\<close> the test always holds,
  and the remainders are as uneven as without it.
\<close>

lemma rand_never_rejected:
  assumes "rng \<noteq> 0" and "unat rng \<le> 2 ^ 31" and "x \<le> RAND_MAX"
  shows "accepted rng x"
proof -
  let ?n = "unat rng"
  have x: "unat x < 2 ^ 31" using assms(3) by (simp add: RAND_MAX_def word_le_nat_alt)
  have n: "0 < ?n" using assms(1) by (simp add: unat_gt_0)
  have "2 ^ 32 mod ?n < ?n" using n by (rule mod_less_divisor)
  moreover have "c - n < a" if "a + b = c" "b < n" "n \<le> c" for a b c n :: nat using that by linarith
  moreover have "?n \<le> 2 ^ 32" using assms(2) by simp
  ultimately have "2 ^ 32 - ?n < 2 ^ 32 div ?n * ?n" using div_mult_mod_eq [of "2 ^ 32" ?n] by blast
  moreover have "2 ^ 31 \<le> 2 ^ 32 - ?n" using assms(2) by simp
  ultimately have "unat x < 2 ^ 32 div ?n * ?n" using x by (meson less_le_trans less_trans)
  then show ?thesis by (simp add: accepted_iff [OF assms(1)])
qed

lemma card_residue_tail:
  assumes "s < n" and "r < n"
  shows "card {k. k < q * n + s \<and> k mod n = r} = (if r < s then Suc q else q :: nat)"
proof (cases "r < s")
  case True
  have "k < q * n + s \<longleftrightarrow> k < Suc q * n" if "k mod n = r" for k
  proof
    assume "k < Suc q * n"
    then have "k div n * n \<le> q * n" using assms(1) by (intro mult_le_mono1) (simp add: less_Suc_eq_le [symmetric] div_less_iff_less_mult)
    moreover have "k = k div n * n + r" using that by auto
    ultimately show "k < q * n + s" using True by linarith
  qed (use assms(1) in simp)
  then have "{k. k < q * n + s \<and> k mod n = r} = {k. k < Suc q * n \<and> k mod n = r}" by blast
  with True card_residue [OF assms(2), of "Suc q"] show ?thesis by simp
next
  case False
  have "k < q * n + s \<longleftrightarrow> k < q * n" if "k mod n = r" for k
  proof
    assume k: "k < q * n + s"
    have e: "k = k div n * n + r" using that by auto
    with k False have "k div n * n < q * n" by linarith
    then have "k div n < q" by simp
    then have "(k div n + 1) * n \<le> q * n" by (intro mult_le_mono1) simp
    with e assms(2) show "k < q * n" by (simp add: algebra_simps)
  qed simp
  then have "{k. k < q * n + s \<and> k mod n = r} = {k. k < q * n \<and> k mod n = r}" by blast
  with False card_residue [OF assms(2), of q] show ?thesis by simp
qed

text \<open>A die with six faces: 1 and 2 have one answer more than the other faces.\<close>

lemma dice_uneven:
  assumes "r < 6"
  shows "card {x. x \<le> RAND_MAX \<and> accepted 6 x \<and> x mod 6 = r} = (if r < 2 then 357913942 else 357913941)"
proof -
  have "{x. x \<le> RAND_MAX \<and> accepted 6 x \<and> x mod 6 = r} = {x. unat x < 2 ^ 31 \<and> unat x mod 6 = unat r}"
    using rand_never_rejected [of 6] by (auto simp: RAND_MAX_def word_le_nat_alt word_unat_eq_iff unat_mod)
  then have "card {x. x \<le> RAND_MAX \<and> accepted 6 x \<and> x mod 6 = r} = card {k :: nat. k < 2 ^ 31 \<and> k mod 6 = unat r}"
    using card_unat [of "2 ^ 31" "\<lambda>k. k mod 6 = unat r"] by simp
  moreover have "unat r < 6" "unat r < 2 \<longleftrightarrow> r < 2" using assms by (simp_all add: word_less_nat_alt)
  ultimately show ?thesis using card_residue_tail [of 2 6 "unat r" 357913941] by simp
qed

text \<open>Every roll shows a face of the die.\<close>

lemma roll_faces:
  assumes "roll sides n xs = Inr (rs, ys)" and "sides \<noteq> 0" and "sides < 2 ^ 31"
  shows "length rs = n \<and> (\<forall>r \<in> set rs. 1 \<le> r \<and> r \<le> sides)"
  using assms(1)
proof (induction n arbitrary: xs rs)
  case (Suc n)
  then obtain r zs rs' where b: "bounded_rand sides xs = Inr (r, zs)" "roll sides n zs = Inr (rs', ys)" "rs = (1 + r) # rs'"
    by auto
  have "r < sides"
    using b(1) assms(2) unfolding bounded_rand_first [OF assms(2)]
    by (auto split: list.splits simp: word_mod_less_divisor word_gt_0)
  then have "1 \<le> 1 + r \<and> 1 + r \<le> sides" using assms(3) by (unat_arith)
  with b Suc.IH show ?case by auto
qed simp

end
