(* ===== verification/Boost_Timer.thy ===== *)
theory Boost_Timer
  imports Prelude
begin

text \<open>
  The timer tutorials 4 and 5 of BoostLearn/Asio/Tutorial. What they use of Boost.Asio is its contract: the handler given
  to \<open>async_wait\<close> is called once, handlers of one strand one after the other, and \<open>run\<close> returns when no wait is pending.
  The order of the handlers of different timers is open.
\<close>

section \<open>One timer\<close>

text \<open>A timer: its expiry in seconds and whether a wait is pending. The numbers printed so far are \<open>pt_out\<close>.\<close>

record printer3 =
  pt_count :: nat
  pt_expiry :: nat
  pt_waiting :: bool
  pt_out :: "nat list"

definition printer3_new :: printer3 where
  "printer3_new = \<lparr>pt_count = 0, pt_expiry = 1, pt_waiting = True, pt_out = []\<rparr>"

definition print3 :: "printer3 \<Rightarrow> printer3" where
  "print3 p = (if pt_count p < 5 then p\<lparr>pt_out := pt_out p @ [pt_count p], pt_count := pt_count p + 1,
     pt_expiry := pt_expiry p + 1, pt_waiting := True\<rparr> else p)"

text \<open>\<open>run\<close>: the pending handler is called until none is; the fuel bounds the calls.\<close>

fun run3 :: "nat \<Rightarrow> printer3 \<Rightarrow> printer3 res" where
  "run3 0 p = (if pt_waiting p then Inl Diverges else Inr p)"
| "run3 (Suc n) p = (if pt_waiting p then run3 n (print3 (p\<lparr>pt_waiting := False\<rparr>)) else Inr p)"

lemma run3_result:
  assumes "pt_count p \<le> 5" and "pt_waiting p" and "5 < n + pt_count p"
  shows "run3 n p = Inr \<lparr>pt_count = 5, pt_expiry = pt_expiry p + (5 - pt_count p), pt_waiting = False,
    pt_out = pt_out p @ [pt_count p..<5]\<rparr>"
  using assms
proof (induction n arbitrary: p)
  case (Suc n)
  show ?case
  proof (cases "pt_count p < 5")
    case True
    let ?q = "print3 (p\<lparr>pt_waiting := False\<rparr>)"
    have q: "pt_count ?q = pt_count p + 1" "pt_waiting ?q" "pt_expiry ?q = pt_expiry p + 1" "pt_out ?q = pt_out p @ [pt_count p]"
      using True by (simp_all add: print3_def)
    have "run3 n ?q = Inr \<lparr>pt_count = 5, pt_expiry = pt_expiry ?q + (5 - pt_count ?q), pt_waiting = False,
        pt_out = pt_out ?q @ [pt_count ?q..<5]\<rparr>"
      using Suc.prems True by (intro Suc.IH) (simp_all add: q)
    with True Suc.prems(2) show ?thesis by (simp add: q upt_conv_Cons)
  next
    case False
    with Suc.prems have "pt_count p = 5" by simp
    moreover have "run3 n (p\<lparr>pt_waiting := False\<rparr>) = Inr (p\<lparr>pt_waiting := False\<rparr>)" by (cases n) simp_all
    ultimately show ?thesis using Suc.prems(2) by (simp add: print3_def)
  qed
qed simp

text \<open>\<open>run\<close> returns after six calls, with the counts from 0 to 4 printed and a final count of 5.\<close>

lemma timer3_output: "\<exists>p. run3 6 printer3_new = Inr p \<and> pt_out p = [0..<5] \<and> pt_count p = 5 \<and> pt_expiry p = 6"
  using run3_result [of printer3_new 6] by (simp add: printer3_new_def)

section \<open>Two timers on a strand\<close>

record printer5 =
  pr_count :: nat
  pr_expiry1 :: nat
  pr_expiry2 :: nat
  pr_waiting1 :: bool
  pr_waiting2 :: bool
  pr_out :: "(nat \<times> nat) list"

definition printer5_new :: printer5 where
  "printer5_new = \<lparr>pr_count = 0, pr_expiry1 = 1, pr_expiry2 = 1, pr_waiting1 = True, pr_waiting2 = True, pr_out = []\<rparr>"

definition print1 :: "printer5 \<Rightarrow> printer5" where
  "print1 p = (if pr_count p < 10 then p\<lparr>pr_out := pr_out p @ [(1, pr_count p)], pr_count := pr_count p + 1,
     pr_expiry1 := pr_expiry1 p + 1, pr_waiting1 := True\<rparr> else p)"

definition print2 :: "printer5 \<Rightarrow> printer5" where
  "print2 p = (if pr_count p < 10 then p\<lparr>pr_out := pr_out p @ [(2, pr_count p)], pr_count := pr_count p + 1,
     pr_expiry2 := pr_expiry2 p + 1, pr_waiting2 := True\<rparr> else p)"

text \<open>Either thread in \<open>run\<close> may take the handler of a pending wait; the strand keeps it whole.\<close>

inductive strand_step :: "printer5 \<Rightarrow> printer5 \<Rightarrow> bool" where
  timer1: "pr_waiting1 p \<Longrightarrow> strand_step p (print1 (p\<lparr>pr_waiting1 := False\<rparr>))"
| timer2: "pr_waiting2 p \<Longrightarrow> strand_step p (print2 (p\<lparr>pr_waiting2 := False\<rparr>))"

inductive_simps strand_step_iff: "strand_step p q"

definition strand_inv :: "nat \<Rightarrow> printer5 \<Rightarrow> bool" where
  "strand_inv n p \<longleftrightarrow> pr_count p \<le> 10 \<and> (pr_count p < 10 \<longrightarrow> pr_waiting1 p \<and> pr_waiting2 p) \<and>
     map snd (pr_out p) = [0..<pr_count p] \<and>
     pr_expiry1 p = 1 + length (filter (\<lambda>(t, c). t = 1) (pr_out p)) \<and>
     pr_expiry2 p = 1 + length (filter (\<lambda>(t, c). t = 2) (pr_out p)) \<and>
     n = pr_count p + (if pr_waiting1 p then 0 else 1) + (if pr_waiting2 p then 0 else 1)"

lemma strand_step_inv: "strand_inv n p \<Longrightarrow> strand_step p q \<Longrightarrow> strand_inv (Suc n) q"
  by (erule strand_step.cases) (auto simp: strand_inv_def print1_def print2_def)

lemma strand_steps_inv: "(strand_step ^^ n) printer5_new p \<Longrightarrow> strand_inv n p"
proof (induction n arbitrary: p)
  case 0
  then have "p = printer5_new" by simp
  then show ?case by (simp add: strand_inv_def printer5_new_def)
next
  case (Suc n)
  then show ?case using strand_step_inv by auto
qed

lemma two_timers:
  "list_all (\<lambda>(t, c). t = 1 \<or> t = 2) xs \<Longrightarrow>
    length (filter (\<lambda>(t, c). t = (1 :: nat)) xs) + length (filter (\<lambda>(t, c). t = 2) xs) = length xs"
  by (induction xs) auto

text \<open>The two timers on a strand: in every order of their handlers the counts are printed from 0 on, each once, and
  every handler that prints moves its own timer by a second; the program makes exactly twelve handler calls, since both
  waits are pending until the count is 10, and when nothing is pending the count is 10, so \<open>run\<close> returns with the final
  count that is meant.\<close>

lemma strand_prints_ten:
  assumes "(strand_step ^^ n) printer5_new p"
  shows "map snd (pr_out p) = [0..<pr_count p] \<and> n \<le> 12 \<and> ((\<nexists>q. strand_step p q) \<longleftrightarrow> n = 12) \<and>
    (n = 12 \<longrightarrow> pr_count p = 10 \<and> pr_expiry1 p + pr_expiry2 p = 12)"
proof -
  have inv: "strand_inv n p" using strand_steps_inv [OF assms] .
  have "(\<exists>q. strand_step p q) \<longleftrightarrow> pr_waiting1 p \<or> pr_waiting2 p" by (auto simp: strand_step_iff)
  with inv have a: "n \<le> 12 \<and> ((\<nexists>q. strand_step p q) \<longleftrightarrow> n = 12)" by (auto simp: strand_inv_def)
  have b: "n = 12 \<longrightarrow> pr_count p = 10" using inv by (auto simp: strand_inv_def split: if_splits)
  have "list_all (\<lambda>(t, c). t = 1 \<or> t = 2) (pr_out p)" using assms
  proof (induction n arbitrary: p)
    case (Suc n)
    then obtain r where "list_all (\<lambda>(t, c). t = 1 \<or> t = 2) (pr_out r)" "strand_step r p" by auto
    then show ?case by (auto simp: strand_step_iff print1_def print2_def)
  next
    case 0
    then have "p = printer5_new" by simp
    then show ?case by (simp add: printer5_new_def)
  qed
  then have c: "length (filter (\<lambda>(t, c). t = 1) (pr_out p)) + length (filter (\<lambda>(t, c). t = 2) (pr_out p)) = length (pr_out p)"
    by (rule two_timers)
  have m: "map snd (pr_out p) = [0..<pr_count p]" and e: "pr_expiry1 p = 1 + length (filter (\<lambda>(t, c). t = 1) (pr_out p))"
    "pr_expiry2 p = 1 + length (filter (\<lambda>(t, c). t = 2) (pr_out p))" using inv unfolding strand_inv_def by blast+
  from m have "length (pr_out p) = pr_count p" by (metis diff_zero length_map length_upt)
  with b c e have "n = 12 \<longrightarrow> pr_count p = 10 \<and> pr_expiry1 p + pr_expiry2 p = 12" by linarith
  with m a show ?thesis by blast
qed

lemma strand_prints_ten_witness: "\<exists>p. (strand_step ^^ 1) printer5_new p \<and> map snd (pr_out p) = [0]"
proof -
  let ?p = "print1 (printer5_new\<lparr>pr_waiting1 := False\<rparr>)"
  have s: "(strand_step ^^ 1) printer5_new ?p" using timer1 [of printer5_new] unfolding relpowp_1 by (simp add: printer5_new_def)
  have "[0..<pr_count ?p] = [0]" by (simp add: print1_def printer5_new_def)
  with conjunct1 [OF strand_prints_ten [OF s]] have "map snd (pr_out ?p) = [0]" by (rule trans)
  with s show ?thesis by (intro exI [of _ ?p] conjI)
qed

end
