(* ===== verification/Boost_Daytime.thy ===== *)
theory Boost_Daytime
  imports Prelude
begin

text \<open>
  The asynchronous daytime servers of BoostLearn/Asio/Tutorial: Daytime_03.cpp (TCP), Daytime_06.cpp (UDP) and
  Daytime_07.cpp, which runs both on one \<open>io_context\<close>. What is used of Boost.Asio is its contract: an operation that was
  started completes once, with or without an error, in any order, and then its handler is called by \<open>run\<close>; a handler
  keeps what is bound into it, and the buffer of an operation must live until the operation completes. The objects
  behind a \<open>shared_ptr\<close> are numbered; \<open>dt_refs\<close> counts the pointers to each, and an object without a pointer is gone.
\<close>

section \<open>State\<close>

datatype async_op = Accept_Op nat | Write_Op nat | Receive_Op | Send_Op nat nat

text \<open>
  \<open>dt_text\<close> is the string of an object: \<open>message_\<close> of a connection, or the string that a datagram is sent from.
  \<open>dt_written\<close> and \<open>dt_replies\<close> are the completed writes and sends, with whether they succeeded.
\<close>

record daytime =
  dt_objects :: nat
  dt_refs :: "nat \<Rightarrow> nat"
  dt_text :: "nat \<Rightarrow> string"
  dt_ops :: "async_op multiset"
  dt_remote :: nat
  dt_written :: "(nat \<times> string \<times> bool) list"
  dt_replies :: "(nat \<times> string \<times> bool) list"

definition new_object :: "string \<Rightarrow> daytime \<Rightarrow> nat \<times> daytime" where
  "new_object text s = (dt_objects s, s\<lparr>dt_objects := Suc (dt_objects s), dt_refs := (dt_refs s)(dt_objects s := 1),
     dt_text := (dt_text s)(dt_objects s := text)\<rparr>)"

definition copy_ptr :: "nat \<Rightarrow> daytime \<Rightarrow> daytime" where
  "copy_ptr p s = s\<lparr>dt_refs := (dt_refs s)(p := dt_refs s p + 1)\<rparr>"

definition drop_ptr :: "nat \<Rightarrow> daytime \<Rightarrow> daytime" where
  "drop_ptr p s = s\<lparr>dt_refs := (dt_refs s)(p := dt_refs s p - 1)\<rparr>"

definition start_op :: "async_op \<Rightarrow> daytime \<Rightarrow> daytime" where
  "start_op x s = s\<lparr>dt_ops := add_mset x (dt_ops s)\<rparr>"

section \<open>TCP\<close>

definition tcp_create :: "daytime \<Rightarrow> nat \<times> daytime" where
  "tcp_create s = new_object [] s"

text \<open>The local pointer is gone when the function returns; the one bound into the handler stays.\<close>

definition tcp_start_accept :: "daytime \<Rightarrow> daytime" where
  "tcp_start_accept s =
     (let (new_connection, s1) = tcp_create s;
          s2 = start_op (Accept_Op new_connection) (copy_ptr new_connection s1)
      in drop_ptr new_connection s2)"

definition tcp_start :: "string \<Rightarrow> nat \<Rightarrow> daytime \<Rightarrow> daytime res" where
  "tcp_start now c s =
     (if dt_refs s c = 0 then Inl Undefined
      else (let s1 = s\<lparr>dt_text := (dt_text s)(c := now)\<rparr> in Inr (start_op (Write_Op c) (copy_ptr c s1))))"

definition tcp_handle_accept :: "string \<Rightarrow> nat \<Rightarrow> bool \<Rightarrow> daytime \<Rightarrow> daytime res" where
  "tcp_handle_accept now new_connection error s =
     res_bind (if \<not> error then tcp_start now new_connection s else Inr s) (\<lambda>s. Inr (tcp_start_accept s))"

section \<open>UDP\<close>

definition udp_start_receive :: "daytime \<Rightarrow> daytime" where
  "udp_start_receive s = start_op Receive_Op s"

definition udp_handle_receive :: "string \<Rightarrow> bool \<Rightarrow> daytime \<Rightarrow> daytime" where
  "udp_handle_receive now error s =
     (if \<not> error
      then (let (message, s1) = new_object now s;
                s2 = start_op (Send_Op message (dt_remote s1)) (copy_ptr message s1);
                s3 = udp_start_receive s2
            in drop_ptr message s3)
      else s)"

section \<open>\<open>main\<close>\<close>

definition daytime_start :: daytime where
  "daytime_start = udp_start_receive (tcp_start_accept \<lparr>dt_objects = 0, dt_refs = (\<lambda>_. 0), dt_text = (\<lambda>_. []),
     dt_ops = {#}, dt_remote = 0, dt_written = [], dt_replies = []\<rparr>)"

text \<open>
  A pending operation completes and its handler runs; \<open>now\<close> is the text of \<open>make_daytime_string\<close> and \<open>from\<close> the sender of
  a datagram. The pointer bound into the handler goes with it. A write or a send whose buffer is gone is undefined.
\<close>

fun complete_op :: "async_op \<Rightarrow> bool \<Rightarrow> string \<Rightarrow> nat \<Rightarrow> daytime \<Rightarrow> daytime res" where
  "complete_op (Accept_Op c) error now sender s =
     res_bind (tcp_handle_accept now c error (s\<lparr>dt_ops := dt_ops s - {#Accept_Op c#}\<rparr>)) (\<lambda>s. Inr (drop_ptr c s))"
| "complete_op (Write_Op c) error now sender s =
     (if dt_refs s c = 0 then Inl Undefined
      else Inr (drop_ptr c (s\<lparr>dt_ops := dt_ops s - {#Write_Op c#},
                             dt_written := dt_written s @ [(c, dt_text s c, \<not> error)]\<rparr>)))"
| "complete_op Receive_Op error now sender s =
     Inr (udp_handle_receive now error (s\<lparr>dt_ops := dt_ops s - {#Receive_Op#},
       dt_remote := (if error then dt_remote s else sender)\<rparr>))"
| "complete_op (Send_Op m e) error now sender s =
     (if dt_refs s m = 0 then Inl Undefined
      else Inr (drop_ptr m (s\<lparr>dt_ops := dt_ops s - {#Send_Op m e#},
                             dt_replies := dt_replies s @ [(e, dt_text s m, \<not> error)]\<rparr>)))"

text \<open>The history of a run: the completed operations with their error, time and sender.\<close>

type_synonym completion = "async_op \<times> bool \<times> string \<times> nat"

inductive daytime_step :: "completion list \<times> daytime \<Rightarrow> completion list \<times> daytime \<Rightarrow> bool" where
  complete: "x \<in># dt_ops s \<Longrightarrow> complete_op x error now sender s = Inr t \<Longrightarrow>
    daytime_step (es, s) (es @ [(x, error, now, sender)], t)"

fun accepted_at :: "completion list \<Rightarrow> (nat \<times> string) multiset" where
  "accepted_at [] = {#}"
| "accepted_at ((Accept_Op c, False, now, sender) # es) = add_mset (c, now) (accepted_at es)"
| "accepted_at (_ # es) = accepted_at es"

fun asked_at :: "completion list \<Rightarrow> (nat \<times> string) multiset" where
  "asked_at [] = {#}"
| "asked_at ((Receive_Op, False, now, sender) # es) = add_mset (sender, now) (asked_at es)"
| "asked_at (_ # es) = asked_at es"

fun receive_failed :: "completion list \<Rightarrow> bool" where
  "receive_failed [] \<longleftrightarrow> False"
| "receive_failed ((Receive_Op, True, now, sender) # es) \<longleftrightarrow> True"
| "receive_failed (_ # es) \<longleftrightarrow> receive_failed es"

lemma accepted_append [simp]: "accepted_at (es @ fs) = accepted_at es + accepted_at fs"
  by (induction es rule: accepted_at.induct) simp_all

lemma asked_append [simp]: "asked_at (es @ fs) = asked_at es + asked_at fs"
  by (induction es rule: asked_at.induct) simp_all

lemma receive_failed_append [simp]: "receive_failed (es @ fs) \<longleftrightarrow> receive_failed es \<or> receive_failed fs"
  by (induction es rule: receive_failed.induct) simp_all

section \<open>Invariant\<close>

fun op_ptr :: "async_op \<Rightarrow> nat option" where
  "op_ptr (Accept_Op c) = Some c"
| "op_ptr (Write_Op c) = Some c"
| "op_ptr Receive_Op = None"
| "op_ptr (Send_Op m e) = Some m"

abbreviation holders :: "nat \<Rightarrow> async_op multiset \<Rightarrow> nat" where
  "holders p M \<equiv> size (filter_mset (\<lambda>x. op_ptr x = Some p) M)"

text \<open>What the pending operations will write and send.\<close>

fun op_write :: "(nat \<Rightarrow> string) \<Rightarrow> async_op \<Rightarrow> (nat \<times> string) multiset" where
  "op_write text (Write_Op c) = {#(c, text c)#}"
| "op_write text x = {#}"

fun op_send :: "(nat \<Rightarrow> string) \<Rightarrow> async_op \<Rightarrow> (nat \<times> string) multiset" where
  "op_send text (Send_Op m e) = {#(e, text m)#}"
| "op_send text x = {#}"

definition pending_writes :: "(nat \<Rightarrow> string) \<Rightarrow> async_op multiset \<Rightarrow> (nat \<times> string) multiset" where
  "pending_writes text M = sum_mset (image_mset (op_write text) M)"

definition pending_sends :: "(nat \<Rightarrow> string) \<Rightarrow> async_op multiset \<Rightarrow> (nat \<times> string) multiset" where
  "pending_sends text M = sum_mset (image_mset (op_send text) M)"

lemma pending_add [simp]:
  "pending_writes text (add_mset x M) = op_write text x + pending_writes text M"
  "pending_sends text (add_mset x M) = op_send text x + pending_sends text M"
  by (simp_all add: pending_writes_def pending_sends_def)

lemma pending_empty [simp]: "pending_writes text {#} = {#}" "pending_sends text {#} = {#}"
  by (simp_all add: pending_writes_def pending_sends_def)

lemma pending_fresh:
  assumes "holders p M = 0"
  shows "pending_writes (text(p := t)) M = pending_writes text M"
    and "pending_sends (text(p := t)) M = pending_sends text M"
proof -
  have no: "op_ptr x \<noteq> Some p" if "x \<in># M" for x
    using assms that by auto
  have "op_write (text(p := t)) x = op_write text x \<and> op_send (text(p := t)) x = op_send text x" if "x \<in># M" for x
    using no [OF that] by (cases x) simp_all
  then have "image_mset (op_write (text(p := t))) M = image_mset (op_write text) M"
    "image_mset (op_send (text(p := t))) M = image_mset (op_send text) M"
    by (auto intro!: image_mset_cong)
  then show "pending_writes (text(p := t)) M = pending_writes text M"
    "pending_sends (text(p := t)) M = pending_sends text M"
    by (simp_all add: pending_writes_def pending_sends_def)
qed

fun answer_of :: "nat \<times> string \<times> bool \<Rightarrow> nat \<times> string" where
  "answer_of (c, t, ok) = (c, t)"

text \<open>
  Between the handlers every object is held by exactly one pending operation, one accept is pending, and a receive is
  unless one has failed.
\<close>

definition daytime_inv :: "completion list \<times> daytime \<Rightarrow> bool" where
  "daytime_inv z \<longleftrightarrow> (case z of (es, s) \<Rightarrow>
     (\<forall>p. holders p (dt_ops s) = dt_refs s p \<and> dt_refs s p \<le> 1 \<and> (dt_objects s \<le> p \<longrightarrow> dt_refs s p = 0)) \<and>
     size (filter_mset (\<lambda>x. \<exists>c. x = Accept_Op c) (dt_ops s)) = 1 \<and>
     count (dt_ops s) Receive_Op = (if receive_failed es then 0 else 1) \<and>
     mset (map answer_of (dt_written s)) + pending_writes (dt_text s) (dt_ops s) = accepted_at es \<and>
     mset (map answer_of (dt_replies s)) + pending_sends (dt_text s) (dt_ops s) = asked_at es)"

lemma daytime_inv_start: "daytime_inv ([], daytime_start)"
  by (simp add: daytime_inv_def daytime_start_def udp_start_receive_def tcp_start_accept_def tcp_create_def new_object_def
      copy_ptr_def drop_ptr_def start_op_def)

lemma inv_ptr:
  assumes "daytime_inv (es, s)" and "dt_ops s = add_mset x M" and "op_ptr x = Some p"
  shows "dt_refs s p = 1" "holders p M = 0" "p < dt_objects s" "holders (dt_objects s) M = 0"
proof -
  have h: "holders p (dt_ops s) = dt_refs s p" "dt_refs s p \<le> 1" "dt_objects s \<le> p \<longrightarrow> dt_refs s p = 0"
    "holders (dt_objects s) (dt_ops s) = dt_refs s (dt_objects s)" "dt_refs s (dt_objects s) = 0"
    using assms(1) by (simp_all add: daytime_inv_def)
  moreover have "holders p (dt_ops s) = Suc (holders p M)" "holders (dt_objects s) M \<le> holders (dt_objects s) (dt_ops s)"
    using assms(2,3) by simp_all
  ultimately show "dt_refs s p = 1" "holders p M = 0" "p < dt_objects s" "holders (dt_objects s) M = 0"
    by linarith+
qed

section \<open>Every completion keeps it\<close>

text \<open>What the handlers do, with the pointers that come and go within them left out.\<close>

lemma start_accept_eq:
  "tcp_start_accept s = s\<lparr>dt_objects := Suc (dt_objects s), dt_refs := (dt_refs s)(dt_objects s := 1),
     dt_text := (dt_text s)(dt_objects s := []), dt_ops := add_mset (Accept_Op (dt_objects s)) (dt_ops s)\<rparr>"
  by (simp add: tcp_start_accept_def tcp_create_def new_object_def copy_ptr_def drop_ptr_def start_op_def)

lemma accept_eq:
  assumes "dt_ops s = add_mset (Accept_Op c) M" and "dt_refs s c = 1" and "c < dt_objects s"
  shows "complete_op (Accept_Op c) error now sender s = Inr (s\<lparr>dt_objects := Suc (dt_objects s),
    dt_refs := (dt_refs s)(c := (if error then 0 else 1), dt_objects s := 1),
    dt_text := (if error then dt_text s else (dt_text s)(c := now))(dt_objects s := []),
    dt_ops := (if error then {#} else {#Write_Op c#}) + add_mset (Accept_Op (dt_objects s)) M\<rparr>)"
proof -
  have "c \<noteq> dt_objects s" using assms(3) by simp
  then show ?thesis
    using assms(1,2) by (simp add: tcp_handle_accept_def tcp_start_def start_accept_eq copy_ptr_def drop_ptr_def start_op_def
        fun_upd_twist)
qed

lemma receive_eq:
  assumes "dt_ops s = add_mset Receive_Op M"
  shows "complete_op Receive_Op error now sender s = Inr (if error then s\<lparr>dt_ops := M\<rparr>
    else s\<lparr>dt_objects := Suc (dt_objects s), dt_refs := (dt_refs s)(dt_objects s := 1),
      dt_text := (dt_text s)(dt_objects s := now), dt_remote := sender,
      dt_ops := add_mset Receive_Op (add_mset (Send_Op (dt_objects s) sender) M)\<rparr>)"
  using assms by (simp add: udp_handle_receive_def new_object_def copy_ptr_def drop_ptr_def start_op_def
      udp_start_receive_def)

lemma output_eq:
  assumes "dt_refs s p = 1"
  shows "dt_ops s = add_mset (Write_Op p) M \<Longrightarrow> complete_op (Write_Op p) error now sender s = Inr (s\<lparr>dt_ops := M,
      dt_refs := (dt_refs s)(p := 0), dt_written := dt_written s @ [(p, dt_text s p, \<not> error)]\<rparr>)"
    and "dt_ops s = add_mset (Send_Op p e) M \<Longrightarrow> complete_op (Send_Op p e) error now sender s = Inr (s\<lparr>dt_ops := M,
      dt_refs := (dt_refs s)(p := 0), dt_replies := dt_replies s @ [(e, dt_text s p, \<not> error)]\<rparr>)"
  using assms by (simp_all add: drop_ptr_def)

lemma daytime_invI:
  assumes "\<And>p. holders p (dt_ops s) = dt_refs s p" and "\<And>p. dt_refs s p \<le> 1" and "\<And>p. dt_objects s \<le> p \<Longrightarrow> dt_refs s p = 0"
    and "size (filter_mset (\<lambda>x. \<exists>c. x = Accept_Op c) (dt_ops s)) = 1"
    and "count (dt_ops s) Receive_Op = (if receive_failed es then 0 else 1)"
    and "mset (map answer_of (dt_written s)) + pending_writes (dt_text s) (dt_ops s) = accepted_at es"
    and "mset (map answer_of (dt_replies s)) + pending_sends (dt_text s) (dt_ops s) = asked_at es"
  shows "daytime_inv (es, s)"
  using assms by (simp add: daytime_inv_def)

lemma daytime_step_inv:
  assumes inv: "daytime_inv (es, s)" and x: "x \<in># dt_ops s"
  shows "\<exists>t. complete_op x error now sender s = Inr t \<and> daytime_inv (es @ [(x, error, now, sender)], t)"
proof -
  obtain M where M: "dt_ops s = add_mset x M" using x by (metis multi_member_split)
  let ?n = "dt_objects s" and ?e = "[(x, error, now, sender)]"
  have h: "holders p (add_mset x M) = dt_refs s p" "dt_refs s p \<le> 1" "?n \<le> p \<Longrightarrow> dt_refs s p = 0" for p
    using inv unfolding daytime_inv_def prod.case M by blast+
  have acc: "size (filter_mset (\<lambda>x. \<exists>c. x = Accept_Op c) (add_mset x M)) = 1"
    and rec: "count (add_mset x M) Receive_Op = (if receive_failed es then 0 else 1)"
    and wr: "mset (map answer_of (dt_written s)) + pending_writes (dt_text s) (add_mset x M) = accepted_at es"
    and sn: "mset (map answer_of (dt_replies s)) + pending_sends (dt_text s) (add_mset x M) = asked_at es"
    using inv unfolding daytime_inv_def prod.case M by blast+
  have fresh: "holders ?n M = 0"
    using h(1) [of ?n] h(3) [of ?n] by (auto split: if_splits)
  show ?thesis
  proof (cases x)
    case (Accept_Op c)
    let ?t = "s\<lparr>dt_objects := Suc ?n, dt_refs := (dt_refs s)(c := (if error then 0 else 1), ?n := 1),
      dt_text := (if error then dt_text s else (dt_text s)(c := now))(?n := []),
      dt_ops := (if error then {#} else {#Write_Op c#}) + add_mset (Accept_Op ?n) M\<rparr>"
    have c: "c \<noteq> ?n" "holders c M = 0" "dt_refs s c = 1" "c < ?n"
      using inv_ptr [OF inv M, of c] Accept_Op by simp_all
    have "complete_op x error now sender s = Inr ?t"
      unfolding Accept_Op by (rule accept_eq [OF M [unfolded Accept_Op] c(3,4)])
    moreover have "daytime_inv (es @ ?e, ?t)"
    proof (rule daytime_invI)
      show "holders p (dt_ops ?t) = dt_refs ?t p" for p
        using h(1) [of p] c(1-3) fresh Accept_Op by (simp split: if_splits)
      show "size (filter_mset (\<lambda>x. \<exists>c. x = Accept_Op c) (dt_ops ?t)) = 1" using acc Accept_Op by simp
      show "count (dt_ops ?t) Receive_Op = (if receive_failed (es @ ?e) then 0 else 1)" using rec Accept_Op by simp
      show "mset (map answer_of (dt_written ?t)) + pending_writes (dt_text ?t) (dt_ops ?t) = accepted_at (es @ ?e)"
        using wr Accept_Op c fresh pending_fresh(1) [OF c(2)] pending_fresh(1) [OF fresh] by (cases error) simp_all
      show "mset (map answer_of (dt_replies ?t)) + pending_sends (dt_text ?t) (dt_ops ?t) = asked_at (es @ ?e)"
        using sn Accept_Op c fresh pending_fresh(2) [OF c(2)] pending_fresh(2) [OF fresh] by (cases error) simp_all
    qed (use h(2,3) c in \<open>auto\<close>)
    ultimately show ?thesis by blast
  next
    case (Write_Op c)
    let ?t = "s\<lparr>dt_ops := M, dt_refs := (dt_refs s)(c := 0), dt_written := dt_written s @ [(c, dt_text s c, \<not> error)]\<rparr>"
    have c: "holders c M = 0" "dt_refs s c = 1" using inv_ptr [OF inv M, of c] Write_Op by simp_all
    have "complete_op x error now sender s = Inr ?t"
      unfolding Write_Op by (rule output_eq(1) [OF c(2) M [unfolded Write_Op]])
    moreover have "daytime_inv (es @ ?e, ?t)"
    proof (rule daytime_invI)
      show "holders p (dt_ops ?t) = dt_refs ?t p" for p
        using h(1) [of p] c Write_Op by (simp split: if_splits)
    qed (use h(2,3) acc rec wr sn Write_Op in \<open>simp_all add: union_assoc\<close>)
    ultimately show ?thesis by blast
  next
    case Receive_Op
    let ?t = "s\<lparr>dt_objects := Suc ?n, dt_refs := (dt_refs s)(?n := 1), dt_text := (dt_text s)(?n := now),
      dt_remote := sender, dt_ops := add_mset Receive_Op (add_mset (Send_Op ?n sender) M)\<rparr>"
    show ?thesis
    proof (cases error)
      case True
      have "daytime_inv (es @ ?e, s\<lparr>dt_ops := M\<rparr>)"
        by (rule daytime_invI) (use h acc rec wr sn Receive_Op True in \<open>simp_all split: if_splits\<close>)
      with receive_eq [OF M [unfolded Receive_Op]] Receive_Op True show ?thesis by (simp del: complete_op.simps)
    next
      case False
      have "daytime_inv (es @ ?e, ?t)"
      proof (rule daytime_invI)
        show "holders p (dt_ops ?t) = dt_refs ?t p" for p
          using h(1) [of p] fresh Receive_Op by (simp split: if_splits)
        show "mset (map answer_of (dt_written ?t)) + pending_writes (dt_text ?t) (dt_ops ?t) = accepted_at (es @ ?e)"
          using wr Receive_Op pending_fresh(1) [OF fresh] by simp
        show "mset (map answer_of (dt_replies ?t)) + pending_sends (dt_text ?t) (dt_ops ?t) = asked_at (es @ ?e)"
          using sn Receive_Op pending_fresh(2) [OF fresh] False by simp
      qed (use h(2,3) acc rec Receive_Op False in \<open>simp_all\<close>)
      with receive_eq [OF M [unfolded Receive_Op]] Receive_Op False show ?thesis by (simp del: complete_op.simps)
    qed
  next
    case (Send_Op m e)
    let ?t = "s\<lparr>dt_ops := M, dt_refs := (dt_refs s)(m := 0), dt_replies := dt_replies s @ [(e, dt_text s m, \<not> error)]\<rparr>"
    have m: "holders m M = 0" "dt_refs s m = 1" using inv_ptr [OF inv M, of m] Send_Op by simp_all
    have "complete_op x error now sender s = Inr ?t"
      unfolding Send_Op by (rule output_eq(2) [OF m(2) M [unfolded Send_Op]])
    moreover have "daytime_inv (es @ ?e, ?t)"
    proof (rule daytime_invI)
      show "holders p (dt_ops ?t) = dt_refs ?t p" for p
        using h(1) [of p] m Send_Op by (simp split: if_splits)
    qed (use h(2,3) acc rec wr sn Send_Op in \<open>simp_all add: union_assoc\<close>)
    ultimately show ?thesis by blast
  qed
qed

interpretation daytime: invariant_system "\<lambda>z. z = ([], daytime_start)" daytime_step daytime_inv
proof unfold_locales
  show "daytime_inv t" if "daytime_inv z" "daytime_step z t" for z t
    using that(2)
  proof cases
    case (complete x s error now sender u es)
    with that(1) daytime_step_inv [of es s x error now sender] show ?thesis by auto
  qed
qed (simp add: daytime_inv_start)

section \<open>Properties\<close>

text \<open>C34: The daytime servers: in every order of completions, with any errors, no handler uses an object that is gone, every
  object is held by exactly one pending operation and freed after the last one, exactly one accept is pending, and every
  accepted connection is written, and every datagram answered to its sender, exactly once, with the time of its own
  completion; a receive is pending as long as none has failed, after that the UDP server answers nothing any more.\<close>
theorem daytime_answers_once:
  assumes "daytime_step\<^sup>*\<^sup>* ([], daytime_start) (es, s)"
  shows "(\<forall>x \<in># dt_ops s. \<forall>error now sender. \<exists>t. complete_op x error now sender s = Inr t) \<and>
    (\<forall>p. size (filter_mset (\<lambda>x. op_ptr x = Some p) (dt_ops s)) = dt_refs s p \<and> dt_refs s p \<le> 1) \<and>
    size (filter_mset (\<lambda>x. \<exists>c. x = Accept_Op c) (dt_ops s)) = 1 \<and>
    count (dt_ops s) Receive_Op = (if receive_failed es then 0 else 1) \<and>
    mset (map answer_of (dt_written s)) + pending_writes (dt_text s) (dt_ops s) = accepted_at es \<and>
    mset (map answer_of (dt_replies s)) + pending_sends (dt_text s) (dt_ops s) = asked_at es"
proof -
  have inv: "daytime_inv (es, s)" by (rule daytime.reachable_inv [OF refl assms])
  have "\<exists>t. complete_op x error now sender s = Inr t" if "x \<in># dt_ops s" for x error now sender
    using daytime_step_inv [OF inv that] by blast
  with inv show ?thesis unfolding daytime_inv_def prod.case by blast
qed

text \<open>A connection is accepted and a datagram received; their answers are pending.\<close>

theorem daytime_answers_once_witness:
  "\<exists>es s. daytime_step\<^sup>*\<^sup>* ([], daytime_start) (es, s) \<and> dt_written s = [] \<and>
     pending_writes (dt_text s) (dt_ops s) = {#(0, ''noon'')#} \<and> pending_sends (dt_text s) (dt_ops s) = {#(7, ''one'')#}"
proof -
  have s0: "daytime_step ([], daytime_start) ([(Accept_Op 0, False, ''noon'', 0)], t)"
    if "complete_op (Accept_Op 0) False ''noon'' 0 daytime_start = Inr t" for t
    using daytime_step.complete [of "Accept_Op 0" daytime_start False "''noon''" 0 t "[]"] that
    by (simp add: daytime_start_def start_accept_eq udp_start_receive_def start_op_def)
  have ops: "dt_ops daytime_start = add_mset (Accept_Op 0) {#Receive_Op#}" "dt_refs daytime_start 0 = 1"
    "0 < dt_objects daytime_start" "dt_objects daytime_start = 1" "dt_written daytime_start = []"
    by (simp_all add: daytime_start_def start_accept_eq udp_start_receive_def start_op_def)
  let ?s1 = "daytime_start\<lparr>dt_objects := Suc 1, dt_refs := (dt_refs daytime_start)(0 := 1, 1 := 1),
    dt_text := (dt_text daytime_start)(0 := ''noon'', 1 := []),
    dt_ops := {#Write_Op 0#} + add_mset (Accept_Op 1) {#Receive_Op#}\<rparr>"
  have 1: "daytime_step ([], daytime_start) ([(Accept_Op 0, False, ''noon'', 0)], ?s1)"
    using s0 accept_eq [OF ops(1-3), of False "''noon''" 0] ops(4) by simp
  obtain s2 where s2: "complete_op Receive_Op False ''one'' 7 ?s1 = Inr s2" "dt_written s2 = []"
    using receive_eq [of ?s1 "{#Write_Op 0#} + {#Accept_Op 1#}" False "''one''" 7] ops(5) by auto
  let ?es = "[(Accept_Op 0, False, ''noon'', 0)] @ [(Receive_Op, False, ''one'', 7)]"
  have "daytime_step ([(Accept_Op 0, False, ''noon'', 0)], ?s1) (?es, s2)"
    by (rule daytime_step.complete [OF _ s2(1)]) simp
  with 1 have run: "daytime_step\<^sup>*\<^sup>* ([], daytime_start) (?es, s2)" by (meson r_into_rtranclp rtranclp.rtrancl_into_rtrancl)
  have "dt_replies s2 = []" using s2(1) receive_eq [of ?s1 "{#Write_Op 0#} + {#Accept_Op 1#}" False "''one''" 7]
    by (auto simp: daytime_start_def start_accept_eq udp_start_receive_def start_op_def)
  with daytime_answers_once [OF run] s2(2) show ?thesis
    by (intro exI [of _ ?es] exI [of _ s2]) (simp add: run del: append.simps)
qed

end
