(* ===== verification/Spec2Isabelle.thy ===== *)
theory Spec2Isabelle
  imports Muduo_Watch Muduo_EchoSpec Muduo_Net Muduo_LoopThread Memory_Cache Memory_Pool Algorithm_Sort Algorithm_Greedy Algorithm_List
    Algorithm_Window Algorithm_Paths Algorithm_Backtrack Dbcp_Pool Timer_Queue Day_Channels Day09_Echo Doubles Concurrency_Bank
    Concurrency_Threads Misc_SharedPtr Misc_SharedFromThis Misc_Random Boost_Timer Boost_Daytime
begin

text \<open>
  A verification library for learn-note, a collection of C++ programs: a network library (muduo-mgkl), a memory pool
  (memory-mgkl), a database connection pool (DBCP-mgkl), a timer (Timer-mgkl), an echo server (30dayMakeCppServer),
  algorithm exercises (Algorithm) and small concurrent programs (CppConcurrencyProgramming, misc). The paths below are
  under src/, and under src/cpp_learning_projects/ for the five projects.

  Conventions (Prelude). What C++ leaves undefined (an index out of range, a null pointer read, a field never set) is
  the error \<open>Undefined\<close> of \<open>cpp_error\<close>; a loop that does not end, or whose fuel runs out, is \<open>Diverges\<close>; an exception or
  \<open>exit\<close> is an error of its own. An operation that can fail returns \<open>'a res\<close>, the sum of an error and a value, and
  \<open>res_bind\<close>, \<open>for_each\<close> and \<open>while_res\<close> are the sequence and the loops. \<open>size_t\<close> is a number below \<open>2 ^ 64\<close> with the
  wrap-around written out (\<open>sz_add\<close>, \<open>sz_sub\<close>, \<open>sz_mul\<close>), \<open>int\<close> is checked by \<open>int32\<close>, and bit masks are words. Pointers
  are addresses, \<open>0\<close> is null, and \<open>hlist\<close> relates a heap of next pointers to the nodes of a list. Answers of system
  calls, the clock, random choices and user callbacks are arguments. The locale \<open>invariant_system\<close> gives reachability
  reasoning to step relations, the components that have one interpret it on their own steps, and \<open>simulation\<close> extends it to
  refinement of one step relation by another.

  muduo-mgkl. \<open>Muduo_Buffer\<close>: include/Buffer.hpp and src/Buffer.cpp, the byte vector with its two indices; it refines
  a string to which bytes are appended and from which they are taken (locale \<open>byte_queue\<close>). \<open>Muduo_Poller\<close>: Channel and
  EPollPoller; the map of channels and their index field agree with the interest list of the kernel.
  \<open>Muduo_EventLoop\<close>: EventLoop, both as sequential operations and as the interleaved accesses of the loop and other
  threads to the queue of functors, the flag and the eventfd. \<open>Muduo_TcpConnection\<close>: TcpConnection with its output
  buffer; bytes leave in the order they were sent. \<open>Muduo_Server\<close>: Thread, EventLoopThreadPool, Acceptor and TcpServer,
  with the state of all loops and connections. \<open>Muduo_Echo\<close>: the server of example/testserver.cpp, which puts the theories
  before it together: its connections share the loops, and each gets back what it sent, unless a write finds the
  connection broken, when the message is dropped. \<open>Muduo_EchoSpec\<close>: the
  abstract server it implements (locale \<open>simulation\<close>). \<open>Muduo_Watch\<close>: what the kernel watches meanwhile. \<open>Muduo_LoopThread\<close>: the handshake and the destructor of
  EventLoopThread. \<open>Muduo_Net\<close>: Timestamp, CurrentThread, Logger, InetAddress and Socket.

  memory-mgkl. \<open>Memory_PageCache\<close>: spans and the free lists of pages. \<open>Memory_Cache\<close>: the size classes, CentralCache and
  ThreadCache on top of it, with free lists threaded through the blocks. \<open>Memory_Pool\<close>: the slot pools of MemoryPool and
  HashBucket, in one thread and, for the lock-free list, as interleaved atomic accesses. The properties say that no
  memory is handed out twice and where blocks or counts get lost.

  DBCP-mgkl (\<open>Dbcp_Pool\<close>): ConnectionPool, Connection and Log.hpp. Connections are conserved between the queue and the
  users; the round of the scanner is safe only while enough connections are idle. Timer-mgkl (\<open>Timer_Queue\<close>): hash_map.h
  and timer.h, with fields that no initialiser sets as missing values.

  30dayMakeCppServer, day12 (\<open>Day12_ThreadPool\<close>, \<open>Day12_Server\<close>): the pool under every interleaving, and the server
  from \<open>epoll\<close> to \<open>echo\<close>. Of the earlier days what differs is modelled: \<open>Day_Early\<close> has the loops of day02 to day04, which write
  back whole arrays, the clients, \<open>ThreadPool::add\<close> of day10 and \<open>deleteConnection\<close> of day11; \<open>Day_Channels\<close> has the channels and
  callbacks of day05 and day06, each of which implements the server of day04 (locale \<open>event_driven\<close>, which extends
  \<open>simulation\<close> of the prelude), and \<open>deleteConnection\<close> of day08 and day09. \<open>Day09_Echo\<close> joins the
  client and the server of day09 by the two streams between them: what is sent comes back and is shown, as long as no write is partial.

  Algorithm. \<open>Algorithm_Sort\<close>: Sort.cpp. \<open>Algorithm_Arrays\<close>: Array.cpp and the pointer techniques on vectors.
  \<open>Algorithm_Greedy\<close>: greedy.cpp. \<open>Algorithm_List\<close>: LinkedList.cpp. \<open>Algorithm_Window\<close>: its \<open>minWindow\<close>. \<open>Algorithm_DP\<close>:
  DynamicProgramming.cpp. \<open>Algorithm_Backtrack\<close>: BackTrack.cpp. \<open>Algorithm_Graph\<close> and \<open>Algorithm_Paths\<close>: graphy.cpp. Where
  a function is correct the property is its specification; where it is not, a lemma shows the input.

  CppConcurrencyProgramming and misc. \<open>Doubles\<close>: the addition of \<open>double\<close>, with numbers in units of \<open>2 ^ -1074\<close>, rounded
  to 53 bits with ties to even; the bounds on its error are proved once in the locale \<open>rounded_addition\<close>.
  \<open>Concurrency_Bank\<close>: the bank programs 09, 10 and 11 on it; what their locks protect is exact, the money only up to
  rounding. \<open>Concurrency_Threads\<close>: the
  parallel sums, with lock, load, store and unlock as separate steps, the counter and the thread pool. \<open>Misc_SharedPtr\<close>: the shared pointer and the list reversal of misc.
  \<open>Misc_SharedFromThis\<close>: its \<open>shared_from_this\<close> example, with the control blocks of the library. \<open>Misc_Random\<close>: \<open>bounded_rand\<close>,
  which is even over 32-bit answers and uneven over those of \<open>rand\<close>. \<open>Boost_Timer\<close>: the timers of the tutorials 4 and 5 of
  BoostLearn, whose handlers run in any order that the strand allows. \<open>Boost_Daytime\<close>: its TCP and UDP daytime servers, with
  the pointers that pending operations keep.

  Bounds and fuel. Recursions of the code that are not structural take fuel, and every property about them gives an
  amount that is enough: the length plus two for quicksort, the number of nodes (plus one) for lists and graphs, the
  length of the string for the window. Properties with machine integers assume that the values fit, and say so.

  Not modelled. Vendored code (json.hpp), tests, benchmarks and \<open>main\<close> functions that only print, the Boost tutorials
  other than two timers and the asynchronous daytime servers, files that are commented out (CoroutineLearn, typecasting_example.cpp) or do not compile
  (BinaryTree.cpp, StackedQueue.cpp, \<open>knapsack\<close>, \<open>SafeSharedPtr\<close>), the parts of the earlier days of the server that a
  later day repeats, and the overflow of \<open>double\<close> to infinity. Threads are interleaved at locks and atomic accesses with sequentially
  consistent memory.
\<close>

end
